(* ===== verification/Prelude.thy ===== *)
theory Prelude
  imports Main
begin

text \<open>
  Shared vocabulary of the development: the exception hierarchy of
  \<^verbatim>\<open>include/concurrencpp/errors.h\<close> (with the standard exceptions the library throws),
  outcomes of fallible operations, the model's addresses, and the list and option facts that
  several components use.
\<close>

section \<open>Exceptions and outcomes\<close>

text \<open>
  An exception carries its message.  \<open>Assertion_failed\<close> stands for a failed
  \<^verbatim>\<open>assert\<close> of the source, \<open>Undefined_behaviour\<close> for an operation whose
  precondition the language leaves to the caller (a null dereference, a signed overflow).
  \<open>User_exception\<close> is an exception thrown by application code, \<open>Terminated\<close> the call of
  \<^verbatim>\<open>std::terminate\<close> for an exception that leaves a \<^verbatim>\<open>noexcept\<close> function.
\<close>

datatype exn =
    Empty_result string
  | Empty_result_promise string
  | Empty_awaitable string
  | Empty_timer string
  | Empty_generator string
  | Broken_task string
  | Runtime_shutdown string
  | Result_already_retrieved string
  | Invalid_argument string
  | System_error nat string
  | User_exception nat
  | Assertion_failed string
  | Undefined_behaviour string
  | Terminated exn

type_synonym 'a outcome = "exn + 'a"

text \<open>A \<^verbatim>\<open>noexcept\<close> body.\<close>

definition noexcept_body :: "'a outcome \<Rightarrow> 'a outcome" where
  "noexcept_body m = (case m of Inl e \<Rightarrow> Inl (Terminated e) | Inr x \<Rightarrow> Inr x)"

lemma noexcept_body_simps [simp]:
  "noexcept_body (Inr x) = Inr x" "noexcept_body (Inl e) = Inl (Terminated e)"
  by (simp_all add: noexcept_body_def)

text \<open>Object identities: nodes, coroutine handles, executors, timers.\<close>

type_synonym addr = nat

text \<open>Sequencing of fallible operations: the first error ends the computation.\<close>

definition bind_outcome :: "'a outcome \<Rightarrow> ('a \<Rightarrow> 'b outcome) \<Rightarrow> 'b outcome" where
  "bind_outcome m f = (case m of Inl e \<Rightarrow> Inl e | Inr x \<Rightarrow> f x)"

definition assert_that :: "bool \<Rightarrow> string \<Rightarrow> unit outcome" where
  "assert_that b msg = (if b then Inr () else Inl (Assertion_failed msg))"

lemma bind_outcome_simps [simp]:
  "bind_outcome (Inl e) f = Inl e"
  "bind_outcome (Inr x) f = f x"
  by (simp_all add: bind_outcome_def)

lemma bind_outcome_Inr_iff:
  "bind_outcome m f = Inr y \<longleftrightarrow> (\<exists>x. m = Inr x \<and> f x = Inr y)"
  by (cases m) auto

lemma assert_that_simps [simp]:
  "b \<Longrightarrow> assert_that b msg = Inr ()"
  "\<not> b \<Longrightarrow> assert_that b msg = Inl (Assertion_failed msg)"
  by (simp_all add: assert_that_def)

section \<open>Pointwise updates\<close>

text \<open>An update that changes neither side of a predicate does not change its existential.\<close>

lemma ex_fun_upd_irrelevant:
  assumes "\<not> P (f i)" "\<not> P x"
  shows "(\<exists>j. P ((f(i := x)) j)) = (\<exists>j. P (f j))"
proof
  assume "\<exists>j. P ((f(i := x)) j)"
  then obtain j where j: "P ((f(i := x)) j)" ..
  with assms(2) have "j \<noteq> i" by auto
  with j show "\<exists>j. P (f j)" by auto
next
  assume "\<exists>j. P (f j)"
  then obtain j where j: "P (f j)" ..
  with assms(1) have "j \<noteq> i" by auto
  with j have "P ((f(i := x)) j)" by simp
  then show "\<exists>j. P ((f(i := x)) j)" ..
qed

section \<open>Lists\<close>

text \<open>Facts about update by index and counting, used by every component that keeps its
  per-object state in a list.\<close>

lemma count_filter_update_gain:
  assumes "i < length xs" "\<not> P (xs ! i)" "P x"
  shows "length (filter P (xs[i := x])) = Suc (length (filter P xs))"
proof -
  have split: "xs = take i xs @ xs ! i # drop (Suc i) xs"
    using assms(1) by (simp add: id_take_nth_drop)
  have "length (filter P (xs[i := x])) = length (filter P (take i xs @ x # drop (Suc i) xs))"
    using assms(1) by (simp add: upd_conv_take_nth_drop)
  moreover have "length (filter P xs) = length (filter P (take i xs @ xs ! i # drop (Suc i) xs))"
    using split by (rule arg_cong)
  ultimately show ?thesis using assms(2,3) by simp
qed

lemma count_filter_update_loss:
  assumes "i < length xs" "P (xs ! i)" "\<not> P x"
  shows "Suc (length (filter P (xs[i := x]))) = length (filter P xs)"
proof -
  have "length (filter P ((xs[i := x])[i := xs ! i])) = Suc (length (filter P (xs[i := x])))"
    by (rule count_filter_update_gain) (use assms in simp_all)
  then show ?thesis by simp
qed

lemma take_drop_append_sublist:
  "b \<le> e \<Longrightarrow> take b xs @ take (e - b) (drop b xs) = take e xs"
  by (metis le_add_diff_inverse take_add)

end
