(* ===== verification/Slist.thy ===== *)
theory Slist
  imports Prelude
begin

text \<open>
  The intrusive singly linked queue of \<^verbatim>\<open>include/concurrencpp/utils/slist.h\<close>.  Nodes
  live outside the list and carry their own \<^verbatim>\<open>next\<close> pointer, so the model keeps the
  \<^verbatim>\<open>next\<close> fields in a heap and the list itself is the pair of head and tail pointers.
  The theory relates that representation to the list of queued nodes and packages it as an
  implementation of the abstract first-in first-out interface \<open>fifo\<close>.
\<close>

section \<open>Representation and operations\<close>

type_synonym next_heap = "addr \<Rightarrow> addr option"

record slist =
  m_head :: "addr option"
  m_tail :: "addr option"

definition slist_empty_list :: slist where
  "slist_empty_list = \<lparr>m_head = None, m_tail = None\<rparr>"

definition assert_state :: "slist \<Rightarrow> unit outcome" where
  "assert_state l =
     (if m_head l = None then assert_that (m_tail l = None) ''m_tail == nullptr''
      else assert_that (m_tail l \<noteq> None) ''m_tail != nullptr'')"

text \<open>The move constructor: the new list and the emptied source.\<close>

definition slist_move :: "slist \<Rightarrow> slist \<times> slist" where
  "slist_move rhs =
     (\<lparr>m_head = m_head rhs, m_tail = m_tail rhs\<rparr>, rhs\<lparr>m_head := None, m_tail := None\<rparr>)"

definition slist_empty :: "slist \<Rightarrow> bool outcome" where
  "slist_empty l = bind_outcome (assert_state l) (\<lambda>_. Inr (m_head l = None))"

definition slist_push_back :: "next_heap \<Rightarrow> slist \<Rightarrow> addr \<Rightarrow> (next_heap \<times> slist) outcome" where
  "slist_push_back h l node =
     bind_outcome (assert_state l) (\<lambda>_.
       if m_head l = None then Inr (h, l\<lparr>m_head := Some node, m_tail := Some node\<rparr>)
       else (case m_tail l of
               None \<Rightarrow> Inl (Undefined_behaviour ''null dereference'')
             | Some t \<Rightarrow> Inr (h(t := Some node), l\<lparr>m_tail := Some node\<rparr>)))"

definition slist_pop_front :: "next_heap \<Rightarrow> slist \<Rightarrow> (addr option \<times> slist) outcome" where
  "slist_pop_front h l =
     bind_outcome (assert_state l) (\<lambda>_.
       case m_head l of
         None \<Rightarrow> Inr (None, l)
       | Some node \<Rightarrow>
           (let l1 = l\<lparr>m_head := h node\<rparr>;
                l2 = (if m_head l1 = None then l1\<lparr>m_tail := None\<rparr> else l1)
            in Inr (Some node, l2)))"

section \<open>Abstraction\<close>

text \<open>\<open>chain h p xs\<close>: following \<^verbatim>\<open>next\<close> from \<open>p\<close> visits exactly \<open>xs\<close> and ends at null.\<close>

fun chain :: "next_heap \<Rightarrow> addr option \<Rightarrow> addr list \<Rightarrow> bool" where
  "chain h p [] = (p = None)"
| "chain h p (x # xs) = (p = Some x \<and> chain h (h x) xs)"

definition slist_rep :: "next_heap \<Rightarrow> slist \<Rightarrow> addr list \<Rightarrow> bool" where
  "slist_rep h l xs \<longleftrightarrow>
     chain h (m_head l) xs \<and> m_tail l = (if xs = [] then None else Some (last xs))"

lemma chain_None [simp]: "chain h None xs \<longleftrightarrow> xs = []"
  by (cases xs) auto

lemma chain_unique: "chain h p xs \<Longrightarrow> chain h p ys \<Longrightarrow> xs = ys"
proof (induction xs arbitrary: p ys)
  case Nil
  then show ?case by simp
next
  case (Cons x xs)
  then show ?case by (cases ys) auto
qed

lemma chain_append:
  "chain h p (xs @ y # ys) \<Longrightarrow> chain h (Some y) (y # ys)"
  by (induction xs arbitrary: p) auto

lemma chain_distinct: "chain h p xs \<Longrightarrow> distinct xs"
proof (induction xs arbitrary: p)
  case Nil
  then show ?case by simp
next
  case (Cons x xs)
  have "x \<notin> set xs"
  proof
    assume "x \<in> set xs"
    then obtain ys zs where xs: "xs = ys @ x # zs" by (auto simp: in_set_conv_decomp)
    with Cons.prems have "chain h (h x) (ys @ x # zs)" by simp
    then have "chain h (Some x) (x # zs)" by (rule chain_append)
    moreover have "chain h (Some x) (x # xs)" using Cons.prems by simp
    ultimately have "x # zs = x # xs" by (rule chain_unique)
    with xs show False by simp
  qed
  with Cons show ?case by auto
qed

lemma chain_upd_other [simp]: "a \<notin> set xs \<Longrightarrow> chain (h(a := v)) p xs = chain h p xs"
  by (induction xs arbitrary: p) auto

lemma chain_snoc:
  assumes "chain h p (xs @ [t])" "a \<notin> set (xs @ [t])" "h a = None"
  shows "chain (h(t := Some a)) p (xs @ [t, a])"
  using assms
proof (induction xs arbitrary: p)
  case Nil
  then show ?case by auto
next
  case (Cons x xs)
  from Cons.prems(1) have "distinct ((x # xs) @ [t])" by (rule chain_distinct)
  with Cons show ?case by auto
qed

lemma slist_rep_assert: "slist_rep h l xs \<Longrightarrow> assert_state l = Inr ()"
  by (cases xs) (auto simp: slist_rep_def assert_state_def)

lemma slist_rep_empty_list [simp]: "slist_rep h slist_empty_list []"
  by (simp add: slist_rep_def slist_empty_list_def)

section \<open>Correctness of the operations\<close>

lemma slist_push_back_rep:
  assumes "slist_rep h l xs" "a \<notin> set xs" "h a = None"
  shows "\<exists>h' l'. slist_push_back h l a = Inr (h', l') \<and> slist_rep h' l' (xs @ [a]) \<and>
           (\<forall>b. b \<notin> set xs \<longrightarrow> h' b = h b)"
proof (cases xs rule: rev_cases)
  case Nil
  with assms slist_rep_assert [OF assms(1)] show ?thesis
    by (auto simp: slist_push_back_def slist_rep_def)
next
  case (snoc ys t)
  with assms(1) have tail: "m_tail l = Some t" and c: "chain h (m_head l) (ys @ [t])"
    by (auto simp: slist_rep_def)
  then have head: "m_head l \<noteq> None" by (cases "m_head l") simp_all
  have "chain (h(t := Some a)) (m_head l) (ys @ [t, a])"
    by (rule chain_snoc) (use c assms snoc in auto)
  with assms head tail snoc slist_rep_assert [OF assms(1)] show ?thesis
    by (auto simp: slist_push_back_def slist_rep_def)
qed

lemma slist_pop_front_rep:
  assumes "slist_rep h l xs"
  shows "\<exists>l'. slist_pop_front h l = Inr (case xs of [] \<Rightarrow> None | x # _ \<Rightarrow> Some x, l') \<and>
           slist_rep h l' (tl xs)"
proof (cases xs)
  case Nil
  with assms slist_rep_assert [OF assms] show ?thesis
    by (auto simp: slist_pop_front_def slist_rep_def)
next
  case (Cons x ys)
  with assms slist_rep_assert [OF assms] show ?thesis
    by (cases ys) (auto simp: slist_pop_front_def slist_rep_def Let_def)
qed

lemma slist_empty_rep:
  assumes "slist_rep h l xs"
  shows "slist_empty l = Inr (xs = [])"
  using assms slist_rep_assert [OF assms]
  by (cases xs) (auto simp: slist_empty_def slist_rep_def)

lemma slist_move_rep:
  assumes "slist_rep h l xs"
  shows "slist_rep h (fst (slist_move l)) xs \<and> slist_rep h (snd (slist_move l)) []"
  using assms by (simp add: slist_move_def slist_rep_def)

section \<open>The first-in first-out interface\<close>

text \<open>
  What the lock and the condition variable rely on: pushing a fresh node appends it, popping
  returns the oldest node, and neither ever fails an assertion.  \<open>drain\<close> is the loop of
  \<^verbatim>\<open>async_condition_variable::notify_all\<close>: pop until the queue answers null.
\<close>

fun drain :: "('q \<Rightarrow> ('a option \<times> 'q) outcome) \<Rightarrow> nat \<Rightarrow> 'q \<Rightarrow> ('a list \<times> 'q) option outcome" where
  "drain pop 0 q = Inr None"
| "drain pop (Suc n) q =
     bind_outcome (pop q) (\<lambda>(r, q').
       case r of
         None \<Rightarrow> Inr (Some ([], q'))
       | Some a \<Rightarrow>
           bind_outcome (drain pop n q') (\<lambda>m. Inr (map_option (\<lambda>(as, q''). (a # as, q'')) m)))"

locale fifo =
  fixes push :: "'q \<Rightarrow> 'a \<Rightarrow> 'q outcome"
    and pop :: "'q \<Rightarrow> ('a option \<times> 'q) outcome"
    and contents :: "'q \<Rightarrow> 'a list \<Rightarrow> bool"
    and fresh :: "'q \<Rightarrow> 'a \<Rightarrow> bool"
  assumes push_contents:
      "contents q xs \<Longrightarrow> fresh q a \<Longrightarrow> a \<notin> set xs \<Longrightarrow>
         \<exists>q'. push q a = Inr q' \<and> contents q' (xs @ [a])"
    and pop_contents:
      "contents q xs \<Longrightarrow>
         \<exists>q'. pop q = Inr (case xs of [] \<Rightarrow> None | x # _ \<Rightarrow> Some x, q') \<and> contents q' (tl xs)"
    and contents_distinct: "contents q xs \<Longrightarrow> distinct xs"
begin

lemma pop_never_fails: "contents q xs \<Longrightarrow> \<exists>r q'. pop q = Inr (r, q')"
  using pop_contents by blast

lemma drain_contents:
  "contents q xs \<Longrightarrow> length xs < n \<Longrightarrow>
     \<exists>q'. drain pop n q = Inr (Some (xs, q')) \<and> contents q' []"
proof (induction xs arbitrary: q n)
  case Nil
  then obtain q' where "pop q = Inr (None, q')" "contents q' []"
    using pop_contents [of q "[]"] by auto
  with Nil show ?case by (cases n) auto
next
  case (Cons x xs)
  then obtain q1 where q1: "pop q = Inr (Some x, q1)" "contents q1 xs"
    using pop_contents [of q "x # xs"] by auto
  from Cons.prems obtain m where m: "n = Suc m" "length xs < m"
    by (cases n) auto
  from Cons.IH [OF q1(2) m(2)] obtain q' where
    "drain pop m q1 = Inr (Some (xs, q'))" "contents q' []" by blast
  with q1 m show ?case by auto
qed

lemma push_then_drain:
  assumes "contents q xs" "fresh q a" "a \<notin> set xs"
  shows "\<exists>q1 q2. push q a = Inr q1 \<and> drain pop (length xs + 2) q1 = Inr (Some (xs @ [a], q2))"
proof -
  from push_contents [OF assms] obtain q1 where q1: "push q a = Inr q1" "contents q1 (xs @ [a])"
    by blast
  moreover from drain_contents [OF q1(2), of "length xs + 2"] obtain q2 where
    "drain pop (length xs + 2) q1 = Inr (Some (xs @ [a], q2))" by auto
  ultimately show ?thesis by blast
qed

end

text \<open>The intrusive list with its heap of \<^verbatim>\<open>next\<close> fields implements the interface; a node
  is fresh when its \<^verbatim>\<open>next\<close> field is null.\<close>

definition slist_push :: "next_heap \<times> slist \<Rightarrow> addr \<Rightarrow> (next_heap \<times> slist) outcome" where
  "slist_push q a = slist_push_back (fst q) (snd q) a"

definition slist_pop :: "next_heap \<times> slist \<Rightarrow> (addr option \<times> next_heap \<times> slist) outcome" where
  "slist_pop q =
     bind_outcome (slist_pop_front (fst q) (snd q)) (\<lambda>(r, l). Inr (r, fst q, l))"

definition slist_contents :: "next_heap \<times> slist \<Rightarrow> addr list \<Rightarrow> bool" where
  "slist_contents q xs \<longleftrightarrow> slist_rep (fst q) (snd q) xs"

definition slist_fresh :: "next_heap \<times> slist \<Rightarrow> addr \<Rightarrow> bool" where
  "slist_fresh q a \<longleftrightarrow> fst q a = None"

interpretation slist_queue: fifo slist_push slist_pop slist_contents slist_fresh
proof unfold_locales
  fix q xs a
  assume "slist_contents q xs" "slist_fresh q a" "a \<notin> set xs"
  then show "\<exists>q'. slist_push q a = Inr q' \<and> slist_contents q' (xs @ [a])"
    using slist_push_back_rep [of "fst q" "snd q" xs a]
    by (force simp: slist_push_def slist_contents_def slist_fresh_def)
next
  fix q xs
  assume "slist_contents q xs"
  then show "\<exists>q'. slist_pop q = Inr (case xs of [] \<Rightarrow> None | x # _ \<Rightarrow> Some x, q') \<and>
               slist_contents q' (tl xs)"
    using slist_pop_front_rep [of "fst q" "snd q" xs]
    by (force simp: slist_pop_def slist_contents_def)
next
  fix q xs
  assume "slist_contents q xs"
  then show "distinct xs"
    by (auto simp: slist_contents_def slist_rep_def intro: chain_distinct)
qed

end
