(* ===== verification/Messages.thy ===== *)
theory Messages
  imports Main
begin

text \<open>
  The message and name constants of the four \<^verbatim>\<open>constants.h\<close> headers, under the names the
  source gives them.  Exceptions of the model carry these strings, so that a property can say
  which message an error branch reports.
\<close>

section \<open>Result objects\<close>

definition k_result_promise_set_result_error_msg :: string where
  "k_result_promise_set_result_error_msg = ''concurrencpp::result_promise::set_result() - empty result_promise.''"

definition k_result_promise_set_exception_error_msg :: string where
  "k_result_promise_set_exception_error_msg = ''concurrencpp::result_promise::set_exception() - empty result_promise.''"

definition k_result_promise_set_exception_null_exception_error_msg :: string where
  "k_result_promise_set_exception_null_exception_error_msg = ''concurrencpp::result_promise::set_exception() - exception pointer is null.''"

definition k_result_promise_set_from_function_error_msg :: string where
  "k_result_promise_set_from_function_error_msg = ''concurrencpp::result_promise::set_from_function() - empty result_promise.''"

definition k_result_promise_get_result_error_msg :: string where
  "k_result_promise_get_result_error_msg = ''concurrencpp::result_promise::get_result() - empty result_promise.''"

definition k_result_promise_get_result_already_retrieved_error_msg :: string where
  "k_result_promise_get_result_already_retrieved_error_msg = ''concurrencpp::result_promise::get_result() - result was already retrieved.''"

definition k_result_status_error_msg :: string where
  "k_result_status_error_msg = ''concurrencpp::result::status() - result is empty.''"

definition k_result_get_error_msg :: string where
  "k_result_get_error_msg = ''concurrencpp::result::get() - result is empty.''"

definition k_result_wait_error_msg :: string where
  "k_result_wait_error_msg = ''concurrencpp::result::wait() - result is empty.''"

definition k_result_wait_for_error_msg :: string where
  "k_result_wait_for_error_msg = ''concurrencpp::result::wait_for() - result is empty.''"

definition k_result_wait_until_error_msg :: string where
  "k_result_wait_until_error_msg = ''concurrencpp::result::wait_until() - result is empty.''"

definition k_result_operator_co_await_error_msg :: string where
  "k_result_operator_co_await_error_msg = ''concurrencpp::result::operator co_await() - result is empty.''"

definition k_result_resolve_error_msg :: string where
  "k_result_resolve_error_msg = ''concurrencpp::result::resolve() - result is empty.''"

definition k_executor_exception_error_msg :: string where
  "k_executor_exception_error_msg = ''concurrencpp::concurrencpp::result - an exception was thrown while trying to enqueue result continuation.''"

definition k_broken_task_exception_error_msg :: string where
  "k_broken_task_exception_error_msg = ''concurrencpp::result - associated task was interrupted abnormally''"

definition k_make_exceptional_result_exception_null_error_msg :: string where
  "k_make_exceptional_result_exception_null_error_msg = ''concurrencpp::make_exception_result() - given exception_ptr is null.''"

definition k_when_all_empty_result_error_msg :: string where
  "k_when_all_empty_result_error_msg = ''concurrencpp::when_all() - one of the result objects is empty.''"

definition k_when_all_null_resume_executor_error_msg :: string where
  "k_when_all_null_resume_executor_error_msg = ''concurrencpp::when_all() - given resume_executor is null.''"

definition k_when_any_empty_result_error_msg :: string where
  "k_when_any_empty_result_error_msg = ''concurrencpp::when_any() - one of the result objects is empty.''"

definition k_when_any_empty_range_error_msg :: string where
  "k_when_any_empty_range_error_msg = ''concurrencpp::when_any() - given range contains no elements.''"

definition k_when_any_null_resume_executor_error_msg :: string where
  "k_when_any_null_resume_executor_error_msg = ''concurrencpp::when_any() - given resume_executor is null.''"

definition k_shared_result_status_error_msg :: string where
  "k_shared_result_status_error_msg = ''concurrencpp::shared_result::status() - result is empty.''"

definition k_shared_result_get_error_msg :: string where
  "k_shared_result_get_error_msg = ''concurrencpp::shared_result::get() - result is empty.''"

definition k_shared_result_wait_error_msg :: string where
  "k_shared_result_wait_error_msg = ''concurrencpp::shared_result::wait() - result is empty.''"

definition k_shared_result_wait_for_error_msg :: string where
  "k_shared_result_wait_for_error_msg = ''concurrencpp::shared_result::wait_for() - result is empty.''"

definition k_shared_result_wait_until_error_msg :: string where
  "k_shared_result_wait_until_error_msg = ''concurrencpp::shared_result::wait_until() - result is empty.''"

definition k_shared_result_operator_co_await_error_msg :: string where
  "k_shared_result_operator_co_await_error_msg = ''concurrencpp::shared_result::operator co_await() - result is empty.''"

definition k_shared_result_resolve_error_msg :: string where
  "k_shared_result_resolve_error_msg = ''concurrencpp::shared_result::resolve() - result is empty.''"

definition k_empty_lazy_result_status_err_msg :: string where
  "k_empty_lazy_result_status_err_msg = ''concurrencpp::lazy_result::status - result is empty.''"

definition k_empty_lazy_result_operator_co_await_err_msg :: string where
  "k_empty_lazy_result_operator_co_await_err_msg = ''concurrencpp::lazy_result::operator co_await - result is empty.''"

definition k_empty_lazy_result_resolve_err_msg :: string where
  "k_empty_lazy_result_resolve_err_msg = ''concurrencpp::lazy_result::resolve - result is empty.''"

definition k_empty_lazy_result_run_err_msg :: string where
  "k_empty_lazy_result_run_err_msg = ''concurrencpp::lazy_result::run - result is empty.''"

definition k_resume_on_null_exception_err_msg :: string where
  "k_resume_on_null_exception_err_msg = ''concurrencpp::resume_on - given executor is null.''"

definition k_empty_generator_begin_err_msg :: string where
  "k_empty_generator_begin_err_msg = ''concurrencpp::generator::begin - generator is empty.''"

definition k_parallel_coroutine_null_exception_err_msg :: string where
  "k_parallel_coroutine_null_exception_err_msg = ''concurrencpp::parallel-coroutine - given executor is null.''"

section \<open>Locks and condition variables\<close>

definition k_async_lock_null_resume_executor_err_msg :: string where
  "k_async_lock_null_resume_executor_err_msg = ''concurrencpp::async_lock::lock() - given resume executor is null.''"

definition k_async_lock_unlock_invalid_lock_err_msg :: string where
  "k_async_lock_unlock_invalid_lock_err_msg = ''concurrencpp::async_lock::unlock() - trying to unlock an unowned lock.''"

definition k_scoped_async_lock_null_resume_executor_err_msg :: string where
  "k_scoped_async_lock_null_resume_executor_err_msg = ''concurrencpp::scoped_async_lock::lock() - given resume executor is null.''"

definition k_scoped_async_lock_lock_deadlock_err_msg :: string where
  "k_scoped_async_lock_lock_deadlock_err_msg = ''concurrencpp::scoped_async_lock::lock() - *this is already locked.''"

definition k_scoped_async_lock_lock_no_mutex_err_msg :: string where
  "k_scoped_async_lock_lock_no_mutex_err_msg = ''concurrencpp::scoped_async_lock::lock() - *this doesn't reference any async_lock.''"

definition k_scoped_async_lock_try_lock_deadlock_err_msg :: string where
  "k_scoped_async_lock_try_lock_deadlock_err_msg = ''concurrencpp::scoped_async_lock::try_lock() - *this is already locked.''"

definition k_scoped_async_lock_try_lock_no_mutex_err_msg :: string where
  "k_scoped_async_lock_try_lock_no_mutex_err_msg = ''concurrencpp::scoped_async_lock::try_lock() - *this doesn't reference any async_lock.''"

definition k_scoped_async_lock_unlock_invalid_lock_err_msg :: string where
  "k_scoped_async_lock_unlock_invalid_lock_err_msg = ''concurrencpp::scoped_async_lock::unlock() - trying to unlock an unowned lock.''"

definition k_async_condition_variable_await_invalid_resume_executor_err_msg :: string where
  "k_async_condition_variable_await_invalid_resume_executor_err_msg = ''concurrencpp::async_condition_variable::await() - resume_executor is null.''"

definition k_async_condition_variable_await_lock_unlocked_err_msg :: string where
  "k_async_condition_variable_await_lock_unlocked_err_msg = ''concurrencpp::async_condition_variable::await() - lock is unlocked.''"

section \<open>Timers\<close>

definition k_timer_empty_get_due_time_err_msg :: string where
  "k_timer_empty_get_due_time_err_msg = ''concurrencpp::timer::get_due_time() - timer is empty.''"

definition k_timer_empty_get_frequency_err_msg :: string where
  "k_timer_empty_get_frequency_err_msg = ''concurrencpp::timer::get_frequency() - timer is empty.''"

definition k_timer_empty_get_executor_err_msg :: string where
  "k_timer_empty_get_executor_err_msg = ''concurrencpp::timer::get_executor() - timer is empty.''"

definition k_timer_empty_get_timer_queue_err_msg :: string where
  "k_timer_empty_get_timer_queue_err_msg = ''concurrencpp::timer::get_timer_queue() - timer is empty.''"

definition k_timer_empty_set_frequency_err_msg :: string where
  "k_timer_empty_set_frequency_err_msg = ''concurrencpp::timer::set_frequency() - timer is empty.''"

definition k_timer_queue_make_timer_executor_null_err_msg :: string where
  "k_timer_queue_make_timer_executor_null_err_msg = ''concurrencpp::timer_queue::make_timer() - executor is null.''"

definition k_timer_queue_make_oneshot_timer_executor_null_err_msg :: string where
  "k_timer_queue_make_oneshot_timer_executor_null_err_msg = ''concurrencpp::timer_queue::make_one_shot_timer() - executor is null.''"

definition k_timer_queue_make_delay_object_executor_null_err_msg :: string where
  "k_timer_queue_make_delay_object_executor_null_err_msg = ''concurrencpp::timer_queue::make_delay_object() - executor is null.''"

definition k_timer_queue_shutdown_err_msg :: string where
  "k_timer_queue_shutdown_err_msg = ''concurrencpp::timer_queue has been shut down.''"

section \<open>Executors\<close>

definition k_inline_executor_name :: string where
  "k_inline_executor_name = ''concurrencpp::inline_executor''"

definition k_thread_executor_name :: string where
  "k_thread_executor_name = ''concurrencpp::thread_executor''"

definition k_thread_pool_executor_name :: string where
  "k_thread_pool_executor_name = ''concurrencpp::thread_pool_executor''"

definition k_background_executor_name :: string where
  "k_background_executor_name = ''concurrencpp::background_executor''"

definition k_worker_thread_executor_name :: string where
  "k_worker_thread_executor_name = ''concurrencpp::worker_thread_executor''"

definition k_manual_executor_name :: string where
  "k_manual_executor_name = ''concurrencpp::manual_executor''"

definition k_timer_queue_name :: string where
  "k_timer_queue_name = ''concurrencpp::timer_queue''"

definition k_executor_shutdown_err_msg :: string where
  "k_executor_shutdown_err_msg = '' - shutdown has been called on this executor.''"

end
