(* ===== verification/Async_Lock.thy ===== *)
theory Async_Lock
  imports Slist Messages
begin

text \<open>
  \<^verbatim>\<open>async_lock\<close> of
  \<^verbatim>\<open>source/threads/async_lock.cpp\<close>.  Every critical section of the source (the code
  between taking and releasing \<^verbatim>\<open>m_awaiter_lock\<close>) is one definition; the coroutines that
  use the lock interleave at that granularity in the step function \<open>al_exec\<close>.
  The lemmas show mutual exclusion, that no assertion of the source fails, and that a release
  never forgets a suspended coroutine.
\<close>

section \<open>The lock\<close>

text \<open>\<open>al_next\<close> holds the \<^verbatim>\<open>next\<close> fields of the awaiter objects;
  \<open>al_count\<close> is the debug-mode counter \<^verbatim>\<open>m_thread_count_in_critical_section\<close>.\<close>

record async_lock =
  al_next :: next_heap
  al_awaiters :: slist
  al_locked :: bool
  al_count :: int

definition async_lock_init :: async_lock where
  "async_lock_init = \<lparr>al_next = (\<lambda>_. None), al_awaiters = slist_empty_list,
     al_locked = False, al_count = 0\<rparr>"

definition EPERM :: nat where "EPERM = 1"

definition EDEADLK :: nat where "EDEADLK = 35"

text \<open>Constructing an awaiter object: its \<^verbatim>\<open>next\<close> member is null.\<close>

definition async_lock_awaiter :: "async_lock \<Rightarrow> addr \<Rightarrow> async_lock" where
  "async_lock_awaiter l i = l\<lparr>al_next := (al_next l)(i := None)\<rparr>"

definition async_lock_awaiter_await_suspend :: "async_lock \<Rightarrow> addr \<Rightarrow> async_lock outcome" where
  "async_lock_awaiter_await_suspend l i =
     bind_outcome (slist_push_back (al_next l) (al_awaiters l) i)
       (\<lambda>(h, q). Inr (l\<lparr>al_next := h, al_awaiters := q\<rparr>))"

text \<open>One turn of the loop in \<^verbatim>\<open>lock_impl\<close>: take the lock, or suspend in the queue.\<close>

definition lock_impl_attempt :: "async_lock \<Rightarrow> addr \<Rightarrow> (bool \<times> async_lock) outcome" where
  "lock_impl_attempt l i =
     (if \<not> al_locked l then Inr (True, l\<lparr>al_locked := True\<rparr>)
      else bind_outcome (async_lock_awaiter_await_suspend (async_lock_awaiter l i) i)
             (\<lambda>l'. Inr (False, l')))"

definition al_pop_awaiter :: "async_lock \<Rightarrow> (addr option \<times> async_lock) outcome" where
  "al_pop_awaiter l =
     bind_outcome (slist_pop_front (al_next l) (al_awaiters l))
       (\<lambda>(r, q). Inr (r, l\<lparr>al_awaiters := q\<rparr>))"

text \<open>The handler that runs when \<^verbatim>\<open>resume_on\<close> throws inside \<^verbatim>\<open>lock_impl\<close>.\<close>

definition lock_impl_rollback :: "async_lock \<Rightarrow> (addr option \<times> async_lock) outcome" where
  "lock_impl_rollback l =
     bind_outcome (assert_that (al_locked l) ''m_locked'')
       (\<lambda>_. al_pop_awaiter (l\<lparr>al_locked := False\<rparr>))"

text \<open>The debug bookkeeping after the lock has been acquired.\<close>

definition lock_impl_enter :: "async_lock \<Rightarrow> async_lock outcome" where
  "lock_impl_enter l =
     bind_outcome (assert_that (al_count l = 0) ''current_count == 0'')
       (\<lambda>_. Inr (l\<lparr>al_count := al_count l + 1\<rparr>))"

definition async_lock_lock :: "addr option \<Rightarrow> addr outcome" where
  "async_lock_lock resume_executor =
     (case resume_executor of
        None \<Rightarrow> Inl (Invalid_argument k_async_lock_null_resume_executor_err_msg)
      | Some e \<Rightarrow> Inr e)"

definition async_lock_try_lock :: "async_lock \<Rightarrow> bool \<times> async_lock" where
  "async_lock_try_lock l =
     (if \<not> al_locked l then (True, l\<lparr>al_locked := True\<rparr>) else (False, l))"

text \<open>The whole of \<^verbatim>\<open>try_lock\<close>, with the debug counter.\<close>

definition async_lock_try_lock_call :: "async_lock \<Rightarrow> (bool \<times> async_lock) outcome" where
  "async_lock_try_lock_call l =
     (let (res, l') = async_lock_try_lock l
      in if res then bind_outcome (lock_impl_enter l') (\<lambda>m. Inr (True, m)) else Inr (False, l'))"

definition async_lock_destructor :: "async_lock \<Rightarrow> unit outcome" where
  "async_lock_destructor l =
     assert_that (\<not> al_locked l) ''async_lock is dstroyed while it's locked.''"

definition async_lock_unlock :: "async_lock \<Rightarrow> (addr option \<times> async_lock) outcome" where
  "async_lock_unlock l =
     (if \<not> al_locked l then Inl (System_error EPERM k_async_lock_unlock_invalid_lock_err_msg)
      else bind_outcome (assert_that (al_count l = 1) ''current_count == 1'')
             (\<lambda>_. al_pop_awaiter (l\<lparr>al_locked := False, al_count := al_count l - 1\<rparr>)))"

subsection \<open>The operations over the abstract queue\<close>

definition al_queue :: "async_lock \<Rightarrow> addr list \<Rightarrow> bool" where
  "al_queue l q \<longleftrightarrow> slist_contents (al_next l, al_awaiters l) q"

lemma al_queue_init: "al_queue async_lock_init []"
  by (simp add: al_queue_def slist_contents_def async_lock_init_def)

lemma al_queue_frame [simp]:
  "al_queue (l\<lparr>al_locked := b\<rparr>) q = al_queue l q"
  "al_queue (l\<lparr>al_count := c\<rparr>) q = al_queue l q"
  by (simp_all add: al_queue_def)

lemma al_queue_ctor:
  "al_queue l q \<Longrightarrow> i \<notin> set q \<Longrightarrow> al_queue (async_lock_awaiter l i) q"
  by (simp add: al_queue_def slist_contents_def slist_rep_def async_lock_awaiter_def)

lemma await_suspend_queue:
  assumes "al_queue l q" "i \<notin> set q"
  shows "\<exists>l'. async_lock_awaiter_await_suspend (async_lock_awaiter l i) i = Inr l' \<and>
           al_queue l' (q @ [i]) \<and> al_locked l' = al_locked l \<and> al_count l' = al_count l"
proof -
  let ?l = "async_lock_awaiter l i"
  have "al_queue ?l q" using assms by (rule al_queue_ctor)
  moreover have "slist_fresh (al_next ?l, al_awaiters ?l) i"
    by (simp add: slist_fresh_def async_lock_awaiter_def)
  ultimately obtain h l1 where
    "slist_push_back (al_next ?l) (al_awaiters ?l) i = Inr (h, l1)"
    "slist_contents (h, l1) (q @ [i])"
    using slist_queue.push_contents [of "(al_next ?l, al_awaiters ?l)" q i] assms(2)
    by (auto simp: al_queue_def slist_push_def)
  then show ?thesis
    by (auto simp: async_lock_awaiter_await_suspend_def al_queue_def async_lock_awaiter_def)
qed

lemma al_pop_awaiter_queue:
  assumes "al_queue l q"
  shows "\<exists>l'. al_pop_awaiter l = Inr (case q of [] \<Rightarrow> None | x # _ \<Rightarrow> Some x, l') \<and>
           al_queue l' (tl q) \<and> al_locked l' = al_locked l \<and> al_count l' = al_count l"
proof -
  from assms have "slist_contents (al_next l, al_awaiters l) q" by (simp add: al_queue_def)
  from slist_pop_front_rep [of "al_next l" "al_awaiters l" q] this
  obtain l1 where
    "slist_pop_front (al_next l) (al_awaiters l) = Inr (case q of [] \<Rightarrow> None | x # _ \<Rightarrow> Some x, l1)"
    "slist_rep (al_next l) l1 (tl q)"
    by (auto simp: slist_contents_def)
  then show ?thesis
    by (auto simp: al_pop_awaiter_def al_queue_def slist_contents_def)
qed

lemma al_queue_distinct: "al_queue l q \<Longrightarrow> distinct q"
  unfolding al_queue_def by (rule slist_queue.contents_distinct)

text \<open>
  The lock refines the abstract lock, a flag with a queue of waiters: an attempt sets the flag
  or appends, a release clears it and hands back the longest waiting coroutine.
\<close>

lemma lock_impl_attempt_spec:
  assumes "al_queue l q" "i \<notin> set q"
  shows "if al_locked l
         then \<exists>l'. lock_impl_attempt l i = Inr (False, l') \<and> al_queue l' (q @ [i]) \<and>
                al_locked l' \<and> al_count l' = al_count l
         else lock_impl_attempt l i = Inr (True, l\<lparr>al_locked := True\<rparr>)"
  using await_suspend_queue [OF assms] by (auto simp: lock_impl_attempt_def)

lemma async_lock_unlock_spec:
  assumes "al_queue l q" "al_locked l" "al_count l = 1"
  shows "\<exists>l'. async_lock_unlock l = Inr (case q of [] \<Rightarrow> None | x # _ \<Rightarrow> Some x, l') \<and>
           al_queue l' (tl q) \<and> \<not> al_locked l' \<and> al_count l' = 0"
  using al_pop_awaiter_queue [of "l\<lparr>al_locked := False, al_count := al_count l - 1\<rparr>" q] assms
  by (simp add: async_lock_unlock_def)

lemma lock_impl_rollback_spec:
  assumes "al_queue l q" "al_locked l"
  shows "\<exists>l'. lock_impl_rollback l = Inr (case q of [] \<Rightarrow> None | x # _ \<Rightarrow> Some x, l') \<and>
           al_queue l' (tl q) \<and> \<not> al_locked l' \<and> al_count l' = al_count l"
  using al_pop_awaiter_queue [of "l\<lparr>al_locked := False\<rparr>" q] assms
  by (simp add: lock_impl_rollback_def)

section \<open>Coroutines sharing a lock\<close>

text \<open>
  Where a coroutine is: outside, about to run a turn of the locking loop (the flag is
  \<^verbatim>\<open>resume_synchronously\<close>), suspended in the queue, owner of the lock but waiting for its
  resume executor, owner about to enter, or inside the critical section.
\<close>

datatype lock_pc = Outside | Attempting bool | Waiting | Rescheduling | Entering | Holding

record al_sys =
  sys_lock :: async_lock
  sys_pc :: "addr \<Rightarrow> lock_pc"

definition al_sys_init :: al_sys where
  "al_sys_init = \<lparr>sys_lock = async_lock_init, sys_pc = (\<lambda>_. Outside)\<rparr>"

text \<open>\<^verbatim>\<open>awaiter->retry()\<close>: the resumed coroutine runs another turn of its loop.\<close>

definition sys_retry :: "addr option \<Rightarrow> al_sys \<Rightarrow> al_sys" where
  "sys_retry r s =
     (case r of None \<Rightarrow> s | Some j \<Rightarrow> s\<lparr>sys_pc := (sys_pc s)(j := Attempting False)\<rparr>)"

datatype al_event =
    Lock_call addr | Attempt addr | Resumed addr | Resume_failed addr | Enter addr
  | Try_lock addr | Unlock addr

fun al_event_coroutine :: "al_event \<Rightarrow> addr" where
  "al_event_coroutine (Lock_call i) = i"
| "al_event_coroutine (Attempt i) = i"
| "al_event_coroutine (Resumed i) = i"
| "al_event_coroutine (Resume_failed i) = i"
| "al_event_coroutine (Enter i) = i"
| "al_event_coroutine (Try_lock i) = i"
| "al_event_coroutine (Unlock i) = i"

definition al_at :: "al_sys \<Rightarrow> addr \<Rightarrow> lock_pc \<Rightarrow> async_lock \<Rightarrow> al_sys" where
  "al_at s i pc l = s\<lparr>sys_lock := l, sys_pc := (sys_pc s)(i := pc)\<rparr>"

text \<open>\<open>None\<close>: the event is not enabled; \<open>Some (Inl e)\<close>: it raises \<open>e\<close>.\<close>

fun al_exec :: "al_event \<Rightarrow> al_sys \<Rightarrow> al_sys outcome option" where
  "al_exec (Lock_call i) s =
     (if sys_pc s i = Outside then Some (Inr (al_at s i (Attempting True) (sys_lock s))) else None)"
| "al_exec (Attempt i) s =
     (case sys_pc s i of
        Attempting sync \<Rightarrow>
          Some (bind_outcome (lock_impl_attempt (sys_lock s) i) (\<lambda>(got, l).
            Inr (al_at s i (if got then (if sync then Entering else Rescheduling) else Waiting) l)))
      | _ \<Rightarrow> None)"
| "al_exec (Resumed i) s =
     (if sys_pc s i = Rescheduling then Some (Inr (al_at s i Entering (sys_lock s))) else None)"
| "al_exec (Resume_failed i) s =
     (if sys_pc s i = Rescheduling
      then Some (bind_outcome (lock_impl_rollback (sys_lock s)) (\<lambda>(r, l).
             Inr (sys_retry r (al_at s i Outside l))))
      else None)"
| "al_exec (Enter i) s =
     (if sys_pc s i = Entering
      then Some (bind_outcome (lock_impl_enter (sys_lock s)) (\<lambda>l. Inr (al_at s i Holding l)))
      else None)"
| "al_exec (Try_lock i) s =
     (if sys_pc s i = Outside
      then (let (got, l) = async_lock_try_lock (sys_lock s)
            in Some (Inr (al_at s i (if got then Entering else Outside) l)))
      else None)"
| "al_exec (Unlock i) s =
     (if sys_pc s i = Holding
      then Some (bind_outcome (async_lock_unlock (sys_lock s)) (\<lambda>(r, l).
             Inr (sys_retry r (al_at s i Outside l))))
      else None)"

inductive al_reachable :: "al_sys \<Rightarrow> bool" where
  al_start: "al_reachable al_sys_init"
| al_next_step: "al_reachable s \<Longrightarrow> al_exec e s = Some (Inr t) \<Longrightarrow> al_reachable t"

definition al_owner :: "lock_pc \<Rightarrow> bool" where
  "al_owner pc \<longleftrightarrow> pc \<in> {Rescheduling, Entering, Holding}"

lemma al_owner_simps [simp]:
  "al_owner Rescheduling" "al_owner Entering" "al_owner Holding"
  "\<not> al_owner Outside" "\<not> al_owner Waiting" "\<not> al_owner (Attempting b)"
  by (simp_all add: al_owner_def)

text \<open>\<open>own\<close> is the coroutine the lock belongs to, \<open>q\<close> the suspended coroutines in order.\<close>

definition al_inv :: "al_sys \<Rightarrow> addr option \<Rightarrow> addr list \<Rightarrow> bool" where
  "al_inv s own q \<longleftrightarrow>
     al_queue (sys_lock s) q \<and> (\<forall>i. i \<in> set q \<longleftrightarrow> sys_pc s i = Waiting) \<and>
     (\<forall>i. al_owner (sys_pc s i) \<longleftrightarrow> own = Some i) \<and>
     al_locked (sys_lock s) = (own \<noteq> None) \<and>
     al_count (sys_lock s) =
       (case own of None \<Rightarrow> 0 | Some i \<Rightarrow> if sys_pc s i = Holding then 1 else 0) \<and>
     (q \<noteq> [] \<longrightarrow> own \<noteq> None \<or> (\<exists>i. sys_pc s i = Attempting False))"

subsection \<open>The invariant is inductive\<close>

lemma al_inv_init: "al_inv al_sys_init None []"
  by (simp add: al_inv_def al_sys_init_def al_queue_init) (simp add: async_lock_init_def)

lemma al_inv_owner: "al_inv s own q \<Longrightarrow> al_owner (sys_pc s i) \<longleftrightarrow> own = Some i"
  by (simp add: al_inv_def)

lemma al_inv_Lock_call:
  assumes "al_inv s own q" "sys_pc s i = Outside"
  shows "al_inv (al_at s i (Attempting True) (sys_lock s)) own q"
proof -
  have "own \<noteq> Some i" using assms al_inv_owner [OF assms(1), of i] by simp
  moreover have "k \<noteq> i" if "sys_pc s k = Attempting False" for k
    using that assms(2) by auto
  ultimately show ?thesis
    using assms by (auto simp: al_inv_def al_at_def split: option.splits)
qed

text \<open>The steps of an owner that leave the queue alone.\<close>

lemma al_inv_Resumed:
  assumes "al_inv s own q" "sys_pc s i = Rescheduling"
  shows "al_inv (al_at s i Entering (sys_lock s)) own q"
  using assms al_inv_owner [OF assms(1), of i] by (auto simp: al_inv_def al_at_def)

lemma al_inv_Enter:
  assumes "al_inv s own q" "sys_pc s i = Entering"
  shows "\<exists>l. lock_impl_enter (sys_lock s) = Inr l \<and> al_inv (al_at s i Holding l) own q"
  using assms al_inv_owner [OF assms(1), of i]
  by (auto simp: lock_impl_enter_def al_inv_def al_at_def)

text \<open>Acquiring a free lock, by the locking loop or by \<^verbatim>\<open>try_lock\<close>.\<close>

lemma al_inv_acquire:
  assumes "al_inv s own q" "\<not> al_locked (sys_lock s)" "sys_pc s i \<noteq> Waiting"
    and "pc = Entering \<or> pc = Rescheduling"
  shows "al_inv (al_at s i pc ((sys_lock s)\<lparr>al_locked := True\<rparr>)) (Some i) q"
  using assms by (auto simp: al_inv_def al_at_def)

lemma al_inv_suspend:
  assumes "al_inv s own q" "al_locked (sys_lock s)" "sys_pc s i = Attempting b"
    and "al_queue l (q @ [i])" "al_locked l" "al_count l = al_count (sys_lock s)"
  shows "al_inv (al_at s i Waiting l) own (q @ [i])"
  using assms al_inv_owner [OF assms(1), of i]
  by (auto simp: al_inv_def al_at_def split: option.splits)

lemma al_inv_Attempt:
  assumes "al_inv s own q" "sys_pc s i = Attempting b"
  shows "\<exists>got l own' q'. lock_impl_attempt (sys_lock s) i = Inr (got, l) \<and>
     al_inv (al_at s i (if got then (if b then Entering else Rescheduling) else Waiting) l) own' q'"
proof -
  have q: "al_queue (sys_lock s) q" and i: "i \<notin> set q"
    using assms by (auto simp: al_inv_def)
  note spec = lock_impl_attempt_spec [OF q i]
  show ?thesis
  proof (cases "al_locked (sys_lock s)")
    case True
    with spec obtain l where "lock_impl_attempt (sys_lock s) i = Inr (False, l)"
      "al_queue l (q @ [i])" "al_locked l" "al_count l = al_count (sys_lock s)" by auto
    with al_inv_suspend [OF assms(1) True assms(2)] show ?thesis by auto
  next
    case False
    with spec al_inv_acquire [OF assms(1) False, of i] assms(2) show ?thesis by auto
  qed
qed

text \<open>A release clears the flag, and the coroutine at the head of the queue runs again.\<close>

lemma al_inv_release:
  assumes "al_inv s (Some i) q" "al_queue l (tl q)" "\<not> al_locked l" "al_count l = 0"
  shows "al_inv (sys_retry (case q of [] \<Rightarrow> None | x # _ \<Rightarrow> Some x) (al_at s i Outside l)) None (tl q)"
proof (cases q)
  case Nil
  with assms show ?thesis by (auto simp: al_inv_def sys_retry_def al_at_def)
next
  case (Cons x xs)
  have "distinct q" using assms(1) by (auto simp: al_inv_def intro: al_queue_distinct)
  moreover have "sys_pc s x = Waiting" using assms(1) Cons by (auto simp: al_inv_def)
  moreover from this have "x \<noteq> i" using al_inv_owner [OF assms(1), of i] by auto
  moreover have "sys_pc s i \<noteq> Waiting" using al_inv_owner [OF assms(1), of i] by auto
  ultimately show ?thesis
    using assms Cons by (auto simp: al_inv_def sys_retry_def al_at_def)
qed

lemma al_inv_Unlock:
  assumes "al_inv s own q" "sys_pc s i = Holding"
  shows "\<exists>r l q'. async_lock_unlock (sys_lock s) = Inr (r, l) \<and>
           al_inv (sys_retry r (al_at s i Outside l)) None q'"
proof -
  have own: "own = Some i" using al_inv_owner [OF assms(1), of i] assms(2) by simp
  with assms have "al_queue (sys_lock s) q" "al_locked (sys_lock s)" "al_count (sys_lock s) = 1"
    by (auto simp: al_inv_def)
  from async_lock_unlock_spec [OF this] al_inv_release [of s i q] assms(1) own
  show ?thesis by fastforce
qed

lemma al_inv_Resume_failed:
  assumes "al_inv s own q" "sys_pc s i = Rescheduling"
  shows "\<exists>r l q'. lock_impl_rollback (sys_lock s) = Inr (r, l) \<and>
           al_inv (sys_retry r (al_at s i Outside l)) None q'"
proof -
  have own: "own = Some i" using al_inv_owner [OF assms(1), of i] assms(2) by simp
  with assms have q: "al_queue (sys_lock s) q" "al_locked (sys_lock s)"
    and "al_count (sys_lock s) = 0"
    by (auto simp: al_inv_def)
  with lock_impl_rollback_spec [OF q] al_inv_release [of s i q] assms(1) own
  show ?thesis by fastforce
qed

lemma al_exec_inv:
  assumes "al_inv s own q" "al_exec e s = Some r"
  shows "\<exists>t own' q'. r = Inr t \<and> al_inv t own' q'"
proof (cases e)
  case (Attempt i)
  with assms(2) obtain b where "sys_pc s i = Attempting b" by (auto split: lock_pc.splits)
  with al_inv_Attempt [OF assms(1) this] assms(2) Attempt show ?thesis by fastforce
next
  case (Try_lock i)
  then have pc: "sys_pc s i = Outside" using assms(2) by (auto split: if_splits)
  show ?thesis
  proof (cases "al_locked (sys_lock s)")
    case True
    have "al_at s i Outside (sys_lock s) = s" using pc by (simp add: al_at_def fun_upd_idem)
    with True Try_lock assms pc show ?thesis by (auto simp: async_lock_try_lock_def)
  next
    case False
    with Try_lock assms pc al_inv_acquire [OF assms(1) False, of i Entering] show ?thesis
      by (auto simp: async_lock_try_lock_def)
  qed
next
  case (Unlock i)
  with assms al_inv_Unlock [OF assms(1), of i] show ?thesis by (fastforce split: if_splits)
next
  case (Resume_failed i)
  with assms al_inv_Resume_failed [OF assms(1), of i] show ?thesis by (fastforce split: if_splits)
next
  case (Enter i)
  with assms al_inv_Enter [OF assms(1), of i] show ?thesis by (fastforce split: if_splits)
next
  case (Lock_call i)
  with assms al_inv_Lock_call [OF assms(1), of i] show ?thesis by (auto split: if_splits)
next
  case (Resumed i)
  with assms al_inv_Resumed [OF assms(1), of i] show ?thesis by (auto split: if_splits)
qed

lemma al_reachable_inv: "al_reachable s \<Longrightarrow> \<exists>own q. al_inv s own q"
proof (induction rule: al_reachable.induct)
  case al_start
  show ?case using al_inv_init by blast
next
  case (al_next_step s e t)
  then show ?case using al_exec_inv by blast
qed

subsection \<open>Properties of the protocol\<close>

lemma al_exec_ok:
  assumes "al_reachable s" "al_exec e s = Some r"
  shows "\<exists>t. r = Inr t"
  using al_reachable_inv [OF assms(1)] al_exec_inv assms(2) by blast


definition al_demo :: al_sys where
  "al_demo = al_at (al_at al_sys_init 1 (Attempting True) async_lock_init) 1 Entering
     (async_lock_init\<lparr>al_locked := True\<rparr>)"

lemma al_demo_reachable: "al_reachable al_demo"
proof -
  have "al_reachable (al_at al_sys_init 1 (Attempting True) async_lock_init)"
    by (rule al_next_step [OF al_start, of "Lock_call 1"]) (simp add: al_sys_init_def)
  then show ?thesis
    by (rule al_next_step [of _ "Attempt 1"])
      (simp add: al_demo_def al_at_def lock_impl_attempt_def async_lock_init_def)
qed


text \<open>C2: no operation of the lock fails.  Whatever enabled event happens in a reachable state,
  it raises no exception and fails none of the assertions of the source (the list invariants of
  the queue, the locked flag in the roll-back handler, the debug counter of coroutines inside).\<close>

theorem async_lock_never_fails:
  assumes "al_reachable s" "al_exec e s = Some r"
  shows "\<exists>t. r = Inr t \<and> al_reachable t"
proof -
  from al_reachable_inv [OF assms(1)] obtain own q where "al_inv s own q" by blast
  from al_exec_inv [OF this assms(2)] obtain t where "r = Inr t" by blast
  with assms show ?thesis by (auto intro: al_next_step)
qed

theorem async_lock_never_fails_witness:
  "\<exists>t. al_exec (Enter 1) al_demo = Some (Inr t) \<and> al_reachable t"
proof -
  have "\<exists>r. al_exec (Enter 1) al_demo = Some r" by (simp add: al_demo_def al_at_def)
  then obtain r where r: "al_exec (Enter 1) al_demo = Some r" ..
  from async_lock_never_fails [OF al_demo_reachable r] r show ?thesis by auto
qed

text \<open>C3: no lost wake-up.  While a coroutine is suspended in the queue of a reachable state, some
  other coroutine owns the lock or has been resumed to retry, so that an event of the protocol
  (no new call) is enabled; a release always resumes the longest suspended coroutine.\<close>

theorem async_lock_no_lost_wakeup:
  assumes "al_reachable s" "sys_pc s i = Waiting"
  shows "(\<exists>e t. al_exec e s = Some (Inr t) \<and>
            sys_pc s (al_event_coroutine e) \<noteq> Outside) \<and>
         (\<forall>j t. al_exec (Unlock j) s = Some (Inr t) \<longrightarrow>
            (\<exists>k. sys_pc s k = Waiting \<and> sys_pc t k = Attempting False))"
proof (intro conjI allI impI)
  from al_reachable_inv [OF assms(1)] obtain own q where inv: "al_inv s own q" by blast
  have q: "q \<noteq> []" using inv assms(2) by (auto simp: al_inv_def)
  note ok = al_exec_ok [OF assms(1)]
  have "\<exists>k e r. al_exec e s = Some r \<and> al_event_coroutine e = k \<and> sys_pc s k \<noteq> Outside"
  proof (cases own)
    case None
    with inv q obtain k where "sys_pc s k = Attempting False" by (auto simp: al_inv_def)
    then show ?thesis by (intro exI [of _ k] exI [of _ "Attempt k"]) simp
  next
    case (Some k)
    then have "al_owner (sys_pc s k)" using al_inv_owner [OF inv] by simp
    then consider "sys_pc s k = Rescheduling" | "sys_pc s k = Entering" | "sys_pc s k = Holding"
      by (auto simp: al_owner_def)
    then show ?thesis
    proof cases
      case 1 then show ?thesis by (intro exI [of _ k] exI [of _ "Resumed k"]) simp
    next
      case 2 then show ?thesis by (intro exI [of _ k] exI [of _ "Enter k"]) simp
    next
      case 3 then show ?thesis by (intro exI [of _ k] exI [of _ "Unlock k"]) simp
    qed
  qed
  then show "\<exists>e t. al_exec e s = Some (Inr t) \<and> sys_pc s (al_event_coroutine e) \<noteq> Outside"
    using ok by blast
  fix j t
  assume unl: "al_exec (Unlock j) s = Some (Inr t)"
  then have hold: "sys_pc s j = Holding" by (auto split: if_splits)
  then have own: "own = Some j" using al_inv_owner [OF inv, of j] by simp
  from q obtain x xs where qx: "q = x # xs" by (cases q) auto
  from inv hold own have "al_queue (sys_lock s) q" "al_locked (sys_lock s)"
    "al_count (sys_lock s) = 1" by (auto simp: al_inv_def)
  from async_lock_unlock_spec [OF this] qx obtain l where
    "async_lock_unlock (sys_lock s) = Inr (Some x, l)" by auto
  with unl hold have "sys_pc t x = Attempting False" by (auto simp: sys_retry_def)
  moreover have "sys_pc s x = Waiting" using inv qx by (auto simp: al_inv_def)
  ultimately show "\<exists>k. sys_pc s k = Waiting \<and> sys_pc t k = Attempting False" by blast
qed

definition al_demo_wait :: al_sys where
  "al_demo_wait =
     (case al_exec (Attempt 2) (al_at al_demo 2 (Attempting True) (sys_lock al_demo)) of
        Some (Inr t) \<Rightarrow> t | _ \<Rightarrow> al_demo)"

lemma al_demo_wait_pc: "sys_pc al_demo_wait 2 = Waiting"
  by (simp add: al_demo_wait_def al_demo_def al_at_def lock_impl_attempt_def
      async_lock_awaiter_await_suspend_def async_lock_awaiter_def async_lock_init_def
      slist_push_back_def slist_empty_list_def assert_state_def)

lemma al_demo_wait_reachable: "al_reachable al_demo_wait"
proof -
  have "al_reachable (al_at al_demo 2 (Attempting True) (sys_lock al_demo))"
    by (rule al_next_step [OF al_demo_reachable, of "Lock_call 2"])
      (simp add: al_demo_def al_at_def al_sys_init_def)
  then show ?thesis
    by (rule al_next_step [of _ "Attempt 2"])
      (simp add: al_demo_wait_def al_demo_def al_at_def lock_impl_attempt_def
        async_lock_awaiter_await_suspend_def async_lock_awaiter_def async_lock_init_def
        slist_push_back_def slist_empty_list_def assert_state_def)
qed

theorem async_lock_no_lost_wakeup_witness:
  "sys_pc al_demo_wait 2 = Waiting \<and>
   (\<exists>e t. al_exec e al_demo_wait = Some (Inr t) \<and>
      sys_pc al_demo_wait (al_event_coroutine e) \<noteq> Outside)"
  using async_lock_no_lost_wakeup [OF al_demo_wait_reachable al_demo_wait_pc] al_demo_wait_pc
  by blast

end
