(* ===== verification/Scoped_Lock.thy ===== *)
theory Scoped_Lock
  imports Async_Lock
begin

text \<open>
  The RAII wrapper \<^verbatim>\<open>scoped_async_lock\<close> of \<^verbatim>\<open>source/threads/async_lock.cpp\<close>.  A
  wrapper points at a lock of the store and records whether it owns it.  The lemmas follow the
  ownership through every operation: it is handed over by move, swap and release, and the
  destructor unlocks exactly when ownership is still there.
\<close>

type_synonym lock_store = "addr \<Rightarrow> async_lock"

record scoped_async_lock =
  sl_lock :: "addr option"
  sl_owns :: bool

definition scoped_default :: scoped_async_lock where
  "scoped_default = \<lparr>sl_lock = None, sl_owns = False\<rparr>"

definition scoped_defer_lock :: "addr \<Rightarrow> scoped_async_lock" where
  "scoped_defer_lock a = \<lparr>sl_lock = Some a, sl_owns = False\<rparr>"

definition scoped_adopt_lock :: "addr \<Rightarrow> scoped_async_lock" where
  "scoped_adopt_lock a = \<lparr>sl_lock = Some a, sl_owns = True\<rparr>"

text \<open>What \<^verbatim>\<open>lock_impl\<close> on the lock at \<open>a\<close> returns once the lock is held.\<close>

definition lock_impl_result :: "addr \<Rightarrow> bool \<Rightarrow> scoped_async_lock" where
  "lock_impl_result a with_raii_guard =
     (if with_raii_guard then scoped_adopt_lock a else scoped_defer_lock a)"

text \<open>The move constructor returns the new wrapper and what is left of the source.\<close>

definition scoped_move :: "scoped_async_lock \<Rightarrow> scoped_async_lock \<times> scoped_async_lock" where
  "scoped_move rhs =
     (\<lparr>sl_lock = sl_lock rhs, sl_owns = sl_owns rhs\<rparr>, rhs\<lparr>sl_lock := None, sl_owns := False\<rparr>)"

text \<open>The destructor: the coroutine that must be resumed, if any, and the new store.\<close>

definition scoped_destructor ::
  "lock_store \<Rightarrow> scoped_async_lock \<Rightarrow> (addr option \<times> lock_store) outcome" where
  "scoped_destructor st g =
     (case sl_lock g of
        Some a \<Rightarrow>
          (if sl_owns g
           then bind_outcome (async_lock_unlock (st a)) (\<lambda>(r, l). Inr (r, st(a := l)))
           else Inr (None, st))
      | None \<Rightarrow> Inr (None, st))"

text \<open>
  \<^verbatim>\<open>scoped_async_lock::lock\<close> up to its suspension: the checks, and the lock to acquire;
  \<open>scoped_lock_acquired\<close> is what runs after \<^verbatim>\<open>lock_impl\<close> has returned.
\<close>

definition scoped_lock :: "addr option \<Rightarrow> scoped_async_lock \<Rightarrow> addr outcome" where
  "scoped_lock resume_executor g =
     (if resume_executor = None
      then Inl (Invalid_argument k_scoped_async_lock_null_resume_executor_err_msg)
      else (case sl_lock g of
              None \<Rightarrow> Inl (System_error EPERM k_scoped_async_lock_lock_no_mutex_err_msg)
            | Some a \<Rightarrow>
                if sl_owns g then Inl (System_error EDEADLK k_scoped_async_lock_lock_deadlock_err_msg)
                else Inr a))"

definition scoped_lock_acquired :: "scoped_async_lock \<Rightarrow> scoped_async_lock" where
  "scoped_lock_acquired g = g\<lparr>sl_owns := True\<rparr>"

definition scoped_try_lock ::
  "lock_store \<Rightarrow> scoped_async_lock \<Rightarrow> (bool \<times> lock_store \<times> scoped_async_lock) outcome" where
  "scoped_try_lock st g =
     (case sl_lock g of
        None \<Rightarrow> Inl (System_error EPERM k_scoped_async_lock_try_lock_no_mutex_err_msg)
      | Some a \<Rightarrow>
          if sl_owns g then Inl (System_error EDEADLK k_scoped_async_lock_try_lock_deadlock_err_msg)
          else bind_outcome (async_lock_try_lock_call (st a))
                 (\<lambda>(got, l). Inr (got, st(a := l), g\<lparr>sl_owns := got\<rparr>)))"

definition scoped_unlock ::
  "lock_store \<Rightarrow> scoped_async_lock \<Rightarrow> (addr option \<times> lock_store \<times> scoped_async_lock) outcome" where
  "scoped_unlock st g =
     (if \<not> sl_owns g
      then Inl (System_error EPERM k_scoped_async_lock_unlock_invalid_lock_err_msg)
      else (case sl_lock g of
              None \<Rightarrow> Inr (None, st, g)
            | Some a \<Rightarrow>
                bind_outcome (async_lock_unlock (st a))
                  (\<lambda>(r, l). Inr (r, st(a := l), g\<lparr>sl_owns := False\<rparr>))))"

definition scoped_owns_lock :: "scoped_async_lock \<Rightarrow> bool" where
  "scoped_owns_lock g = sl_owns g"

definition scoped_swap ::
  "scoped_async_lock \<Rightarrow> scoped_async_lock \<Rightarrow> scoped_async_lock \<times> scoped_async_lock" where
  "scoped_swap g rhs =
     (g\<lparr>sl_lock := sl_lock rhs, sl_owns := sl_owns rhs\<rparr>,
      rhs\<lparr>sl_lock := sl_lock g, sl_owns := sl_owns g\<rparr>)"

definition scoped_release :: "scoped_async_lock \<Rightarrow> addr option \<times> scoped_async_lock" where
  "scoped_release g = (sl_lock g, g\<lparr>sl_owns := False, sl_lock := None\<rparr>)"

definition scoped_mutex :: "scoped_async_lock \<Rightarrow> addr option" where
  "scoped_mutex g = sl_lock g"

section \<open>Ownership\<close>

text \<open>The lock a wrapper's destructor will release.\<close>

definition scoped_obligation :: "scoped_async_lock \<Rightarrow> addr option" where
  "scoped_obligation g = (if sl_owns g then sl_lock g else None)"

lemma scoped_destructor_no_obligation:
  "scoped_obligation g = None \<Longrightarrow> scoped_destructor st g = Inr (None, st)"
  by (auto simp: scoped_obligation_def scoped_destructor_def split: option.splits if_splits)

lemma scoped_move_obligation:
  "scoped_obligation (fst (scoped_move g)) = scoped_obligation g"
  "scoped_obligation (snd (scoped_move g)) = None"
  by (simp_all add: scoped_move_def scoped_obligation_def)

lemma scoped_swap_obligation:
  "scoped_obligation (fst (scoped_swap g h)) = scoped_obligation h"
  "scoped_obligation (snd (scoped_swap g h)) = scoped_obligation g"
  by (simp_all add: scoped_swap_def scoped_obligation_def)

lemma scoped_release_obligation: "scoped_obligation (snd (scoped_release g)) = None"
  by (simp add: scoped_release_def scoped_obligation_def)

lemma scoped_destructor_obligation:
  assumes "scoped_obligation g = Some a" "al_queue (st a) q" "al_locked (st a)" "al_count (st a) = 1"
  shows "\<exists>l. scoped_destructor st g =
             Inr (case q of [] \<Rightarrow> None | x # _ \<Rightarrow> Some x, st(a := l)) \<and> \<not> al_locked l"
proof -
  have "sl_lock g = Some a" "sl_owns g"
    using assms(1) by (auto simp: scoped_obligation_def split: if_splits)
  with async_lock_unlock_spec [OF assms(2-4)] show ?thesis
    by (auto simp: scoped_destructor_def)
qed


definition scoped_demo_lock :: async_lock where
  "scoped_demo_lock = async_lock_init\<lparr>al_locked := True, al_count := 1\<rparr>"


text \<open>The error branches.  Locking or trying to lock a wrapper without a lock reports
  \<^verbatim>\<open>operation_not_permitted\<close>, one that already owns its lock
  \<^verbatim>\<open>resource_deadlock_would_occur\<close>, and unlocking a wrapper that owns nothing reports
  \<^verbatim>\<open>operation_not_permitted\<close> even when it wraps no lock at all.\<close>

lemma scoped_lock_errors:
  "scoped_lock None g = Inl (Invalid_argument k_scoped_async_lock_null_resume_executor_err_msg) \<and>
   scoped_lock (Some e) scoped_default =
     Inl (System_error EPERM k_scoped_async_lock_lock_no_mutex_err_msg) \<and>
   scoped_lock (Some e) (scoped_adopt_lock a) =
     Inl (System_error EDEADLK k_scoped_async_lock_lock_deadlock_err_msg) \<and>
   scoped_try_lock st scoped_default =
     Inl (System_error EPERM k_scoped_async_lock_try_lock_no_mutex_err_msg) \<and>
   scoped_try_lock st (scoped_adopt_lock a) =
     Inl (System_error EDEADLK k_scoped_async_lock_try_lock_deadlock_err_msg) \<and>
   scoped_unlock st (scoped_defer_lock a) =
     Inl (System_error EPERM k_scoped_async_lock_unlock_invalid_lock_err_msg) \<and>
   scoped_unlock st scoped_default =
     Inl (System_error EPERM k_scoped_async_lock_unlock_invalid_lock_err_msg)"
  by (simp add: scoped_lock_def scoped_try_lock_def scoped_unlock_def scoped_default_def
      scoped_adopt_lock_def scoped_defer_lock_def)

end
