(* ===== verification/Async_Condition.thy ===== *)
theory Async_Condition
  imports Scoped_Lock
begin

text \<open>
  \<^verbatim>\<open>async_condition_variable\<close> of
  \<^verbatim>\<open>source/threads/async_condition_variable.cpp\<close>: suspending on it releases the caller's
  lock and queues the caller under the variable's own mutex; notifying pops awaiters in
  first-in first-out order.
\<close>

record async_condition_variable =
  cv_next :: next_heap
  cv_awaiters :: slist

definition cv_init :: async_condition_variable where
  "cv_init = \<lparr>cv_next = (\<lambda>_. None), cv_awaiters = slist_empty_list\<rparr>"

definition cv_verify_await_params :: "addr option \<Rightarrow> scoped_async_lock \<Rightarrow> unit outcome" where
  "cv_verify_await_params resume_executor g =
     (if resume_executor = None
      then Inl (Invalid_argument k_async_condition_variable_await_invalid_resume_executor_err_msg)
      else if \<not> scoped_owns_lock g
      then Inl (Invalid_argument k_async_condition_variable_await_lock_unlocked_err_msg)
      else Inr ())"

text \<open>
  \<^verbatim>\<open>cv_awaiter::await_suspend\<close>, one critical section of the variable's mutex.  The awaiter
  object is fresh (null \<^verbatim>\<open>next\<close>).  The first component is the coroutine that releasing the
  lock resumes.
\<close>

definition cv_await_suspend ::
  "async_condition_variable \<Rightarrow> lock_store \<Rightarrow> scoped_async_lock \<Rightarrow> addr \<Rightarrow>
     (addr option \<times> async_condition_variable \<times> lock_store \<times> scoped_async_lock) outcome" where
  "cv_await_suspend cv st g i =
     bind_outcome (scoped_unlock st g) (\<lambda>(r, st', g').
       bind_outcome (slist_push_back ((cv_next cv)(i := None)) (cv_awaiters cv) i) (\<lambda>(h, l).
         Inr (r, \<lparr>cv_next = h, cv_awaiters = l\<rparr>, st', g')))"

definition cv_await ::
  "async_condition_variable \<Rightarrow> lock_store \<Rightarrow> addr option \<Rightarrow> scoped_async_lock \<Rightarrow> addr \<Rightarrow>
     (addr option \<times> async_condition_variable \<times> lock_store \<times> scoped_async_lock) outcome" where
  "cv_await cv st resume_executor g i =
     bind_outcome (cv_verify_await_params resume_executor g) (\<lambda>_. cv_await_suspend cv st g i)"

text \<open>The rest of \<^verbatim>\<open>await_impl\<close>, after the coroutine was notified and rescheduled: the lock
  to acquire again.\<close>

definition cv_await_resumed :: "addr option \<Rightarrow> scoped_async_lock \<Rightarrow> addr outcome" where
  "cv_await_resumed resume_executor g =
     bind_outcome (assert_that (\<not> scoped_owns_lock g) ''!lock.owns_lock()'')
       (\<lambda>_. scoped_lock resume_executor g)"

text \<open>The overload with a predicate: one turn of its loop.  \<open>None\<close>: the predicate holds and
  the coroutine goes on with the lock held.\<close>

definition cv_await_pred_turn ::
  "async_condition_variable \<Rightarrow> lock_store \<Rightarrow> scoped_async_lock \<Rightarrow> addr \<Rightarrow> bool \<Rightarrow>
     (addr option \<times> async_condition_variable \<times> lock_store \<times> scoped_async_lock) option outcome" where
  "cv_await_pred_turn cv st g i pred =
     bind_outcome (assert_that (scoped_owns_lock g) ''lock.owns_lock()'') (\<lambda>_.
       if pred then Inr None
       else bind_outcome (cv_await_suspend cv st g i) (\<lambda>x. Inr (Some x)))"

definition cv_notify_one ::
  "async_condition_variable \<Rightarrow> (addr option \<times> async_condition_variable) outcome" where
  "cv_notify_one cv =
     bind_outcome (slist_pop_front (cv_next cv) (cv_awaiters cv))
       (\<lambda>(r, l). Inr (r, cv\<lparr>cv_awaiters := l\<rparr>))"

text \<open>\<^verbatim>\<open>notify_all\<close> moves the whole queue out and pops it until it is empty; the result is the
  coroutines in the order they are resumed.  The fuel bounds the loop.\<close>

definition cv_notify_all ::
  "nat \<Rightarrow> async_condition_variable \<Rightarrow> (addr list \<times> async_condition_variable) option outcome" where
  "cv_notify_all n cv =
     (let (awaiters, rest) = slist_move (cv_awaiters cv)
      in bind_outcome (drain slist_pop n (cv_next cv, awaiters)) (\<lambda>m.
           Inr (map_option (\<lambda>(as, _). (as, cv\<lparr>cv_awaiters := rest\<rparr>)) m)))"

definition cv_destructor :: "async_condition_variable \<Rightarrow> unit outcome" where
  "cv_destructor cv =
     bind_outcome (slist_empty (cv_awaiters cv)) (\<lambda>b.
       assert_that b ''concurrencpp::async_condition_variable is deleted while being used.'')"

section \<open>Correctness\<close>

definition cv_queue :: "async_condition_variable \<Rightarrow> addr list \<Rightarrow> bool" where
  "cv_queue cv q \<longleftrightarrow> slist_contents (cv_next cv, cv_awaiters cv) q"

lemma cv_queue_init: "cv_queue cv_init []"
  by (simp add: cv_queue_def slist_contents_def cv_init_def)

lemma cv_push_queue:
  assumes "cv_queue cv q" "i \<notin> set q"
  shows "\<exists>h l. slist_push_back ((cv_next cv)(i := None)) (cv_awaiters cv) i = Inr (h, l) \<and>
           slist_contents (h, l) (q @ [i])"
proof -
  let ?q = "((cv_next cv)(i := None), cv_awaiters cv)"
  have "slist_contents ?q q"
    using assms by (simp add: cv_queue_def slist_contents_def slist_rep_def)
  moreover have "slist_fresh ?q i" by (simp add: slist_fresh_def)
  ultimately show ?thesis
    using slist_queue.push_contents [of ?q q i] assms(2) by (auto simp: slist_push_def)
qed

text \<open>Awaiting a condition variable atomically releases the lock and queues the caller.  With
  a lock that is owned, the call cannot fail; when it returns the lock is free, its longest
  waiting coroutine is the one to resume, and the caller is the last in the variable's queue, so
  that no notification can fall between the two.  Once notified, the caller goes on to acquire
  the same lock again, and its assertion that it does not own it holds.\<close>

lemma cv_await_releases_and_queues:
  assumes "cv_queue cv q" "i \<notin> set q" "scoped_obligation g = Some a"
    and "al_queue (st a) w" "al_locked (st a)" "al_count (st a) = 1"
  shows "\<exists>cv' l. cv_await cv st (Some e) g i =
            Inr (case w of [] \<Rightarrow> None | x # _ \<Rightarrow> Some x, cv', st(a := l), g\<lparr>sl_owns := False\<rparr>) \<and>
          cv_queue cv' (q @ [i]) \<and> \<not> al_locked l \<and> al_queue l (tl w) \<and>
          cv_await_resumed (Some e) (g\<lparr>sl_owns := False\<rparr>) = Inr a"
proof -
  have g: "sl_lock g = Some a" "sl_owns g"
    using assms(3) by (auto simp: scoped_obligation_def split: if_splits)
  from async_lock_unlock_spec [OF assms(4-6)] obtain l where
    l: "async_lock_unlock (st a) = Inr (case w of [] \<Rightarrow> None | x # _ \<Rightarrow> Some x, l)"
       "al_queue l (tl w)" "\<not> al_locked l" by blast
  from cv_push_queue [OF assms(1,2)] obtain h m where
    "slist_push_back ((cv_next cv)(i := None)) (cv_awaiters cv) i = Inr (h, m)"
    "slist_contents (h, m) (q @ [i])" by blast
  with g l show ?thesis
    by (auto simp: cv_await_def cv_verify_await_params_def cv_await_suspend_def scoped_unlock_def
        scoped_owns_lock_def cv_queue_def cv_await_resumed_def scoped_lock_def)
qed

lemma cv_await_releases_and_queues_witness:
  "\<exists>cv' l. cv_await cv_init (\<lambda>_. scoped_demo_lock) (Some 9) (scoped_adopt_lock 0) 5 =
       Inr (None, cv', (\<lambda>_. scoped_demo_lock)(0 := l), scoped_defer_lock 0) \<and>
     cv_queue cv' [5] \<and> \<not> al_locked l \<and> al_queue l [] \<and>
     cv_await_resumed (Some 9) (scoped_defer_lock 0) = Inr 0"
proof -
  have "al_queue scoped_demo_lock []" by (simp add: scoped_demo_lock_def al_queue_init)
  then show ?thesis
    using cv_await_releases_and_queues [OF cv_queue_init, of 5 "scoped_adopt_lock 0" 0
        "\<lambda>_. scoped_demo_lock" "[]" 9]
    by (simp add: scoped_adopt_lock_def scoped_defer_lock_def scoped_obligation_def
        scoped_demo_lock_def)
qed

text \<open>Notifications are first-in first-out and lose nobody.  \<^verbatim>\<open>notify_one\<close> resumes the
  oldest awaiter and keeps the others in order (and does nothing on an empty queue);
  \<^verbatim>\<open>notify_all\<close> resumes every awaiter exactly once, oldest first, and leaves the queue
  empty, with fuel above the number of awaiters.\<close>

lemma cv_notify_fifo:
  assumes "cv_queue cv q" "length q < n"
  shows "(\<exists>cv'. cv_notify_one cv = Inr (case q of [] \<Rightarrow> None | x # _ \<Rightarrow> Some x, cv') \<and>
            cv_queue cv' (tl q)) \<and>
         (\<exists>cv'. cv_notify_all n cv = Inr (Some (q, cv')) \<and> cv_queue cv' [])"
proof
  from assms(1) have rep: "slist_rep (cv_next cv) (cv_awaiters cv) q"
    by (simp add: cv_queue_def slist_contents_def)
  from slist_pop_front_rep [OF rep]
  show "\<exists>cv'. cv_notify_one cv = Inr (case q of [] \<Rightarrow> None | x # _ \<Rightarrow> Some x, cv') \<and>
          cv_queue cv' (tl q)"
    by (auto simp: cv_notify_one_def cv_queue_def slist_contents_def)
  have "slist_contents (cv_next cv, fst (slist_move (cv_awaiters cv))) q"
    using slist_move_rep [OF rep] by (simp add: slist_contents_def)
  from slist_queue.drain_contents [OF this assms(2)]
  show "\<exists>cv'. cv_notify_all n cv = Inr (Some (q, cv')) \<and> cv_queue cv' []"
    using slist_move_rep [OF rep]
    by (auto simp: cv_notify_all_def cv_queue_def slist_contents_def Let_def case_prod_beta)
qed

definition cv_demo :: async_condition_variable where
  "cv_demo = \<lparr>cv_next = [3 \<mapsto> 4], cv_awaiters = \<lparr>m_head = Some 3, m_tail = Some 4\<rparr>\<rparr>"

lemma cv_demo_queue: "cv_queue cv_demo [3, 4]"
  by (simp add: cv_demo_def cv_queue_def slist_contents_def slist_rep_def)

lemma cv_notify_fifo_witness:
  "(\<exists>cv'. cv_notify_one cv_demo = Inr (Some 3, cv') \<and> cv_queue cv' [4]) \<and>
   (\<exists>cv'. cv_notify_all 3 cv_demo = Inr (Some ([3, 4], cv')) \<and> cv_queue cv' [])"
  using cv_notify_fifo [OF cv_demo_queue, of 3] by simp

end
