(* ===== verification/Result_State.thy ===== *)
theory Result_State
  imports Prelude Messages
begin

text \<open>
  The shared state of a result: \<^verbatim>\<open>producer_context\<close>, \<^verbatim>\<open>consumer_context\<close> and
  \<^verbatim>\<open>result_state\<close> (\<^verbatim>\<open>results/impl\<close>).  The operations are functions on the
  state; theory \<open>Result_Protocol\<close> interleaves them.
\<close>

section \<open>Producer and consumer contexts\<close>

datatype result_status = RS_idle | RS_value | RS_exception

text \<open>The union of a value and an exception pointer.\<close>

datatype 'a producer_storage = Uninitialised | Object 'a | Exception exn

record 'a producer_context =
  pr_storage :: "'a producer_storage"
  pr_status :: result_status

definition producer_init :: "'a producer_context" where
  "producer_init = \<lparr>pr_storage = Uninitialised, pr_status = RS_idle\<rparr>"

definition producer_build_result :: "'a producer_context \<Rightarrow> 'a \<Rightarrow> 'a producer_context outcome" where
  "producer_build_result p v =
     bind_outcome (assert_that (pr_status p = RS_idle) ''m_status == result_status::idle'')
       (\<lambda>_. Inr \<lparr>pr_storage = Object v, pr_status = RS_value\<rparr>)"

definition producer_build_exception ::
  "'a producer_context \<Rightarrow> exn \<Rightarrow> 'a producer_context outcome" where
  "producer_build_exception p e =
     bind_outcome (assert_that (pr_status p = RS_idle) ''m_status == result_status::idle'')
       (\<lambda>_. Inr \<lparr>pr_storage = Exception e, pr_status = RS_exception\<rparr>)"

definition producer_status :: "'a producer_context \<Rightarrow> result_status" where
  "producer_status p = pr_status p"

text \<open>Reading the result: the inner outcome is what the consumer sees, a value or the exception
  that is thrown again; the outer one fails on an assertion or on the inactive union member.\<close>

definition producer_get_ref :: "'a producer_context \<Rightarrow> 'a outcome outcome" where
  "producer_get_ref p =
     bind_outcome (assert_that (pr_status p \<noteq> RS_idle) ''m_status != result_status::idle'') (\<lambda>_.
       case (pr_status p, pr_storage p) of
         (RS_value, Object v) \<Rightarrow> Inr (Inr v)
       | (RS_exception, Exception e) \<Rightarrow> Inr (Inl e)
       | _ \<Rightarrow> Inl (Undefined_behaviour ''inactive union member''))"

definition producer_get :: "'a producer_context \<Rightarrow> 'a outcome outcome" where
  "producer_get p = producer_get_ref p"

definition producer_destructor :: "'a producer_context \<Rightarrow> unit outcome" where
  "producer_destructor p =
     (case pr_status p of
        RS_value \<Rightarrow> (case pr_storage p of Object v \<Rightarrow> Inr ()
                       | _ \<Rightarrow> Inl (Undefined_behaviour ''inactive union member''))
      | RS_exception \<Rightarrow> (case pr_storage p of Exception e \<Rightarrow> Inr ()
                       | _ \<Rightarrow> Inl (Undefined_behaviour ''inactive union member''))
      | RS_idle \<Rightarrow> Inr ())"

datatype consumer_context =
  C_idle | C_await addr | C_wait_for addr | C_when_any addr | C_shared addr

definition set_await_handle :: "consumer_context \<Rightarrow> addr \<Rightarrow> consumer_context outcome" where
  "set_await_handle c h =
     bind_outcome (assert_that (c = C_idle) ''m_status == consumer_status::idle'')
       (\<lambda>_. Inr (C_await h))"

definition set_wait_for_context :: "consumer_context \<Rightarrow> addr \<Rightarrow> consumer_context outcome" where
  "set_wait_for_context c wait_ctx =
     bind_outcome (assert_that (c = C_idle) ''m_status == consumer_status::idle'')
       (\<lambda>_. Inr (C_wait_for wait_ctx))"

definition set_when_any_context :: "consumer_context \<Rightarrow> addr \<Rightarrow> consumer_context outcome" where
  "set_when_any_context c when_any_ctx =
     bind_outcome (assert_that (c = C_idle) ''m_status == consumer_status::idle'')
       (\<lambda>_. Inr (C_when_any when_any_ctx))"

definition set_shared_context :: "consumer_context \<Rightarrow> addr \<Rightarrow> consumer_context outcome" where
  "set_shared_context c shared_ctx =
     bind_outcome (assert_that (c = C_idle) ''m_status == consumer_status::idle'')
       (\<lambda>_. Inr (C_shared shared_ctx))"

definition consumer_clear :: "consumer_context \<Rightarrow> consumer_context" where
  "consumer_clear c = C_idle"

text \<open>What the producer does for the consumer it finds; \<open>Notify_waiter\<close> is the \<^verbatim>\<open>notify_one\<close> for
  a thread that sleeps on the state word.\<close>

datatype resume_action =
  Do_nothing | Resume_coroutine addr | Release_semaphore addr | Try_resume addr | Notify_shared addr
  | Notify_waiter

fun resume_consumer :: "consumer_context \<Rightarrow> resume_action" where
  "resume_consumer C_idle = Do_nothing"
| "resume_consumer (C_await h) = Resume_coroutine h"
| "resume_consumer (C_wait_for s) = Release_semaphore s"
| "resume_consumer (C_when_any c) = Try_resume c"
| "resume_consumer (C_shared c) = Notify_shared c"

section \<open>The result state\<close>

datatype pc_state = PC_idle | Consumer_set | Consumer_waiting | Consumer_done | Producer_done

record 'a result_state =
  m_pc_state :: pc_state
  m_consumer :: consumer_context
  m_done_handle :: "addr option"
  m_producer :: "'a producer_context"

definition result_state_init :: "'a result_state" where
  "result_state_init =
     \<lparr>m_pc_state = PC_idle, m_consumer = C_idle, m_done_handle = None, m_producer = producer_init\<rparr>"

definition assert_done :: "'a result_state \<Rightarrow> unit outcome" where
  "assert_done s =
     assert_that (m_pc_state s = Producer_done) ''m_pc_state == pc_state::producer_done''"

text \<open>\<^verbatim>\<open>compare_exchange_strong\<close> on the state word.\<close>

definition cas_pc_state ::
  "pc_state \<Rightarrow> pc_state \<Rightarrow> 'a result_state \<Rightarrow> bool \<times> 'a result_state" where
  "cas_pc_state expected desired s =
     (if m_pc_state s = expected then (True, s\<lparr>m_pc_state := desired\<rparr>) else (False, s))"

text \<open>The consumer publishes itself; failing means that the producer has finished.\<close>

definition publish_consumer :: "pc_state \<Rightarrow> 'a result_state \<Rightarrow> (bool \<times> 'a result_state) outcome" where
  "publish_consumer desired s =
     (let (idle, s') = cas_pc_state PC_idle desired s
      in if idle then Inr (True, s') else bind_outcome (assert_done s') (\<lambda>_. Inr (False, s')))"

text \<open>The opposite direction, used by a timed-out wait and by \<^verbatim>\<open>try_rewind_consumer\<close>.\<close>

definition rewind_consumer :: "'a result_state \<Rightarrow> (bool \<times> 'a result_state) outcome" where
  "rewind_consumer s =
     (let (ok, s') = cas_pc_state Consumer_set PC_idle s
      in if ok then Inr (True, s') else bind_outcome (assert_done s') (\<lambda>_. Inr (False, s')))"

definition result_state_await :: "'a result_state \<Rightarrow> addr \<Rightarrow> (bool \<times> 'a result_state) outcome" where
  "result_state_await s h =
     (if m_pc_state s = Producer_done then Inr (False, s)
      else bind_outcome (set_await_handle (m_consumer s) h) (\<lambda>c.
             publish_consumer Consumer_set (s\<lparr>m_consumer := c\<rparr>)))"

text \<open>\<^verbatim>\<open>when_any\<close> returns the state word it loaded first, also when the exchange failed.\<close>

definition result_state_when_any ::
  "'a result_state \<Rightarrow> addr \<Rightarrow> (pc_state \<times> 'a result_state) outcome" where
  "result_state_when_any s ctx =
     (if m_pc_state s = Producer_done then Inr (m_pc_state s, s)
      else bind_outcome (set_when_any_context (m_consumer s) ctx) (\<lambda>c.
             bind_outcome (publish_consumer Consumer_set (s\<lparr>m_consumer := c\<rparr>)) (\<lambda>(_, s').
               Inr (m_pc_state s, s'))))"

text \<open>\<^verbatim>\<open>share\<close>: \<open>True\<close> when the shared state must be notified at once.\<close>

definition result_state_share ::
  "'a result_state \<Rightarrow> addr \<Rightarrow> (bool \<times> 'a result_state) outcome" where
  "result_state_share s ctx =
     (if m_pc_state s = Producer_done then Inr (True, s)
      else bind_outcome (set_shared_context (m_consumer s) ctx) (\<lambda>c.
             bind_outcome (publish_consumer Consumer_set (s\<lparr>m_consumer := c\<rparr>)) (\<lambda>(idle, s').
               Inr (\<not> idle, s'))))"

definition try_rewind_consumer :: "'a result_state \<Rightarrow> 'a result_state outcome" where
  "try_rewind_consumer s =
     (if m_pc_state s \<noteq> Consumer_set then Inr s
      else bind_outcome (rewind_consumer s) (\<lambda>(ok, s').
             Inr (if ok then s'\<lparr>m_consumer := consumer_clear (m_consumer s')\<rparr> else s')))"

definition set_result :: "'a result_state \<Rightarrow> 'a \<Rightarrow> 'a result_state outcome" where
  "set_result s v =
     bind_outcome (producer_build_result (m_producer s) v) (\<lambda>p. Inr (s\<lparr>m_producer := p\<rparr>))"

definition set_exception :: "'a result_state \<Rightarrow> exn \<Rightarrow> 'a result_state outcome" where
  "set_exception s e =
     bind_outcome (producer_build_exception (m_producer s) e) (\<lambda>p. Inr (s\<lparr>m_producer := p\<rparr>))"

text \<open>\<^verbatim>\<open>from_callable\<close>, given what the callable returns or throws.\<close>

definition from_callable :: "'a result_state \<Rightarrow> 'a outcome \<Rightarrow> 'a result_state outcome" where
  "from_callable s r = (case r of Inr v \<Rightarrow> set_result s v | Inl e \<Rightarrow> set_exception s e)"

definition result_state_status :: "'a result_state \<Rightarrow> result_status outcome" where
  "result_state_status s =
     bind_outcome (assert_that (m_pc_state s \<noteq> Consumer_set) ''state != pc_state::consumer_set'')
       (\<lambda>_. Inr (if m_pc_state s = PC_idle then RS_idle else producer_status (m_producer s)))"

definition result_state_get :: "'a result_state \<Rightarrow> 'a outcome outcome" where
  "result_state_get s = bind_outcome (assert_done s) (\<lambda>_. producer_get (m_producer s))"

text \<open>How the memory is given back: with the coroutine frame that holds it, or on its own.\<close>

datatype deallocation = Destroy_frame addr | Delete_object

definition delete_self :: "'a result_state \<Rightarrow> deallocation" where
  "delete_self s = (case m_done_handle s of Some h \<Rightarrow> Destroy_frame h | None \<Rightarrow> Delete_object)"

text \<open>The exchange of \<^verbatim>\<open>complete_producer\<close>; what follows depends on the state before.\<close>

definition complete_producer ::
  "'a result_state \<Rightarrow> addr option \<Rightarrow> (pc_state \<times> 'a result_state) outcome" where
  "complete_producer s done_handle =
     (let before = m_pc_state s
      in bind_outcome (assert_that (before \<noteq> Producer_done) ''state_before != pc_state::producer_done'')
           (\<lambda>_. Inr (before, s\<lparr>m_done_handle := done_handle, m_pc_state := Producer_done\<rparr>)))"

text \<open>The exchange of \<^verbatim>\<open>complete_consumer\<close>: \<open>True\<close> when the consumer must delete.\<close>

definition complete_consumer_exchange :: "'a result_state \<Rightarrow> (bool \<times> 'a result_state) outcome" where
  "complete_consumer_exchange s =
     (let before = m_pc_state s; s' = s\<lparr>m_pc_state := Consumer_done\<rparr>
      in bind_outcome (assert_that (before \<noteq> Consumer_set) ''pc_state1 != pc_state::consumer_set'') (\<lambda>_.
           if before = Producer_done then Inr (True, s')
           else bind_outcome (assert_that (before = PC_idle) ''pc_state1 == pc_state::idle'')
                  (\<lambda>_. Inr (False, s'))))"

end
