(* ===== verification/Result_Protocol.thy ===== *)
theory Result_Protocol
  imports Result_State
begin

text \<open>
  The protocol between the producer and the consumer of a \<^verbatim>\<open>result_state\<close>, interleaved at every
  access to shared memory, with the deallocation of the state modelled, so that an access after
  the deallocation is an observable failure.
\<close>

section \<open>The protocol\<close>

text \<open>
  Program points of the producer (before the result is set, before the exchange, between the
  exchange and what follows from the old state) and of the consumer (inside \<^verbatim>\<open>await\<close>,
  \<^verbatim>\<open>wait\<close>, \<^verbatim>\<open>wait_for\<close> and the deleter).  The boolean tells what the caller does
  afterwards: \<open>True\<close> is \<^verbatim>\<open>get\<close> or \<^verbatim>\<open>co_await\<close>, which consume the result, \<open>False\<close> is
  \<^verbatim>\<open>wait\<close> or \<^verbatim>\<open>resolve\<close>, which give it back.
\<close>

datatype producer_pc = P_running | P_built | P_act pc_state | P_done

datatype consumer_pc =
    K_ready
  | K_await_set addr bool | K_await_cas bool | K_suspended bool
  | K_wait_cas bool | K_wait_load bool | K_wait_block bool | K_wait_sleep bool
  | K_wf_set | K_wf_cas addr | K_wf_acquire addr | K_wf_rewind addr | K_wf_clear
  | K_joined | K_drop_exchange | K_delete | K_gone

record 'a rs_sys =
  sy_state :: "'a result_state"
  sy_freed :: "deallocation option"
  sy_producer :: producer_pc
  sy_consumer :: consumer_pc
  sy_sems :: "addr \<Rightarrow> nat"
  sy_next_sem :: addr
  sy_made :: "'a outcome option"
  sy_got :: "'a outcome option"

definition rs_sys_init :: "'a rs_sys" where
  "rs_sys_init =
     \<lparr>sy_state = result_state_init, sy_freed = None, sy_producer = P_running, sy_consumer = K_ready,
      sy_sems = (\<lambda>_. 0), sy_next_sem = 0, sy_made = None, sy_got = None\<rparr>"

text \<open>Every access to the state goes through this guard.\<close>

definition access :: "'a rs_sys \<Rightarrow> ('a result_state \<Rightarrow> 'b outcome) \<Rightarrow> 'b outcome" where
  "access s f = (if sy_freed s = None then f (sy_state s)
                 else Inl (Undefined_behaviour ''result_state used after it was deleted''))"

definition after_ready :: "bool \<Rightarrow> consumer_pc" where
  "after_ready consume = (if consume then K_joined else K_ready)"

datatype consumer_op = Op_status | Op_await addr bool | Op_wait bool | Op_wait_for | Op_drop

text \<open>The first load of each consumer operation.\<close>

definition consumer_call :: "consumer_op \<Rightarrow> 'a rs_sys \<Rightarrow> 'a rs_sys outcome" where
  "consumer_call op s =
     access s (\<lambda>r.
       let finished = (m_pc_state r = Producer_done) in
       case op of
         Op_status \<Rightarrow> bind_outcome (result_state_status r) (\<lambda>_. Inr s)
       | Op_await h b \<Rightarrow>
           Inr (s\<lparr>sy_consumer := if finished then after_ready b else K_await_set h b\<rparr>)
       | Op_wait b \<Rightarrow> Inr (s\<lparr>sy_consumer := if finished then after_ready b else K_wait_cas b\<rparr>)
       | Op_wait_for \<Rightarrow> Inr (s\<lparr>sy_consumer := if finished then K_ready else K_wf_set\<rparr>)
       | Op_drop \<Rightarrow> Inr (s\<lparr>sy_consumer := if finished then K_delete else K_drop_exchange\<rparr>))"

definition consumer_cas ::
  "('a result_state \<Rightarrow> (bool \<times> 'a result_state) outcome) \<Rightarrow> consumer_pc \<Rightarrow> consumer_pc \<Rightarrow>
     'a rs_sys \<Rightarrow> 'a rs_sys outcome" where
  "consumer_cas f yes no s =
     access s (\<lambda>r. bind_outcome (f r) (\<lambda>(ok, r').
       Inr (s\<lparr>sy_state := r', sy_consumer := if ok then yes else no\<rparr>)))"

text \<open>The consumer's next access, \<open>None\<close> when it has none to make or is blocked.\<close>

definition consumer_step :: "'a rs_sys \<Rightarrow> 'a rs_sys outcome option" where
  "consumer_step s =
     (case sy_consumer s of
        K_await_set h b \<Rightarrow>
          Some (access s (\<lambda>r. bind_outcome (set_await_handle (m_consumer r) h) (\<lambda>c.
            Inr (s\<lparr>sy_state := r\<lparr>m_consumer := c\<rparr>, sy_consumer := K_await_cas b\<rparr>))))
      | K_await_cas b \<Rightarrow>
          Some (consumer_cas (publish_consumer Consumer_set) (K_suspended b) (after_ready b) s)
      | K_wait_cas b \<Rightarrow>
          Some (consumer_cas (publish_consumer Consumer_waiting) (K_wait_load b) (after_ready b) s)
      | K_wait_load b \<Rightarrow>
          Some (access s (\<lambda>r. Inr (s\<lparr>sy_consumer :=
            if m_pc_state r = Producer_done then after_ready b else K_wait_block b\<rparr>)))
      | K_wait_block b \<Rightarrow>
          Some (access s (\<lambda>r. Inr (s\<lparr>sy_consumer :=
            if m_pc_state r = Consumer_waiting then K_wait_sleep b else K_wait_load b\<rparr>)))
      | K_wf_set \<Rightarrow>
          Some (access s (\<lambda>r. let n = sy_next_sem s in
            bind_outcome (set_wait_for_context (m_consumer r) n) (\<lambda>c.
              Inr (s\<lparr>sy_state := r\<lparr>m_consumer := c\<rparr>, sy_next_sem := Suc n,
                     sy_consumer := K_wf_cas n\<rparr>))))
      | K_wf_cas n \<Rightarrow>
          Some (consumer_cas (publish_consumer Consumer_set) (K_wf_acquire n) K_ready s)
      | K_wf_acquire n \<Rightarrow>
          (if sy_sems s n = 0 then None
           else Some (access s (\<lambda>r. bind_outcome (assert_done r) (\<lambda>_.
             Inr (s\<lparr>sy_sems := (sy_sems s)(n := sy_sems s n - 1), sy_consumer := K_ready\<rparr>)))))
      | K_wf_rewind n \<Rightarrow> Some (consumer_cas rewind_consumer K_wf_clear K_ready s)
      | K_wf_clear \<Rightarrow>
          Some (access s (\<lambda>r. Inr (s\<lparr>sy_state := r\<lparr>m_consumer := consumer_clear (m_consumer r)\<rparr>,
            sy_consumer := K_ready\<rparr>)))
      | K_joined \<Rightarrow>
          Some (access s (\<lambda>r. bind_outcome (result_state_get r) (\<lambda>v.
            Inr (s\<lparr>sy_got := Some v, sy_consumer := K_delete\<rparr>))))
      | K_drop_exchange \<Rightarrow> Some (consumer_cas complete_consumer_exchange K_delete K_gone s)
      | K_delete \<Rightarrow>
          Some (access s (\<lambda>r. Inr (s\<lparr>sy_freed := Some (delete_self r), sy_consumer := K_gone\<rparr>)))
      | _ \<Rightarrow> None)"

text \<open>Waking the consumer that \<^verbatim>\<open>resume_consumer\<close> or \<^verbatim>\<open>notify_one\<close> reaches.\<close>

definition wake_coroutine :: "'a rs_sys \<Rightarrow> 'a rs_sys outcome" where
  "wake_coroutine s =
     (case sy_consumer s of
        K_suspended b \<Rightarrow> Inr (s\<lparr>sy_consumer := after_ready b\<rparr>)
      | _ \<Rightarrow> Inl (Undefined_behaviour ''resumed a coroutine that is not suspended''))"

definition wake_sleeper :: "'a rs_sys \<Rightarrow> 'a rs_sys" where
  "wake_sleeper s =
     (case sy_consumer s of K_wait_sleep b \<Rightarrow> s\<lparr>sy_consumer := K_wait_block b\<rparr> | _ \<Rightarrow> s)"

definition release_binary :: "addr \<Rightarrow> 'a rs_sys \<Rightarrow> 'a rs_sys outcome" where
  "release_binary n s =
     (if sy_sems s n = 0 then Inr (s\<lparr>sy_sems := (sy_sems s)(n := 1)\<rparr>)
      else Inl (Undefined_behaviour ''binary_semaphore released above its maximum''))"

text \<open>What \<^verbatim>\<open>complete_producer\<close> does after the exchange.\<close>

definition producer_act :: "pc_state \<Rightarrow> 'a rs_sys \<Rightarrow> 'a rs_sys outcome" where
  "producer_act before s =
     (let s' = s\<lparr>sy_producer := P_done\<rparr> in
      case before of
        PC_idle \<Rightarrow> Inr s'
      | Consumer_set \<Rightarrow> access s (\<lambda>r.
          case resume_consumer (m_consumer r) of
            Resume_coroutine h \<Rightarrow> wake_coroutine s'
          | Release_semaphore n \<Rightarrow> release_binary n s'
          | _ \<Rightarrow> Inr s')
      | Consumer_waiting \<Rightarrow> access s (\<lambda>r. Inr (wake_sleeper s'))
      | Consumer_done \<Rightarrow> access s (\<lambda>r. Inr (s'\<lparr>sy_freed := Some (delete_self r)\<rparr>))
      | Producer_done \<Rightarrow> Inl (Assertion_failed ''false''))"

datatype 'a rs_event =
  Produce "'a outcome" | Complete "addr option" | Act | Call consumer_op | Step | Timeout

fun rs_exec :: "'a rs_event \<Rightarrow> 'a rs_sys \<Rightarrow> 'a rs_sys outcome option" where
  "rs_exec (Produce v) s =
     (if sy_producer s = P_running
      then Some (access s (\<lambda>r. bind_outcome (from_callable r v) (\<lambda>r'.
             Inr (s\<lparr>sy_state := r', sy_producer := P_built, sy_made := Some v\<rparr>))))
      else None)"
| "rs_exec (Complete dh) s =
     (if sy_producer s = P_built
      then Some (access s (\<lambda>r. bind_outcome (complete_producer r dh) (\<lambda>(before, r').
             Inr (s\<lparr>sy_state := r', sy_producer := P_act before\<rparr>))))
      else None)"
| "rs_exec Act s = (case sy_producer s of P_act before \<Rightarrow> Some (producer_act before s) | _ \<Rightarrow> None)"
| "rs_exec (Call op) s = (if sy_consumer s = K_ready then Some (consumer_call op s) else None)"
| "rs_exec Step s = consumer_step s"
| "rs_exec Timeout s =
     (case sy_consumer s of
        K_wf_acquire n \<Rightarrow> Some (Inr (s\<lparr>sy_consumer := K_wf_rewind n\<rparr>)) | _ \<Rightarrow> None)"

inductive rs_reachable :: "'a rs_sys \<Rightarrow> bool" where
  rs_start: "rs_reachable rs_sys_init"
| rs_next: "rs_reachable s \<Longrightarrow> rs_exec e s = Some (Inr t) \<Longrightarrow> rs_reachable t"

section \<open>The invariant of the protocol\<close>

definition producer_open :: "'a rs_sys \<Rightarrow> bool" where
  "producer_open s \<longleftrightarrow> sy_producer s = P_running \<or> sy_producer s = P_built"

text \<open>The state word that belongs to each program point of the consumer while the producer has
  not finished; \<open>Producer_done\<close> marks the points that only a finished producer allows.\<close>

fun expected_pc :: "consumer_pc \<Rightarrow> pc_state" where
  "expected_pc (K_suspended b) = Consumer_set"
| "expected_pc (K_wf_acquire n) = Consumer_set"
| "expected_pc (K_wf_rewind n) = Consumer_set"
| "expected_pc (K_wait_load b) = Consumer_waiting"
| "expected_pc (K_wait_block b) = Consumer_waiting"
| "expected_pc (K_wait_sleep b) = Consumer_waiting"
| "expected_pc K_gone = Consumer_done"
| "expected_pc K_joined = Producer_done"
| "expected_pc K_delete = Producer_done"
| "expected_pc _ = PC_idle"

text \<open>The contents of the consumer context at each program point.\<close>

fun consumer_ok :: "consumer_pc \<Rightarrow> bool \<Rightarrow> consumer_context \<Rightarrow> bool" where
  "consumer_ok (K_await_set h b) open_p c = (c = C_idle)"
| "consumer_ok (K_await_cas b) open_p c = (\<exists>h. c = C_await h)"
| "consumer_ok (K_suspended b) open_p c = (\<exists>h. c = C_await h)"
| "consumer_ok K_wf_set open_p c = (c = C_idle)"
| "consumer_ok (K_wf_cas n) open_p c = (c = C_wait_for n)"
| "consumer_ok (K_wf_acquire n) open_p c = (c = C_wait_for n)"
| "consumer_ok (K_wf_rewind n) open_p c = (c = C_wait_for n)"
| "consumer_ok K_ready open_p c = (open_p \<longrightarrow> c = C_idle)"
| "consumer_ok _ open_p c = True"

definition built :: "'a outcome \<Rightarrow> 'a producer_context" where
  "built v = (case v of Inr x \<Rightarrow> \<lparr>pr_storage = Object x, pr_status = RS_value\<rparr>
                      | Inl e \<Rightarrow> \<lparr>pr_storage = Exception e, pr_status = RS_exception\<rparr>)"

definition value_ok :: "'a rs_sys \<Rightarrow> bool" where
  "value_ok s \<longleftrightarrow>
     (if sy_producer s = P_running then m_producer (sy_state s) = producer_init \<and> sy_made s = None
      else (\<exists>v. sy_made s = Some v \<and> m_producer (sy_state s) = built v)) \<and>
     (\<forall>r. sy_got s = Some r \<longrightarrow> sy_made s = Some r)"

definition memory_ok :: "'a rs_sys \<Rightarrow> bool" where
  "memory_ok s \<longleftrightarrow>
     (sy_freed s \<noteq> None \<longrightarrow> sy_consumer s = K_gone \<and> \<not> producer_open s \<and>
        sy_freed s = Some (delete_self (sy_state s))) \<and>
     (sy_consumer s = K_gone \<longrightarrow> sy_freed s = None \<longrightarrow>
        producer_open s \<or> sy_producer s = P_act Consumer_done) \<and>
     (sy_producer s = P_act Consumer_done \<longrightarrow> sy_consumer s = K_gone \<and> sy_freed s = None) \<and>
     sy_producer s \<noteq> P_act Producer_done"

definition word_ok :: "'a rs_sys \<Rightarrow> bool" where
  "word_ok s \<longleftrightarrow>
     (if producer_open s
      then m_pc_state (sy_state s) = expected_pc (sy_consumer s) \<and>
           m_pc_state (sy_state s) \<noteq> Producer_done
      else sy_consumer s \<noteq> K_delete \<longrightarrow> sy_consumer s \<noteq> K_gone \<longrightarrow>
           m_pc_state (sy_state s) = Producer_done) \<and>
     consumer_ok (sy_consumer s) (producer_open s) (m_consumer (sy_state s))"

definition wake_ok :: "'a rs_sys \<Rightarrow> bool" where
  "wake_ok s \<longleftrightarrow>
     (sy_producer s \<noteq> P_done \<longrightarrow> (\<forall>n. sy_sems s n = 0)) \<and>
     (sy_producer s = P_act Consumer_set \<longrightarrow>
        (\<exists>b. sy_consumer s = K_suspended b) \<or> (\<exists>n. m_consumer (sy_state s) = C_wait_for n)) \<and>
     (sy_consumer s = K_wf_clear \<longrightarrow> sy_producer s \<noteq> P_act Consumer_set) \<and>
     (\<not> producer_open s \<longrightarrow>
        ((\<exists>b. sy_consumer s = K_suspended b) \<longrightarrow> sy_producer s = P_act Consumer_set) \<and>
        ((\<exists>b. sy_consumer s = K_wait_sleep b) \<longrightarrow> sy_producer s = P_act Consumer_waiting) \<and>
        (\<forall>n. sy_consumer s = K_wf_acquire n \<longrightarrow>
               sy_producer s = P_act Consumer_set \<or> 0 < sy_sems s n))"

definition rs_inv :: "'a rs_sys \<Rightarrow> bool" where
  "rs_inv s \<longleftrightarrow> value_ok s \<and> memory_ok s \<and> word_ok s \<and> wake_ok s"

lemmas rs_inv_defs = rs_inv_def value_ok_def memory_ok_def word_ok_def wake_ok_def
  producer_open_def

lemmas rs_op_defs = access_def after_ready_def set_await_handle_def set_wait_for_context_def
  publish_consumer_def rewind_consumer_def cas_pc_state_def assert_done_def consumer_clear_def
  complete_producer_def complete_consumer_exchange_def delete_self_def consumer_cas_def

lemma rs_inv_init: "rs_inv rs_sys_init"
  by (simp add: rs_inv_defs rs_sys_init_def result_state_init_def)

lemma from_callable_fresh:
  "m_producer r = producer_init \<Longrightarrow> from_callable r v = Inr (r\<lparr>m_producer := built v\<rparr>)"
  by (auto simp: from_callable_def set_result_def set_exception_def producer_build_result_def
      producer_build_exception_def producer_init_def built_def split: sum.splits)

lemma producer_get_built: "producer_get (built v) = Inr v"
  by (auto simp: producer_get_def producer_get_ref_def built_def split: sum.splits)

text \<open>Each event keeps the invariant, and none fails but the producer's last step on a deleted
  state.\<close>

definition rs_safe :: "'a rs_sys outcome \<Rightarrow> bool" where
  "rs_safe r \<longleftrightarrow> (case r of Inl e \<Rightarrow> False | Inr t \<Rightarrow> rs_inv t)"

lemma rs_safe_simps [simp]: "rs_safe (Inr t) = rs_inv t" "rs_safe (Inl e) = False"
  by (simp_all add: rs_safe_def)

lemma rs_inv_live: "rs_inv s \<Longrightarrow> sy_consumer s \<noteq> K_gone \<Longrightarrow> sy_freed s = None"
  by (auto simp: rs_inv_def memory_ok_def)

lemma rs_inv_Produce:
  assumes "rs_inv s" "rs_exec (Produce v) s = Some r"
  shows "rs_safe r"
proof -
  have p: "sy_producer s = P_running" using assms(2) by (auto split: if_splits)
  have "sy_freed s = None" "m_producer (sy_state s) = producer_init"
    using assms(1) p by (auto simp: rs_inv_defs)
  with assms(2) p have "r = Inr (s\<lparr>sy_state := (sy_state s)\<lparr>m_producer := built v\<rparr>,
      sy_producer := P_built, sy_made := Some v\<rparr>)"
    by (simp add: access_def from_callable_fresh)
  then show ?thesis using assms(1) p by (auto simp: rs_inv_defs)
qed

lemma rs_inv_Complete:
  assumes "rs_inv s" "rs_exec (Complete dh) s = Some r"
  shows "rs_safe r"
proof -
  have p: "sy_producer s = P_built" using assms(2) by (auto split: if_splits)
  have "sy_freed s = None" "m_pc_state (sy_state s) \<noteq> Producer_done"
    using assms(1) p by (auto simp: rs_inv_defs)
  with assms(2) p have "r =
      Inr (s\<lparr>sy_state := (sy_state s)\<lparr>m_done_handle := dh, m_pc_state := Producer_done\<rparr>,
             sy_producer := P_act (m_pc_state (sy_state s))\<rparr>)"
    by (simp add: access_def complete_producer_def)
  then show ?thesis using assms(1) p by (cases "sy_consumer s") (auto simp: rs_inv_defs)
qed

lemma rs_inv_Call:
  assumes "rs_inv s" "rs_exec (Call op) s = Some r"
  shows "rs_safe r"
proof -
  have k: "sy_consumer s = K_ready" using assms(2) by (auto split: if_splits)
  have free: "sy_freed s = None" using rs_inv_live [OF assms(1)] k by simp
  have st: "m_pc_state (sy_state s) \<noteq> Consumer_set"
    using assms(1) k by (auto simp: rs_inv_def word_ok_def split: if_splits)
  have r: "r = consumer_call op s" using assms(2) k by simp
  show ?thesis
    unfolding r using assms(1) k free st
    by (cases op) (auto simp: consumer_call_def result_state_status_def rs_inv_defs access_def
        after_ready_def)
qed

lemma rs_inv_Timeout:
  assumes "rs_inv s" "rs_exec Timeout s = Some r"
  shows "rs_safe r"
proof -
  obtain n where k: "sy_consumer s = K_wf_acquire n"
    using assms(2) by (cases "sy_consumer s") auto
  with assms(2) have "r = Inr (s\<lparr>sy_consumer := K_wf_rewind n\<rparr>)" by simp
  with assms(1) k show ?thesis by (auto simp: rs_inv_defs)
qed

text \<open>While the consumer still uses the state, the state word is the expected one or the
  producer's.\<close>

lemma rs_inv_word:
  assumes "rs_inv s" "sy_consumer s \<noteq> K_delete" "sy_consumer s \<noteq> K_gone"
  shows "m_pc_state (sy_state s) = expected_pc (sy_consumer s) \<and> producer_open s \<and>
           m_pc_state (sy_state s) \<noteq> Producer_done \<or>
         m_pc_state (sy_state s) = Producer_done \<and> \<not> producer_open s"
  using assms by (auto simp: rs_inv_def word_ok_def split: if_splits)

text \<open>A consumer that found the producer finished goes on.\<close>

lemma rs_inv_finish:
  assumes "rs_inv s" "\<not> producer_open s" "sy_freed s = None"
    and "\<forall>b. sy_consumer s \<noteq> K_suspended b" "sy_consumer s \<noteq> K_delete" "sy_consumer s \<noteq> K_gone"
  shows "rs_inv (s\<lparr>sy_consumer := after_ready b\<rparr>)"
  using assms by (auto simp: rs_inv_defs after_ready_def)

lemma after_ready_False: "after_ready False = K_ready"
  by (simp add: after_ready_def)

lemma rs_inv_Step_wait:
  assumes "rs_inv s" "rs_exec Step s = Some r"
    and "sy_consumer s \<in> {K_wait_cas b, K_wait_load b, K_wait_block b}"
  shows "rs_safe r"
proof -
  have free: "sy_freed s = None" using rs_inv_live [OF assms(1)] assms(3) by auto
  note w = rs_inv_word [OF assms(1)]
  note fin = rs_inv_finish [OF assms(1) _ free, of b]
  show ?thesis
  proof (cases "producer_open s")
    case True
    from assms(3) consider "sy_consumer s = K_wait_cas b" | "sy_consumer s = K_wait_load b"
      | "sy_consumer s = K_wait_block b" by blast
    then show ?thesis
    proof cases
      case 1
      then have "r = Inr (s\<lparr>sy_state := (sy_state s)\<lparr>m_pc_state := Consumer_waiting\<rparr>,
                            sy_consumer := K_wait_load b\<rparr>)"
        using assms(2) True w free by (simp add: consumer_step_def rs_op_defs)
      with assms(1) 1 True show ?thesis by (auto simp: rs_inv_defs delete_self_def)
    next
      case 2
      then have "r = Inr (s\<lparr>sy_consumer := K_wait_block b\<rparr>)"
        using assms(2) True w free by (simp add: consumer_step_def access_def)
      with assms(1) 2 True show ?thesis by (auto simp: rs_inv_defs)
    next
      case 3
      then have "r = Inr (s\<lparr>sy_consumer := K_wait_sleep b\<rparr>)"
        using assms(2) True w free by (simp add: consumer_step_def access_def)
      with assms(1) 3 True show ?thesis by (auto simp: rs_inv_defs)
    qed
  next
    case False
    from assms(3) consider "sy_consumer s = K_wait_cas b" | "sy_consumer s = K_wait_load b"
      | "sy_consumer s = K_wait_block b" by blast
    then show ?thesis
    proof cases
      case 1
      then have "r = Inr (s\<lparr>sy_consumer := after_ready b\<rparr>)"
        using assms(2) False w free by (simp add: consumer_step_def rs_op_defs)
      with fin [OF False] 1 show ?thesis by simp
    next
      case 2
      then have "r = Inr (s\<lparr>sy_consumer := after_ready b\<rparr>)"
        using assms(2) False w free by (simp add: consumer_step_def access_def)
      with fin [OF False] 2 show ?thesis by simp
    next
      case 3
      then have "r = Inr (s\<lparr>sy_consumer := K_wait_load b\<rparr>)"
        using assms(2) False w free by (simp add: consumer_step_def access_def)
      with assms(1) 3 False free show ?thesis by (auto simp: rs_inv_defs)
    qed
  qed
qed

lemma rs_inv_Step_wait_for_1:
  assumes "rs_inv s" "rs_exec Step s = Some r"
    and "sy_consumer s \<in> {K_wf_set, K_wf_cas n, K_wf_clear}"
  shows "rs_safe r"
proof -
  have free: "sy_freed s = None" using rs_inv_live [OF assms(1)] assms(3) by auto
  note w = rs_inv_word [OF assms(1)]
  note fin = rs_inv_finish [OF assms(1) _ free, of False, unfolded after_ready_False]
  from assms(3) consider "sy_consumer s = K_wf_set" | "sy_consumer s = K_wf_cas n"
    | "sy_consumer s = K_wf_clear" by blast
  then show ?thesis
  proof cases
    case 1
    with assms(1) have "m_consumer (sy_state s) = C_idle" by (simp add: rs_inv_def word_ok_def)
    with 1 have "r = Inr (s\<lparr>sy_state := (sy_state s)\<lparr>m_consumer := C_wait_for (sy_next_sem s)\<rparr>,
        sy_next_sem := Suc (sy_next_sem s), sy_consumer := K_wf_cas (sy_next_sem s)\<rparr>)"
      using assms(2) free by (simp add: consumer_step_def access_def set_wait_for_context_def Let_def)
    with assms(1) 1 show ?thesis by (auto simp: rs_inv_defs delete_self_def)
  next
    case 2
    show ?thesis
    proof (cases "producer_open s")
      case True
      with 2 have "r = Inr (s\<lparr>sy_state := (sy_state s)\<lparr>m_pc_state := Consumer_set\<rparr>,
                              sy_consumer := K_wf_acquire n\<rparr>)"
        using assms(2) w free by (simp add: consumer_step_def rs_op_defs)
      with assms(1) 2 True show ?thesis by (auto simp: rs_inv_defs delete_self_def)
    next
      case False
      with 2 have "r = Inr (s\<lparr>sy_consumer := K_ready\<rparr>)"
        using assms(2) w free by (auto simp: consumer_step_def rs_op_defs)
      with fin [OF False] 2 show ?thesis by auto
    qed
  next
    case 3
    then have "r = Inr (s\<lparr>sy_state := (sy_state s)\<lparr>m_consumer := C_idle\<rparr>, sy_consumer := K_ready\<rparr>)"
      using assms(2) free by (simp add: consumer_step_def access_def consumer_clear_def)
    with assms(1) 3 free show ?thesis by (auto simp: rs_inv_defs delete_self_def)
  qed
qed

lemma rs_inv_Step_await:
  assumes "rs_inv s" "rs_exec Step s = Some r"
    and "sy_consumer s = K_await_set h b \<or> sy_consumer s = K_await_cas b"
  shows "rs_safe r"
proof -
  have free: "sy_freed s = None" using rs_inv_live [OF assms(1)] assms(3) by auto
  note w = rs_inv_word [OF assms(1)]
  from assms(3) show ?thesis
  proof
    assume k: "sy_consumer s = K_await_set h b"
    with assms(1) have c: "m_consumer (sy_state s) = C_idle" by (simp add: rs_inv_def word_ok_def)
    have "r = Inr (s\<lparr>sy_state := (sy_state s)\<lparr>m_consumer := C_await h\<rparr>,
                     sy_consumer := K_await_cas b\<rparr>)"
      using assms(2) k free c by (simp add: consumer_step_def access_def set_await_handle_def)
    with assms(1) k show ?thesis by (auto simp: rs_inv_defs delete_self_def)
  next
    assume k: "sy_consumer s = K_await_cas b"
    show ?thesis
    proof (cases "producer_open s")
      case True
      then have "r = Inr (s\<lparr>sy_state := (sy_state s)\<lparr>m_pc_state := Consumer_set\<rparr>,
                            sy_consumer := K_suspended b\<rparr>)"
        using assms(2) k w free by (simp add: consumer_step_def rs_op_defs)
      with assms(1) k True show ?thesis by (auto simp: rs_inv_defs delete_self_def)
    next
      case False
      then have "r = Inr (s\<lparr>sy_consumer := after_ready b\<rparr>)"
        using assms(2) k w free by (auto simp: consumer_step_def rs_op_defs)
      with assms(1) k False free show ?thesis by (auto simp: rs_inv_defs after_ready_def)
    qed
  qed
qed

lemma rs_inv_Step_wait_for_2:
  assumes "rs_inv s" "rs_exec Step s = Some r"
    and "sy_consumer s \<in> {K_wf_acquire n, K_wf_rewind n}"
  shows "rs_safe r"
proof -
  have free: "sy_freed s = None" using rs_inv_live [OF assms(1)] assms(3) by auto
  note w = rs_inv_word [OF assms(1)]
  note fin = rs_inv_finish [OF assms(1) _ free, of False, unfolded after_ready_False]
  from assms(3) consider "sy_consumer s = K_wf_acquire n" | "sy_consumer s = K_wf_rewind n" by blast
  then show ?thesis
  proof cases
    case 1
    with assms(2) have sem: "sy_sems s n \<noteq> 0" by (simp add: consumer_step_def split: if_splits)
    then have fp: "sy_producer s = P_done" using assms(1) by (auto simp: rs_inv_def wake_ok_def)
    then have "r = Inr (s\<lparr>sy_sems := (sy_sems s)(n := sy_sems s n - 1), sy_consumer := K_ready\<rparr>)"
      using 1 assms(2) w free sem
      by (simp add: consumer_step_def access_def assert_done_def producer_open_def)
    with assms(1) 1 fp free show ?thesis by (auto simp: rs_inv_defs)
  next
    case 2
    show ?thesis
    proof (cases "producer_open s")
      case True
      with 2 have "r = Inr (s\<lparr>sy_state := (sy_state s)\<lparr>m_pc_state := PC_idle\<rparr>,
                              sy_consumer := K_wf_clear\<rparr>)"
        using assms(2) w free by (simp add: consumer_step_def rs_op_defs)
      with assms(1) 2 True show ?thesis by (auto simp: rs_inv_defs delete_self_def)
    next
      case False
      with 2 have "r = Inr (s\<lparr>sy_consumer := K_ready\<rparr>)"
        using assms(2) w free by (simp add: consumer_step_def rs_op_defs)
      with fin [OF False] 2 show ?thesis by simp
    qed
  qed
qed

lemma rs_inv_Step_end:
  assumes "rs_inv s" "rs_exec Step s = Some r"
    and "sy_consumer s \<in> {K_joined, K_drop_exchange, K_delete}"
  shows "rs_safe r"
proof -
  have free: "sy_freed s = None" using rs_inv_live [OF assms(1)] assms(3) by auto
  note w = rs_inv_word [OF assms(1)]
  from assms(3) consider "sy_consumer s = K_joined" | "sy_consumer s = K_drop_exchange"
    | "sy_consumer s = K_delete" by blast
  then show ?thesis
  proof cases
    case 1
    then have nopen: "\<not> producer_open s" "m_pc_state (sy_state s) = Producer_done" using w by auto
    then obtain v where v: "sy_made s = Some v" "m_producer (sy_state s) = built v"
      using assms(1) by (auto simp: rs_inv_def value_ok_def producer_open_def)
    have "r = Inr (s\<lparr>sy_got := Some v, sy_consumer := K_delete\<rparr>)"
      using assms(2) 1 free nopen v
      by (simp add: consumer_step_def access_def result_state_get_def assert_done_def
          producer_get_built)
    with assms(1) 1 free nopen v show ?thesis by (auto simp: rs_inv_defs)
  next
    case 2
    show ?thesis
    proof (cases "producer_open s")
      case True
      with 2 have "r = Inr (s\<lparr>sy_state := (sy_state s)\<lparr>m_pc_state := Consumer_done\<rparr>,
                              sy_consumer := K_gone\<rparr>)"
        using assms(2) w free by (simp add: consumer_step_def rs_op_defs)
      with assms(1) 2 True show ?thesis by (auto simp: rs_inv_defs delete_self_def)
    next
      case False
      with 2 have "r = Inr (s\<lparr>sy_state := (sy_state s)\<lparr>m_pc_state := Consumer_done\<rparr>,
                              sy_consumer := K_delete\<rparr>)"
        using assms(2) w free by (simp add: consumer_step_def rs_op_defs)
      with assms(1) 2 False free show ?thesis by (auto simp: rs_inv_defs)
    qed
  next
    case 3
    then have "r = Inr (s\<lparr>sy_freed := Some (delete_self (sy_state s)), sy_consumer := K_gone\<rparr>)"
      using assms(2) free by (simp add: consumer_step_def access_def)
    with assms(1) 3 free show ?thesis by (auto simp: rs_inv_defs)
  qed
qed

text \<open>The producer's last step is safe whenever the state is still there.\<close>

lemma rs_inv_Act:
  assumes "rs_inv s" "rs_exec Act s = Some r" "sy_freed s = None"
  shows "rs_safe r"
proof -
  obtain b where p: "sy_producer s = P_act b" using assms(2) by (cases "sy_producer s") auto
  then have r: "r = producer_act b s" using assms(2) by simp
  show ?thesis
  proof (cases b)
    case PC_idle
    with r p assms(1,3) show ?thesis by (auto simp: producer_act_def rs_inv_defs)
  next
    case Consumer_set
    show ?thesis
    proof (cases "\<exists>c. sy_consumer s = K_suspended c")
      case True
      then obtain c where k: "sy_consumer s = K_suspended c" ..
      then obtain h where "m_consumer (sy_state s) = C_await h"
        using assms(1) by (auto simp: rs_inv_def word_ok_def)
      then have "r = Inr (s\<lparr>sy_producer := P_done, sy_consumer := after_ready c\<rparr>)"
        using r Consumer_set k assms(3) by (simp add: producer_act_def access_def wake_coroutine_def)
      with assms(1,3) p Consumer_set k show ?thesis by (auto simp: rs_inv_defs after_ready_def)
    next
      case False
      then obtain n where n: "m_consumer (sy_state s) = C_wait_for n"
        using assms(1) p Consumer_set by (auto simp: rs_inv_def wake_ok_def)
      then have "r = Inr (s\<lparr>sy_producer := P_done, sy_sems := (sy_sems s)(n := 1)\<rparr>)"
        using r Consumer_set assms(1,3) p
        by (simp add: producer_act_def access_def release_binary_def rs_inv_def wake_ok_def)
      with assms(1,3) p Consumer_set n False show ?thesis
        by (cases "sy_consumer s") (auto simp: rs_inv_defs)
    qed
  next
    case Consumer_waiting
    with r p assms(1,3) show ?thesis
      by (cases "sy_consumer s")
        (auto simp: producer_act_def access_def wake_sleeper_def rs_inv_defs)
  next
    case Consumer_done
    with r p assms(1,3) show ?thesis by (auto simp: producer_act_def access_def rs_inv_defs)
  next
    case Producer_done
    with p assms(1) show ?thesis by (simp add: rs_inv_def memory_ok_def)
  qed
qed

text \<open>The only failing step: the producer's last access, after the consumer has deleted the
  state, and only towards a consumer that blocked its thread.\<close>

definition late_access :: "'a rs_event \<Rightarrow> 'a rs_sys \<Rightarrow> bool" where
  "late_access e s \<longleftrightarrow> e = Act \<and> sy_freed s \<noteq> None \<and>
     (sy_producer s = P_act Consumer_waiting \<or>
      sy_producer s = P_act Consumer_set \<and> (\<exists>n. m_consumer (sy_state s) = C_wait_for n))"

lemma rs_inv_Act_late:
  assumes "rs_inv s" "rs_exec Act s = Some r" "sy_freed s \<noteq> None"
  shows "rs_safe r \<or> late_access Act s \<and> (\<exists>e. r = Inl e)"
proof -
  obtain b where p: "sy_producer s = P_act b" using assms(2) by (cases "sy_producer s") auto
  then have r: "r = producer_act b s" using assms(2) by simp
  have k: "sy_consumer s = K_gone" using assms(1,3) by (auto simp: rs_inv_def memory_ok_def)
  show ?thesis
  proof (cases b)
    case PC_idle
    with r p k assms(1,3) show ?thesis by (auto simp: producer_act_def rs_inv_defs)
  next
    case Consumer_set
    with r p k assms(1,3) show ?thesis
      by (auto simp: producer_act_def access_def late_access_def rs_inv_def wake_ok_def)
  next
    case Consumer_waiting
    with r p assms(3) show ?thesis by (auto simp: producer_act_def access_def late_access_def)
  next
    case Consumer_done
    with p assms(1,3) show ?thesis by (simp add: rs_inv_def memory_ok_def)
  next
    case Producer_done
    with p assms(1) show ?thesis by (simp add: rs_inv_def memory_ok_def)
  qed
qed

lemma rs_inv_Step:
  assumes "rs_inv s" "rs_exec Step s = Some r"
  shows "rs_safe r"
  using assms(2) rs_inv_Step_await [OF assms] rs_inv_Step_wait [OF assms]
    rs_inv_Step_wait_for_1 [OF assms] rs_inv_Step_wait_for_2 [OF assms] rs_inv_Step_end [OF assms]
  by (cases "sy_consumer s") (auto simp: consumer_step_def)

lemma rs_exec_inv:
  assumes "rs_inv s" "rs_exec e s = Some r"
  shows "rs_safe r \<or> late_access e s \<and> (\<exists>x. r = Inl x)"
proof (cases e)
  case Act
  with assms show ?thesis using rs_inv_Act rs_inv_Act_late by (cases "sy_freed s = None") blast+
next
  case (Call op)
  with rs_inv_Call assms show ?thesis by blast
qed (use assms rs_inv_Produce rs_inv_Complete rs_inv_Step rs_inv_Timeout in blast)+

lemma rs_reachable_inv: "rs_reachable s \<Longrightarrow> rs_inv s"
proof (induction rule: rs_reachable.induct)
  case rs_start
  then show ?case by (rule rs_inv_init)
next
  case (rs_next s e t)
  from rs_exec_inv [OF rs_next.IH rs_next.hyps(2)] show ?case by auto
qed

text \<open>Running a sequence of events, \<open>None\<close> when one of them is not enabled.\<close>

fun rs_run :: "'a rs_event list \<Rightarrow> 'a rs_sys \<Rightarrow> 'a rs_sys outcome option" where
  "rs_run [] s = Some (Inr s)"
| "rs_run (e # es) s =
     (case rs_exec e s of None \<Rightarrow> None | Some (Inl x) \<Rightarrow> Some (Inl x) | Some (Inr t) \<Rightarrow> rs_run es t)"

lemma rs_run_reachable: "rs_run es s = Some (Inr t) \<Longrightarrow> rs_reachable s \<Longrightarrow> rs_reachable t"
  by (induction es arbitrary: s) (auto split: option.splits sum.splits intro: rs_next)

text \<open>C5: whatever the interleaving of producer and consumer, the protocol has a single failure.  No
  assertion of the source fails, no coroutine is resumed that is not suspended, no semaphore is
  released twice and nothing is deleted twice; the only step that can fail is the producer's
  access after its exchange, when the consumer has deleted the state in between, and that needs
  a consumer that blocked in \<^verbatim>\<open>wait\<close> or \<^verbatim>\<open>wait_for\<close>.\<close>

theorem result_protocol_faults:
  assumes "rs_reachable s" "rs_exec e s = Some (Inl x)"
  shows "late_access e s"
  using rs_exec_inv [OF rs_reachable_inv [OF assms(1)] assms(2)] by simp

text \<open>The interleaving of a timed wait that reaches it.\<close>

definition late_run :: "nat rs_event list" where
  "late_run = [Call Op_wait_for, Step, Step, Produce (Inr 7), Timeout, Complete None, Step,
               Call Op_drop, Step]"

definition late_state :: "nat rs_sys" where
  "late_state = (case rs_run late_run rs_sys_init of Some (Inr t) \<Rightarrow> t | _ \<Rightarrow> rs_sys_init)"

lemmas rs_eval_defs = rs_sys_init_def result_state_init_def consumer_call_def consumer_step_def
  rs_op_defs from_callable_def set_result_def producer_build_result_def producer_init_def
  producer_act_def wake_coroutine_def

lemma late_state_eq: "rs_run late_run rs_sys_init = Some (Inr late_state)"
  by (simp add: late_state_def late_run_def rs_eval_defs Let_def)

lemma late_state_fault:
  "rs_exec Act late_state =
     Some (Inl (Undefined_behaviour ''result_state used after it was deleted''))"
  by (simp add: late_state_def late_run_def rs_eval_defs Let_def)

lemma late_state_reachable: "rs_reachable late_state"
  by (rule rs_run_reachable [OF late_state_eq rs_start])

theorem result_protocol_faults_witness: "rs_reachable late_state \<and> late_access Act late_state"
  using result_protocol_faults [OF late_state_reachable late_state_fault] late_state_reachable
  by simp


text \<open>Consumers that never block their thread.\<close>

fun nonblocking :: "'a rs_event \<Rightarrow> bool" where
  "nonblocking (Call (Op_wait b)) = False"
| "nonblocking (Call Op_wait_for) = False"
| "nonblocking e = True"

fun blocking_pc :: "consumer_pc \<Rightarrow> bool" where
  "blocking_pc (K_wait_cas b) = True"
| "blocking_pc (K_wait_load b) = True"
| "blocking_pc (K_wait_block b) = True"
| "blocking_pc (K_wait_sleep b) = True"
| "blocking_pc K_wf_set = True"
| "blocking_pc (K_wf_cas n) = True"
| "blocking_pc (K_wf_acquire n) = True"
| "blocking_pc (K_wf_rewind n) = True"
| "blocking_pc K_wf_clear = True"
| "blocking_pc _ = False"

definition never_blocked :: "'a rs_sys \<Rightarrow> bool" where
  "never_blocked s \<longleftrightarrow>
     \<not> blocking_pc (sy_consumer s) \<and> sy_producer s \<noteq> P_act Consumer_waiting \<and>
     (\<forall>n. m_consumer (sy_state s) \<noteq> C_wait_for n)"

lemma blocking_after_ready: "\<not> blocking_pc (after_ready b)"
  by (simp add: after_ready_def)

lemma publish_consumer_cases:
  "publish_consumer d r = Inr (b, r') \<Longrightarrow> m_consumer r' = m_consumer r"
  by (auto simp: publish_consumer_def cas_pc_state_def bind_outcome_Inr_iff split: if_splits)

lemma complete_consumer_cases:
  "complete_consumer_exchange r = Inr (b, r') \<Longrightarrow> m_consumer r' = m_consumer r"
  by (auto simp: complete_consumer_exchange_def bind_outcome_Inr_iff Let_def split: if_splits)

lemma access_Inr_iff: "access s f = Inr t \<longleftrightarrow> sy_freed s = None \<and> f (sy_state s) = Inr t"
  by (simp add: access_def)

lemma never_blocked_Step:
  assumes "never_blocked s" "rs_exec Step s = Some (Inr t)"
  shows "never_blocked t"
proof (cases "sy_consumer s")
  case (K_await_set h b)
  with assms show ?thesis
    by (auto simp: consumer_step_def access_Inr_iff never_blocked_def set_await_handle_def
        assert_that_def split: if_splits)
next
  case (K_await_cas b)
  with assms show ?thesis
    by (auto simp: consumer_step_def access_Inr_iff never_blocked_def consumer_cas_def
        bind_outcome_Inr_iff blocking_after_ready dest!: publish_consumer_cases split: if_splits)
next
  case K_joined
  with assms show ?thesis
    by (auto simp: consumer_step_def access_Inr_iff never_blocked_def bind_outcome_Inr_iff)
next
  case K_drop_exchange
  with assms show ?thesis
    by (auto simp: consumer_step_def access_Inr_iff never_blocked_def consumer_cas_def
        bind_outcome_Inr_iff dest!: complete_consumer_cases split: if_splits)
next
  case K_delete
  with assms show ?thesis
    by (auto simp: consumer_step_def access_Inr_iff never_blocked_def)
qed (use assms in \<open>simp_all add: never_blocked_def consumer_step_def\<close>)

lemma never_blocked_Act:
  assumes "never_blocked s" "rs_exec Act s = Some (Inr t)"
  shows "never_blocked t"
proof -
  obtain b where p: "sy_producer s = P_act b" using assms(2) by (cases "sy_producer s") auto
  then have act: "producer_act b s = Inr t" using assms(2) by simp
  have "wake_coroutine (s\<lparr>sy_producer := P_done\<rparr>) = Inr t \<Longrightarrow> never_blocked t"
    using assms(1) by (cases "sy_consumer s")
      (auto simp: wake_coroutine_def never_blocked_def blocking_after_ready)
  moreover have "never_blocked (s\<lparr>sy_producer := P_done\<rparr>)"
    "never_blocked (s\<lparr>sy_producer := P_done, sy_freed := f\<rparr>)" for f
    using assms(1) by (simp_all add: never_blocked_def)
  ultimately show ?thesis
    using act assms(1) p
    by (cases b; cases "m_consumer (sy_state s)")
      (auto simp: producer_act_def access_Inr_iff never_blocked_def Let_def)
qed

lemma never_blocked_exec:
  assumes "never_blocked s" "rs_inv s" "nonblocking e" "rs_exec e s = Some (Inr t)"
  shows "never_blocked t"
proof (cases e)
  case (Produce v)
  then show ?thesis using assms
    by (auto simp: never_blocked_def access_Inr_iff bind_outcome_Inr_iff from_callable_def
        set_result_def set_exception_def split: if_splits sum.splits)
next
  case (Complete dh)
  have "\<not> blocking_pc (sy_consumer s) \<Longrightarrow> expected_pc (sy_consumer s) \<noteq> Consumer_waiting"
    by (cases "sy_consumer s") auto
  then have "sy_producer s = P_built \<Longrightarrow> m_pc_state (sy_state s) \<noteq> Consumer_waiting"
    using assms(1,2) by (auto simp: never_blocked_def rs_inv_def word_ok_def producer_open_def)
  with Complete show ?thesis using assms(1,4)
    by (auto simp: never_blocked_def access_Inr_iff bind_outcome_Inr_iff complete_producer_def
        Let_def split: if_splits)
next
  case Act
  with never_blocked_Act assms show ?thesis by blast
next
  case (Call op)
  then show ?thesis using assms(1,3,4)
    by (cases op) (auto simp: never_blocked_def access_Inr_iff consumer_call_def
        bind_outcome_Inr_iff blocking_after_ready Let_def split: if_splits)
next
  case Step
  then show ?thesis using never_blocked_Step assms by blast
next
  case Timeout
  then show ?thesis using assms(1,4) by (cases "sy_consumer s") (auto simp: never_blocked_def)
qed

lemma never_blocked_run:
  assumes "list_all nonblocking es" "never_blocked s" "rs_inv s"
  shows "rs_run es s \<noteq> Some (Inl x)"
  using assms
proof (induction es arbitrary: s)
  case Nil
  then show ?case by simp
next
  case (Cons e es)
  show ?case
  proof (cases "rs_exec e s")
    case None
    then show ?thesis by simp
  next
    case (Some r)
    have "\<not> late_access e s" using Cons.prems(2) by (auto simp: late_access_def never_blocked_def)
    then obtain t where t: "r = Inr t" "rs_inv t"
      using rs_exec_inv [OF Cons.prems(3) Some] by (cases r) auto
    then have "never_blocked t" using never_blocked_exec [of s e t] Cons.prems Some by simp
    then show ?thesis using Cons.IH [of t] Cons.prems t Some by simp
  qed
qed

text \<open>C7: results that are only awaited, polled or dropped are memory safe.  No sequence of events
  without a blocking \<^verbatim>\<open>wait\<close>, \<^verbatim>\<open>get\<close> or \<^verbatim>\<open>wait_for\<close> call fails in any way, whatever
  the interleaving.\<close>

theorem result_await_safe:
  assumes "list_all nonblocking es"
  shows "rs_run es rs_sys_init \<noteq> Some (Inl x)"
  by (rule never_blocked_run [OF assms _ rs_inv_init])
    (simp add: never_blocked_def rs_sys_init_def result_state_init_def)

theorem result_await_safe_witness:
  "\<nexists>x. rs_run [Call (Op_await 3 True), Step, Produce (Inr (7::nat)), Step, Complete (Some 5), Act,
           Step, Step] rs_sys_init = Some (Inl x)"
proof -
  have "rs_run [Call (Op_await 3 True), Step, Produce (Inr (7::nat)), Step, Complete (Some 5), Act,
           Step, Step] rs_sys_init \<noteq> Some (Inl x)" for x
    by (rule result_await_safe) simp
  then show ?thesis by blast
qed

definition consumer_blocked :: "'a rs_sys \<Rightarrow> bool" where
  "consumer_blocked s \<longleftrightarrow>
     (case sy_consumer s of
        K_suspended b \<Rightarrow> True | K_wait_sleep b \<Rightarrow> True | K_wf_acquire n \<Rightarrow> sy_sems s n = 0
      | _ \<Rightarrow> False)"

lemma rs_safe_obtain: "rs_safe r \<Longrightarrow> \<exists>t. r = Inr t \<and> rs_inv t"
  by (cases r) auto

lemma Act_unblocks:
  assumes "rs_inv s" "\<not> producer_open s" "consumer_blocked s"
  shows "\<exists>t. rs_exec Act s = Some (Inr t) \<and> \<not> consumer_blocked t"
proof (cases "sy_consumer s")
  case (K_suspended b)
  moreover have "sy_freed s = None" using rs_inv_live [OF assms(1)] K_suspended by simp
  moreover obtain h where "m_consumer (sy_state s) = C_await h"
    using assms(1) K_suspended by (auto simp: rs_inv_def word_ok_def)
  moreover have "sy_producer s = P_act Consumer_set"
    using assms(1,2) K_suspended by (simp add: rs_inv_def wake_ok_def)
  ultimately show ?thesis
    by (simp add: producer_act_def access_def wake_coroutine_def consumer_blocked_def after_ready_def)
next
  case (K_wait_sleep b)
  moreover have "sy_freed s = None" using rs_inv_live [OF assms(1)] K_wait_sleep by simp
  moreover have "sy_producer s = P_act Consumer_waiting"
    using assms(1,2) K_wait_sleep by (simp add: rs_inv_def wake_ok_def)
  ultimately show ?thesis
    by (simp add: producer_act_def access_def wake_sleeper_def consumer_blocked_def)
next
  case (K_wf_acquire n)
  moreover have "sy_freed s = None" using rs_inv_live [OF assms(1)] K_wf_acquire by simp
  moreover have "m_consumer (sy_state s) = C_wait_for n"
    using assms(1) K_wf_acquire by (simp add: rs_inv_def word_ok_def)
  moreover have "sy_sems s n = 0" using assms(3) K_wf_acquire by (simp add: consumer_blocked_def)
  moreover from this have "sy_producer s = P_act Consumer_set"
    using assms(1,2) K_wf_acquire by (auto simp: rs_inv_def wake_ok_def)
  ultimately show ?thesis
    by (simp add: producer_act_def access_def release_binary_def consumer_blocked_def)
qed (use assms(3) in \<open>simp_all add: consumer_blocked_def\<close>)

text \<open>C8: no lost wake-up.  Whenever the consumer is blocked (suspended, sleeping on the state word
  or on a semaphore without permits), the producer has not finished: it can still set the result,
  publish it, or take its last step, and that last step unblocks the consumer.\<close>

theorem result_no_lost_wakeup:
  assumes "rs_reachable s" "consumer_blocked s"
  shows "(\<exists>t. rs_exec (Produce v) s = Some (Inr t)) \<or> (\<exists>t. rs_exec (Complete dh) s = Some (Inr t)) \<or>
         (\<exists>t. rs_exec Act s = Some (Inr t) \<and> \<not> consumer_blocked t)"
proof -
  note inv = rs_reachable_inv [OF assms(1)]
  consider "sy_producer s = P_running" | "sy_producer s = P_built" | "\<not> producer_open s"
    by (auto simp: producer_open_def)
  then show ?thesis
  proof cases
    case 1
    then obtain r where "rs_exec (Produce v) s = Some r" by simp
    with rs_inv_Produce [OF inv this] show ?thesis by (auto dest: rs_safe_obtain)
  next
    case 2
    then obtain r where "rs_exec (Complete dh) s = Some r" by simp
    with rs_inv_Complete [OF inv this] show ?thesis by (auto dest: rs_safe_obtain)
  next
    case 3
    with Act_unblocks [OF inv _ assms(2)] show ?thesis by blast
  qed
qed

definition waiting_run :: "nat rs_event list" where
  "waiting_run = [Call (Op_await 3 True), Step, Produce (Inr 7), Step, Complete (Some 5)]"

definition waiting_state :: "nat rs_sys" where
  "waiting_state = (case rs_run waiting_run rs_sys_init of Some (Inr t) \<Rightarrow> t | _ \<Rightarrow> rs_sys_init)"

lemma waiting_state_eq: "rs_run waiting_run rs_sys_init = Some (Inr waiting_state)"
  by (simp add: waiting_state_def waiting_run_def rs_eval_defs Let_def)

lemma waiting_state_facts:
  "sy_consumer waiting_state = K_suspended True" "sy_producer waiting_state = P_act Consumer_set"
  by (simp_all add: waiting_state_def waiting_run_def rs_eval_defs Let_def)

lemma waiting_state_reachable: "rs_reachable waiting_state"
  by (rule rs_run_reachable [OF waiting_state_eq rs_start])

theorem result_no_lost_wakeup_witness:
  "consumer_blocked waiting_state \<and>
   (\<exists>t. rs_exec Act waiting_state = Some (Inr t) \<and> \<not> consumer_blocked t)"
proof -
  have b: "consumer_blocked waiting_state"
    by (simp add: consumer_blocked_def waiting_state_facts)
  from result_no_lost_wakeup [OF waiting_state_reachable b, of "Inr 0" None] b
  show ?thesis by (simp add: waiting_state_facts)
qed

text \<open>C9: what the consumer gets is what the producer made, and the state is given back exactly
  once.  A value or exception that was read is the one that was set; a consumer that is past
  waiting can read it; memory is deallocated only after the producer has published and the
  consumer is gone, and when both sides have finished it has been deallocated, through the
  coroutine frame exactly when the producer is a coroutine.\<close>

theorem result_delivered_and_deleted:
  assumes "rs_reachable s"
  shows "(\<forall>v. sy_got s = Some v \<longrightarrow> sy_made s = Some v) \<and>
     (sy_consumer s = K_joined \<longrightarrow> (\<exists>v. sy_made s = Some v \<and>
        rs_exec Step s = Some (Inr (s\<lparr>sy_got := Some v, sy_consumer := K_delete\<rparr>)))) \<and>
     (sy_freed s \<noteq> None \<longrightarrow> sy_consumer s = K_gone \<and> \<not> producer_open s) \<and>
     (sy_producer s = P_done \<and> sy_consumer s = K_gone \<longrightarrow>
        sy_freed s = Some (case m_done_handle (sy_state s) of Some h \<Rightarrow> Destroy_frame h
                                                            | None \<Rightarrow> Delete_object))"
proof (intro conjI allI impI)
  note inv = rs_reachable_inv [OF assms]
  show "sy_got s = Some v \<Longrightarrow> sy_made s = Some v" for v
    using inv by (auto simp: rs_inv_def value_ok_def)
  show "\<exists>v. sy_made s = Some v \<and>
      rs_exec Step s = Some (Inr (s\<lparr>sy_got := Some v, sy_consumer := K_delete\<rparr>))"
    if k: "sy_consumer s = K_joined"
  proof -
    have "\<not> producer_open s" "m_pc_state (sy_state s) = Producer_done" "sy_freed s = None"
      using rs_inv_word [OF inv] rs_inv_live [OF inv] k by auto
    moreover from this obtain v where "sy_made s = Some v" "m_producer (sy_state s) = built v"
      using inv by (auto simp: rs_inv_def value_ok_def producer_open_def)
    ultimately show ?thesis using k
      by (simp add: consumer_step_def access_def result_state_get_def assert_done_def
          producer_get_built)
  qed
  show "sy_consumer s = K_gone" "\<not> producer_open s" if "sy_freed s \<noteq> None"
    using inv that by (auto simp: rs_inv_def memory_ok_def)
  show "sy_freed s = Some (case m_done_handle (sy_state s) of Some h \<Rightarrow> Destroy_frame h
                                                            | None \<Rightarrow> Delete_object)"
    if "sy_producer s = P_done \<and> sy_consumer s = K_gone"
    using inv that by (auto simp: rs_inv_def memory_ok_def producer_open_def delete_self_def)
qed

definition finished_state :: "nat rs_sys" where
  "finished_state =
     (case rs_run (waiting_run @ [Act, Step, Step]) rs_sys_init of
        Some (Inr t) \<Rightarrow> t | _ \<Rightarrow> rs_sys_init)"

lemma finished_state_eq:
  "rs_run (waiting_run @ [Act, Step, Step]) rs_sys_init = Some (Inr finished_state)"
  by (simp add: finished_state_def waiting_run_def rs_eval_defs result_state_get_def
      producer_get_def producer_get_ref_def Let_def)

lemma finished_state_facts:
  "sy_consumer finished_state = K_gone" "sy_producer finished_state = P_done"
  "sy_got finished_state = Some (Inr 7)" "m_done_handle (sy_state finished_state) = Some 5"
  by (simp_all add: finished_state_def waiting_run_def rs_eval_defs result_state_get_def
      producer_get_def producer_get_ref_def Let_def)

theorem result_delivered_and_deleted_witness:
  "sy_made finished_state = Some (Inr 7) \<and> sy_freed finished_state = Some (Destroy_frame 5)"
  using result_delivered_and_deleted [OF rs_run_reachable [OF finished_state_eq rs_start]]
  by (simp add: finished_state_facts)

text \<open>Without interference the steps of the consumer are the source's functions.\<close>

lemma await_steps:
  assumes "sy_consumer s = K_ready" "sy_freed s = None" "m_consumer (sy_state s) = C_idle"
    "m_pc_state (sy_state s) = PC_idle"
  shows "rs_run [Call (Op_await h b), Step, Step] s =
           (case result_state_await (sy_state s) h of
              Inl e \<Rightarrow> Some (Inl e)
            | Inr (suspend, r) \<Rightarrow>
                Some (Inr (s\<lparr>sy_state := r,
                             sy_consumer := if suspend then K_suspended b else after_ready b\<rparr>)))"
  using assms by (simp add: consumer_call_def consumer_step_def result_state_await_def rs_op_defs
      Let_def)

end
