(* ===== verification/Result_Api.thy ===== *)
theory Result_Api
  imports Result_State
begin

text \<open>
  The user-facing \<^verbatim>\<open>result\<close>, \<^verbatim>\<open>result_promise\<close> (\<^verbatim>\<open>results/result.h\<close>) and
  \<^verbatim>\<open>make_result.h\<close>: handles into a store of result states, which the two deleters release.
  The calls are sequential here; their interleaving is the subject of \<open>Result_Protocol\<close>.
\<close>

section \<open>The deleters\<close>

type_synonym 'a rstore = "addr \<Rightarrow> 'a result_state option"

definition with_state :: "'a rstore \<Rightarrow> addr \<Rightarrow> ('a result_state \<Rightarrow> 'b outcome) \<Rightarrow> 'b outcome" where
  "with_state st a f =
     (case st a of None \<Rightarrow> Inl (Undefined_behaviour ''dangling result_state'') | Some s \<Rightarrow> f s)"

text \<open>\<^verbatim>\<open>complete_producer\<close> through the producer's deleter.\<close>

definition producer_reset :: "'a rstore \<Rightarrow> addr \<Rightarrow> (resume_action \<times> 'a rstore) outcome" where
  "producer_reset st a =
     with_state st a (\<lambda>s. bind_outcome (complete_producer s None) (\<lambda>(before, s').
       case before of
         Consumer_set \<Rightarrow> Inr (resume_consumer (m_consumer s'), st(a \<mapsto> s'))
       | PC_idle \<Rightarrow> Inr (Do_nothing, st(a \<mapsto> s'))
       | Consumer_waiting \<Rightarrow> Inr (Notify_waiter, st(a \<mapsto> s'))
       | Consumer_done \<Rightarrow> Inr (Do_nothing, st(a := None))
       | Producer_done \<Rightarrow> Inl (Assertion_failed ''false'')))"

definition consumer_reset :: "'a rstore \<Rightarrow> addr \<Rightarrow> 'a rstore outcome" where
  "consumer_reset st a =
     with_state st a (\<lambda>s.
       if m_pc_state s = Producer_done then Inr (st(a := None))
       else bind_outcome (complete_consumer_exchange s) (\<lambda>(delete, s').
              Inr (if delete then st(a := None) else st(a \<mapsto> s'))))"

definition joined_reset :: "'a rstore \<Rightarrow> addr \<Rightarrow> 'a rstore outcome" where
  "joined_reset st a =
     with_state st a (\<lambda>s. bind_outcome (assert_done s) (\<lambda>_. Inr (st(a := None))))"

text \<open>Destroying a smart pointer that may be empty.\<close>

definition consumer_ptr_reset :: "'a rstore \<Rightarrow> addr option \<Rightarrow> 'a rstore outcome" where
  "consumer_ptr_reset st p = (case p of None \<Rightarrow> Inr st | Some a \<Rightarrow> consumer_reset st a)"

definition producer_ptr_reset ::
  "'a rstore \<Rightarrow> addr option \<Rightarrow> (resume_action \<times> 'a rstore) outcome" where
  "producer_ptr_reset st p = (case p of None \<Rightarrow> Inr (Do_nothing, st) | Some a \<Rightarrow> producer_reset st a)"

section \<open>\<open>result\<close>\<close>

record result = res_state :: "addr option"

definition result_throw_if_empty :: "result \<Rightarrow> string \<Rightarrow> addr outcome" where
  "result_throw_if_empty r msg =
     (case res_state r of None \<Rightarrow> Inl (Empty_result msg) | Some a \<Rightarrow> Inr a)"

definition result_bool :: "result \<Rightarrow> bool" where
  "result_bool r = (res_state r \<noteq> None)"

definition result_status_of :: "'a rstore \<Rightarrow> result \<Rightarrow> result_status outcome" where
  "result_status_of st r =
     bind_outcome (result_throw_if_empty r k_result_status_error_msg) (\<lambda>a.
       with_state st a result_state_status)"

text \<open>Move assignment; \<open>self\<close> when both sides are the same object.\<close>

definition result_assign ::
  "'a rstore \<Rightarrow> bool \<Rightarrow> result \<Rightarrow> result \<Rightarrow> ('a rstore \<times> result \<times> result) outcome" where
  "result_assign st self r rhs =
     (if self then Inr (st, r, rhs)
      else bind_outcome (consumer_ptr_reset st (res_state r)) (\<lambda>st'.
             Inr (st', rhs, rhs\<lparr>res_state := None\<rparr>)))"

definition result_destructor :: "'a rstore \<Rightarrow> result \<Rightarrow> 'a rstore outcome" where
  "result_destructor st r = consumer_ptr_reset st (res_state r)"

text \<open>\<^verbatim>\<open>get\<close>: \<open>None\<close> when the calling thread blocks because the producer has not published.\<close>

definition result_get ::
  "'a rstore \<Rightarrow> result \<Rightarrow> ('a outcome \<times> 'a rstore \<times> result) option outcome" where
  "result_get st r =
     bind_outcome (result_throw_if_empty r k_result_get_error_msg) (\<lambda>a.
       with_state st a (\<lambda>s.
         if m_pc_state s \<noteq> Producer_done then Inr None
         else bind_outcome (result_state_get s) (\<lambda>v.
                bind_outcome (joined_reset st a) (\<lambda>st'.
                  Inr (Some (v, st', r\<lparr>res_state := None\<rparr>))))))"

text \<open>\<^verbatim>\<open>co_await\<close> and \<^verbatim>\<open>resolve\<close> move the state into an awaitable; \<open>awaitable_suspend\<close> and
  the two \<open>await_resume\<close> functions are that awaitable's operations.\<close>

definition result_co_await :: "result \<Rightarrow> (addr \<times> result) outcome" where
  "result_co_await r =
     bind_outcome (result_throw_if_empty r k_result_operator_co_await_error_msg)
       (\<lambda>a. Inr (a, r\<lparr>res_state := None\<rparr>))"

definition result_resolve :: "result \<Rightarrow> (addr \<times> result) outcome" where
  "result_resolve r =
     bind_outcome (result_throw_if_empty r k_result_resolve_error_msg)
       (\<lambda>a. Inr (a, r\<lparr>res_state := None\<rparr>))"

definition awaitable_suspend :: "'a rstore \<Rightarrow> addr \<Rightarrow> addr \<Rightarrow> (bool \<times> 'a rstore) outcome" where
  "awaitable_suspend st a h =
     with_state st a (\<lambda>s. bind_outcome (result_state_await s h)
       (\<lambda>(suspend, s'). Inr (suspend, st(a \<mapsto> s'))))"

definition awaitable_resume :: "'a rstore \<Rightarrow> addr \<Rightarrow> ('a outcome \<times> 'a rstore) outcome" where
  "awaitable_resume st a =
     with_state st a (\<lambda>s. bind_outcome (result_state_get s) (\<lambda>v.
       bind_outcome (joined_reset st a) (\<lambda>st'. Inr (v, st'))))"

definition resolve_awaitable_resume :: "addr \<Rightarrow> result" where
  "resolve_awaitable_resume a = \<lparr>res_state = Some a\<rparr>"

section \<open>\<open>result_promise\<close>\<close>

record result_promise =
  rp_producer :: "addr option"
  rp_consumer :: "addr option"

text \<open>The constructor allocates the state at a fresh address.\<close>

definition promise_new :: "'a rstore \<Rightarrow> addr \<Rightarrow> 'a rstore \<times> result_promise" where
  "promise_new st a =
     (st(a \<mapsto> result_state_init), \<lparr>rp_producer = Some a, rp_consumer = Some a\<rparr>)"

definition promise_throw_if_empty :: "result_promise \<Rightarrow> string \<Rightarrow> addr outcome" where
  "promise_throw_if_empty p msg =
     (case rp_producer p of None \<Rightarrow> Inl (Empty_result_promise msg) | Some a \<Rightarrow> Inr a)"

definition store_update ::
  "'a rstore \<Rightarrow> addr \<Rightarrow> ('a result_state \<Rightarrow> 'a result_state outcome) \<Rightarrow> 'a rstore outcome" where
  "store_update st a f = with_state st a (\<lambda>s. bind_outcome (f s) (\<lambda>s'. Inr (st(a \<mapsto> s'))))"

definition break_task_if_needed ::
  "'a rstore \<Rightarrow> result_promise \<Rightarrow> (resume_action \<times> 'a rstore \<times> result_promise) outcome" where
  "break_task_if_needed st p =
     (case rp_producer p of
        None \<Rightarrow> Inr (Do_nothing, st, p)
      | Some a \<Rightarrow>
          if rp_consumer p \<noteq> None then Inr (Do_nothing, st, p)
          else bind_outcome
                 (store_update st a (\<lambda>s. set_exception s (Broken_task k_broken_task_exception_error_msg)))
                 (\<lambda>st'. bind_outcome (producer_reset st' a) (\<lambda>(act, st'').
                    Inr (act, st'', p\<lparr>rp_producer := None\<rparr>))))"

text \<open>The destructor: the members go in reverse order of declaration.\<close>

definition promise_destructor ::
  "'a rstore \<Rightarrow> result_promise \<Rightarrow> (resume_action \<times> 'a rstore) outcome" where
  "promise_destructor st p =
     bind_outcome (break_task_if_needed st p) (\<lambda>(act, st1, p1).
       bind_outcome (consumer_ptr_reset st1 (rp_consumer p1)) (\<lambda>st2.
         bind_outcome (producer_ptr_reset st2 (rp_producer p1)) (\<lambda>(act', st3).
           Inr (if act = Do_nothing then act' else act, st3))))"

definition promise_assign ::
  "'a rstore \<Rightarrow> bool \<Rightarrow> result_promise \<Rightarrow> result_promise \<Rightarrow>
     ('a rstore \<times> result_promise \<times> result_promise) outcome" where
  "promise_assign st self p rhs =
     (if self then Inr (st, p, rhs)
      else bind_outcome (break_task_if_needed st p) (\<lambda>(_, st1, p1).
             bind_outcome (producer_ptr_reset st1 (rp_producer p1)) (\<lambda>(_, st2).
               bind_outcome (consumer_ptr_reset st2 (rp_consumer p1)) (\<lambda>st3.
                 Inr (st3, rhs, rhs\<lparr>rp_producer := None, rp_consumer := None\<rparr>)))))"

text \<open>Publishing: \<^verbatim>\<open>m_producer_state.reset()\<close> after the result was set.\<close>

definition promise_publish ::
  "'a rstore \<Rightarrow> result_promise \<Rightarrow> addr \<Rightarrow> (resume_action \<times> 'a rstore \<times> result_promise) outcome" where
  "promise_publish st p a =
     bind_outcome (producer_reset st a) (\<lambda>(act, st'). Inr (act, st', p\<lparr>rp_producer := None\<rparr>))"

definition promise_set_result ::
  "'a rstore \<Rightarrow> result_promise \<Rightarrow> 'a \<Rightarrow> (resume_action \<times> 'a rstore \<times> result_promise) outcome" where
  "promise_set_result st p v =
     bind_outcome (promise_throw_if_empty p k_result_promise_set_result_error_msg) (\<lambda>a.
       bind_outcome (store_update st a (\<lambda>s. set_result s v)) (\<lambda>st'. promise_publish st' p a))"

text \<open>A null exception pointer is \<open>None\<close>.\<close>

definition promise_set_exception ::
  "'a rstore \<Rightarrow> result_promise \<Rightarrow> exn option \<Rightarrow>
     (resume_action \<times> 'a rstore \<times> result_promise) outcome" where
  "promise_set_exception st p e =
     bind_outcome (promise_throw_if_empty p k_result_promise_set_exception_error_msg) (\<lambda>a.
       case e of
         None \<Rightarrow> Inl (Invalid_argument k_result_promise_set_exception_null_exception_error_msg)
       | Some x \<Rightarrow>
           bind_outcome (store_update st a (\<lambda>s. set_exception s x)) (\<lambda>st'. promise_publish st' p a))"

text \<open>\<^verbatim>\<open>set_from_function\<close> is declared \<^verbatim>\<open>noexcept\<close>.\<close>

definition promise_set_from_function ::
  "'a rstore \<Rightarrow> result_promise \<Rightarrow> 'a outcome \<Rightarrow>
     (resume_action \<times> 'a rstore \<times> result_promise) outcome" where
  "promise_set_from_function st p callable =
     noexcept_body
       (bind_outcome (promise_throw_if_empty p k_result_promise_set_from_function_error_msg) (\<lambda>a.
          bind_outcome (store_update st a (\<lambda>s. from_callable s callable))
            (\<lambda>st'. promise_publish st' p a)))"

definition promise_get_result :: "result_promise \<Rightarrow> (result \<times> result_promise) outcome" where
  "promise_get_result p =
     bind_outcome (promise_throw_if_empty p k_result_get_error_msg) (\<lambda>_.
       case rp_consumer p of
         None \<Rightarrow>
           Inl (Result_already_retrieved k_result_promise_get_result_already_retrieved_error_msg)
       | Some a \<Rightarrow> Inr (\<lparr>res_state = Some a\<rparr>, p\<lparr>rp_consumer := None\<rparr>))"

section \<open>\<open>make_ready_result\<close> and \<open>make_exceptional_result\<close>\<close>

definition make_ready_result :: "'a rstore \<Rightarrow> addr \<Rightarrow> 'a \<Rightarrow> ('a rstore \<times> result) outcome" where
  "make_ready_result st a v =
     bind_outcome (store_update (st(a \<mapsto> result_state_init)) a (\<lambda>s. set_result s v)) (\<lambda>st1.
       bind_outcome (producer_reset st1 a) (\<lambda>(_, st2). Inr (st2, \<lparr>res_state = Some a\<rparr>)))"

definition make_exceptional_result ::
  "'a rstore \<Rightarrow> addr \<Rightarrow> exn option \<Rightarrow> ('a rstore \<times> result) outcome" where
  "make_exceptional_result st a e =
     (case e of
        None \<Rightarrow> Inl (Invalid_argument k_make_exceptional_result_exception_null_error_msg)
      | Some x \<Rightarrow>
          bind_outcome (store_update (st(a \<mapsto> result_state_init)) a (\<lambda>s. set_exception s x)) (\<lambda>st1.
            bind_outcome (producer_reset st1 a) (\<lambda>(_, st2). Inr (st2, \<lparr>res_state = Some a\<rparr>))))"

section \<open>Correctness\<close>

definition ready_state :: "'a outcome \<Rightarrow> 'a result_state" where
  "ready_state v =
     \<lparr>m_pc_state = Producer_done, m_consumer = C_idle, m_done_handle = None,
      m_producer = (case v of Inr x \<Rightarrow> \<lparr>pr_storage = Object x, pr_status = RS_value\<rparr>
                            | Inl e \<Rightarrow> \<lparr>pr_storage = Exception e, pr_status = RS_exception\<rparr>)\<rparr>"

lemmas api_defs = with_state_def producer_reset_def consumer_reset_def joined_reset_def
  consumer_ptr_reset_def producer_ptr_reset_def store_update_def complete_producer_def
  complete_consumer_exchange_def assert_done_def result_state_init_def producer_init_def
  set_result_def set_exception_def producer_build_result_def producer_build_exception_def

text \<open>Reading a ready result gives its value and releases the state.\<close>

lemma result_get_ready:
  assumes "st a = Some (ready_state v)"
  shows "result_get st \<lparr>res_state = Some a\<rparr> = Inr (Some (v, st(a := None), \<lparr>res_state = None\<rparr>))"
  using assms
  by (auto simp: result_get_def result_throw_if_empty_def with_state_def ready_state_def
      result_state_get_def assert_done_def producer_get_def producer_get_ref_def joined_reset_def
      split: sum.splits)

lemma awaitable_resume_ready:
  assumes "st a = Some (ready_state v)"
  shows "awaitable_resume st a = Inr (v, st(a := None))"
  using assms
  by (auto simp: awaitable_resume_def with_state_def ready_state_def result_state_get_def
      assert_done_def producer_get_def producer_get_ref_def joined_reset_def split: sum.splits)

lemma set_from_function_fresh:
  assumes "promise_new st a = (st1, p)" "promise_get_result p = Inr (r, p1)"
  shows "r = \<lparr>res_state = Some a\<rparr> \<and>
         promise_set_from_function st1 p1 v =
           Inr (Do_nothing, st(a \<mapsto> ready_state v), \<lparr>rp_producer = None, rp_consumer = None\<rparr>)"
  using assms
  by (auto simp: promise_new_def promise_get_result_def promise_throw_if_empty_def
      promise_set_from_function_def promise_publish_def from_callable_def api_defs ready_state_def
      Let_def split: sum.splits)

lemma set_result_fresh:
  assumes "promise_new st a = (st1, p)" "promise_get_result p = Inr (r, p1)"
  shows "promise_set_result st1 p1 v =
           Inr (Do_nothing, st(a \<mapsto> ready_state (Inr v)), \<lparr>rp_producer = None, rp_consumer = None\<rparr>)"
  using assms
  by (auto simp: promise_new_def promise_get_result_def promise_throw_if_empty_def
      promise_set_result_def promise_publish_def api_defs ready_state_def Let_def)

lemma set_exception_fresh:
  assumes "promise_new st a = (st1, p)" "promise_get_result p = Inr (r, p1)"
  shows "promise_set_exception st1 p1 (Some e) =
           Inr (Do_nothing, st(a \<mapsto> ready_state (Inl e)), \<lparr>rp_producer = None, rp_consumer = None\<rparr>)"
  using assms
  by (auto simp: promise_new_def promise_get_result_def promise_throw_if_empty_def
      promise_set_exception_def promise_publish_def api_defs ready_state_def Let_def)

text \<open>C10: a promise and its result form a channel that leaks nothing.  Whatever is put into a fresh
  promise (a value, an exception, or what a function returns or throws) is what the retrieved
  result yields, through \<^verbatim>\<open>get\<close> as through \<^verbatim>\<open>co_await\<close>, and afterwards the store is what it
  was before the promise was made.\<close>

theorem promise_result_roundtrip:
  assumes "st a = None" "promise_new st a = (st1, p)" "promise_get_result p = Inr (r, p1)"
    and "promise_set_from_function st1 p1 v = Inr (act, st2, p2) \<or>
         (\<exists>x. v = Inr x \<and> promise_set_result st1 p1 x = Inr (act, st2, p2)) \<or>
         (\<exists>e. v = Inl e \<and> promise_set_exception st1 p1 (Some e) = Inr (act, st2, p2))"
  shows "result_get st2 r = Inr (Some (v, st, \<lparr>res_state = None\<rparr>)) \<and>
         (\<exists>b. result_co_await r = Inr (b, \<lparr>res_state = None\<rparr>) \<and> awaitable_resume st2 b = Inr (v, st)) \<and>
         promise_destructor st2 p2 = Inr (Do_nothing, st2)"
proof -
  have r: "r = \<lparr>res_state = Some a\<rparr>" using set_from_function_fresh [OF assms(2,3)] by blast
  have st2: "st2 = st(a \<mapsto> ready_state v)" "p2 = \<lparr>rp_producer = None, rp_consumer = None\<rparr>"
    using assms(4) set_from_function_fresh [OF assms(2,3), of v]
      set_result_fresh [OF assms(2,3)] set_exception_fresh [OF assms(2,3)] by auto
  then have at: "st2 a = Some (ready_state v)" "st2(a := None) = st"
    using assms(1) by (simp_all add: fun_upd_idem)
  show ?thesis
    using result_get_ready [of st2 a v] awaitable_resume_ready [of st2 a v] at r st2(2)
    by (simp add: result_co_await_def result_throw_if_empty_def promise_destructor_def
        break_task_if_needed_def consumer_ptr_reset_def producer_ptr_reset_def)
qed

theorem promise_result_roundtrip_witness:
  "\<exists>st2. promise_set_result ((\<lambda>_. None)(4 \<mapsto> result_state_init))
            \<lparr>rp_producer = Some 4, rp_consumer = None\<rparr> (7::nat) =
          Inr (Do_nothing, st2, \<lparr>rp_producer = None, rp_consumer = None\<rparr>) \<and>
        result_get st2 \<lparr>res_state = Some 4\<rparr> = Inr (Some (Inr 7, \<lambda>_. None, \<lparr>res_state = None\<rparr>))"
proof -
  let ?p = "\<lparr>rp_producer = Some 4, rp_consumer = Some 4\<rparr>"
  have n: "promise_new (\<lambda>_. None) 4 = ((\<lambda>_. None)(4 \<mapsto> result_state_init :: nat result_state), ?p)"
    by (simp add: promise_new_def)
  have g: "promise_get_result ?p = Inr (\<lparr>res_state = Some 4\<rparr>, \<lparr>rp_producer = Some 4, rp_consumer = None\<rparr>)"
    by (simp add: promise_get_result_def promise_throw_if_empty_def)
  from promise_result_roundtrip [OF _ n g, of "Inr 7"] set_result_fresh [OF n g, of 7]
  show ?thesis by auto
qed

text \<open>Broken promises.  Destroying a promise whose result was retrieved but never set gives that
  result a \<^verbatim>\<open>broken_task\<close> exception; destroying one whose result was never retrieved releases
  the state and leaves the store as before; and a result that is destroyed first leaves the
  deallocation to the promise.\<close>

lemma promise_broken:
  assumes "st a = None" "promise_new st a = (st1, p)" "promise_get_result p = Inr (r, p1)"
  shows "(\<exists>st2. promise_destructor st1 p1 = Inr (Do_nothing, st2) \<and>
            result_get st2 r =
              Inr (Some (Inl (Broken_task k_broken_task_exception_error_msg), st, \<lparr>res_state = None\<rparr>))) \<and>
         promise_destructor st1 p = Inr (Do_nothing, st) \<and>
         (\<exists>st2. result_destructor st1 r = Inr st2 \<and> promise_destructor st2 p1 = Inr (Do_nothing, st))"
proof (intro conjI)
  have eqs: "st1 = st(a \<mapsto> result_state_init)" "p = \<lparr>rp_producer = Some a, rp_consumer = Some a\<rparr>"
    "p1 = \<lparr>rp_producer = Some a, rp_consumer = None\<rparr>" "r = \<lparr>res_state = Some a\<rparr>"
    using assms(2,3) by (auto simp: promise_new_def promise_get_result_def promise_throw_if_empty_def)
  have clear: "st(a := None) = st" using assms(1) by (simp add: fun_upd_idem)
  let ?b = "Broken_task k_broken_task_exception_error_msg"
  have "promise_destructor st1 p1 = Inr (Do_nothing, st(a \<mapsto> ready_state (Inl ?b)))"
    by (simp add: eqs promise_destructor_def break_task_if_needed_def api_defs ready_state_def Let_def)
  moreover have "result_get (st(a \<mapsto> ready_state (Inl ?b))) r = Inr (Some (Inl ?b, st, \<lparr>res_state = None\<rparr>))"
    using result_get_ready [of "st(a \<mapsto> ready_state (Inl ?b))" a] by (simp add: eqs clear)
  ultimately show "\<exists>st2. promise_destructor st1 p1 = Inr (Do_nothing, st2) \<and>
      result_get st2 r = Inr (Some (Inl ?b, st, \<lparr>res_state = None\<rparr>))" by blast
  show "promise_destructor st1 p = Inr (Do_nothing, st)"
    by (simp add: eqs promise_destructor_def break_task_if_needed_def api_defs clear Let_def)
  show "\<exists>st2. result_destructor st1 r = Inr st2 \<and> promise_destructor st2 p1 = Inr (Do_nothing, st)"
    by (simp add: eqs result_destructor_def promise_destructor_def break_task_if_needed_def api_defs
        clear Let_def)
qed

lemma promise_broken_witness:
  "promise_destructor ((\<lambda>_. None)(4 \<mapsto> result_state_init :: nat result_state))
      \<lparr>rp_producer = Some 4, rp_consumer = Some 4\<rparr> = Inr (Do_nothing, \<lambda>_. None)"
  using promise_broken [of "\<lambda>_. None :: nat result_state option" 4, OF _ promise_new_def]
  by (simp add: promise_get_result_def promise_throw_if_empty_def)

text \<open>The misuse of a promise or result is reported.  Every operation of an empty result or
  promise raises the documented exception, a result can be retrieved once, a null exception is
  an invalid argument, and calling \<^verbatim>\<open>set_from_function\<close> on an empty promise terminates the
  program because the function is \<^verbatim>\<open>noexcept\<close>.\<close>

lemma promise_misuse:
  fixes p :: result_promise and r :: result
  assumes "rp_producer p = None" "res_state r = None"
    and "rp_producer q = Some a" "rp_consumer q = None"
  shows "promise_set_result st p v = Inl (Empty_result_promise k_result_promise_set_result_error_msg) \<and>
    promise_set_exception st p e = Inl (Empty_result_promise k_result_promise_set_exception_error_msg) \<and>
    promise_set_from_function st p c =
      Inl (Terminated (Empty_result_promise k_result_promise_set_from_function_error_msg)) \<and>
    promise_get_result p = Inl (Empty_result_promise k_result_get_error_msg) \<and>
    promise_get_result q =
      Inl (Result_already_retrieved k_result_promise_get_result_already_retrieved_error_msg) \<and>
    promise_set_exception st q None =
      Inl (Invalid_argument k_result_promise_set_exception_null_exception_error_msg) \<and>
    result_status_of st r = Inl (Empty_result k_result_status_error_msg) \<and>
    result_get st r = Inl (Empty_result k_result_get_error_msg) \<and>
    result_co_await r = Inl (Empty_result k_result_operator_co_await_error_msg) \<and>
    result_resolve r = Inl (Empty_result k_result_resolve_error_msg)"
  using assms
  by (simp add: promise_set_result_def promise_set_exception_def promise_set_from_function_def
      promise_get_result_def promise_throw_if_empty_def result_status_of_def result_get_def
      result_co_await_def result_resolve_def result_throw_if_empty_def)

lemma promise_misuse_witness:
  "promise_get_result \<lparr>rp_producer = None, rp_consumer = None\<rparr> =
     Inl (Empty_result_promise k_result_get_error_msg)"
  using promise_misuse [of "\<lparr>rp_producer = None, rp_consumer = None\<rparr>" "\<lparr>res_state = None\<rparr>"
      "\<lparr>rp_producer = Some 1, rp_consumer = None\<rparr>" 1 "\<lambda>_. None :: nat result_state option" 0 None "Inr 0"]
  by simp

text \<open>\<^verbatim>\<open>make_ready_result\<close> and \<^verbatim>\<open>make_exceptional_result\<close> return a result that is ready with the
  given value or exception and whose consumption gives the store back.\<close>

lemma make_result_ready:
  assumes "st a = None"
  shows "(\<exists>st1 r. make_ready_result st a v = Inr (st1, r) \<and> result_status_of st1 r = Inr RS_value \<and>
            result_get st1 r = Inr (Some (Inr v, st, \<lparr>res_state = None\<rparr>))) \<and>
         (\<exists>st1 r. make_exceptional_result st a (Some e) = Inr (st1, r) \<and>
            result_status_of st1 r = Inr RS_exception \<and>
            result_get st1 r = Inr (Some (Inl e, st, \<lparr>res_state = None\<rparr>))) \<and>
         make_exceptional_result st a None =
           Inl (Invalid_argument k_make_exceptional_result_exception_null_error_msg)"
proof -
  have clear: "st(a := None) = st" using assms by (simp add: fun_upd_idem)
  have "make_ready_result st a v = Inr (st(a \<mapsto> ready_state (Inr v)), \<lparr>res_state = Some a\<rparr>)"
    "make_exceptional_result st a (Some e) = Inr (st(a \<mapsto> ready_state (Inl e)), \<lparr>res_state = Some a\<rparr>)"
    by (simp_all add: make_ready_result_def make_exceptional_result_def api_defs ready_state_def Let_def)
  moreover have "result_status_of (st(a \<mapsto> ready_state w)) \<lparr>res_state = Some a\<rparr> =
      Inr (case w of Inr x \<Rightarrow> RS_value | Inl y \<Rightarrow> RS_exception)" for w :: "'a outcome"
    by (auto simp: result_status_of_def result_throw_if_empty_def with_state_def ready_state_def
        result_state_status_def producer_status_def split: sum.splits)
  ultimately show ?thesis
    using result_get_ready [of "st(a \<mapsto> ready_state (Inr v))" a]
      result_get_ready [of "st(a \<mapsto> ready_state (Inl e))" a]
    by (simp add: clear make_exceptional_result_def)
qed

lemma make_result_ready_witness:
  "\<exists>st1 r. make_ready_result (\<lambda>_. None) 4 (7::nat) = Inr (st1, r) \<and>
     result_get st1 r = Inr (Some (Inr 7, \<lambda>_. None, \<lparr>res_state = None\<rparr>))"
  using make_result_ready [of "\<lambda>_. None" 4 "7 :: nat" "User_exception 0"] by auto

end
