(* ===== verification/When_Any.thy ===== *)
theory When_Any
  imports Result_State
begin

text \<open>
  \<^verbatim>\<open>when_any\<close>: the \<^verbatim>\<open>when_any_context\<close> of \<^verbatim>\<open>source/results/impl/consumer_context.cpp\<close> and
  the awaitable of \<^verbatim>\<open>results/when_result.h\<close>, interleaved with the producers of the results at
  every access to shared memory.  Results are identified by their position.
\<close>

section \<open>The context\<close>

datatype wa_status = Processing | Done_processing | Completed nat

definition any_result_finished :: "wa_status \<Rightarrow> bool outcome" where
  "any_result_finished st =
     bind_outcome (assert_that (st \<noteq> Done_processing) ''status != k_done_processing'')
       (\<lambda>_. Inr (st \<noteq> Processing))"

definition finish_processing :: "wa_status \<Rightarrow> (bool \<times> wa_status) outcome" where
  "finish_processing st =
     bind_outcome (assert_that (st \<noteq> Done_processing) ''m_status != k_done_processing'')
       (\<lambda>_. Inr (if st = Processing then (True, Done_processing) else (False, st)))"

text \<open>One turn of \<^verbatim>\<open>try_resume\<close>: \<open>loaded\<close> is the status its load returned, \<open>st\<close> the status when
  the exchange happens.\<close>

datatype try_result = Bail_out | Retry | Resume_caller

definition try_resume_turn :: "nat \<Rightarrow> wa_status \<Rightarrow> wa_status \<Rightarrow> try_result \<times> wa_status" where
  "try_resume_turn i loaded st =
     (if loaded \<noteq> Processing \<and> loaded \<noteq> Done_processing then (Bail_out, st)
      else if loaded = Done_processing
      then (if st = Done_processing then (Resume_caller, Completed i) else (Bail_out, st))
      else (if st = Processing then (Bail_out, Completed i) else (Retry, st)))"

text \<open>\<^verbatim>\<open>resume_inline\<close>: the load, and the exchange; the function always returns false.\<close>

definition resume_inline_load :: "wa_status \<Rightarrow> bool outcome" where
  "resume_inline_load st =
     bind_outcome (assert_that (st \<noteq> Done_processing) ''status != k_done_processing'')
       (\<lambda>_. Inr (st = Processing))"

definition resume_inline_cas :: "nat \<Rightarrow> wa_status \<Rightarrow> wa_status" where
  "resume_inline_cas i st = (if st = Processing then Completed i else st)"

section \<open>The awaitable and the producers\<close>

text \<open>Program points of a producer: before its exchange, after it, inside \<^verbatim>\<open>try_resume\<close>, about to
  resume the waiting coroutine, finished.\<close>

datatype wa_producer = Pr_open | Pr_act pc_state | Pr_load | Pr_cas wa_status | Pr_coro | Pr_end

text \<open>Program points of the awaiting coroutine, in the order of \<^verbatim>\<open>await_suspend\<close> and
  \<^verbatim>\<open>await_resume\<close>; the latter carry the completed status read first and the index found.\<close>

datatype wa_pc =
    A_check nat | A_load nat | A_set nat pc_state | A_cas nat pc_state
  | A_inline nat | A_inline_cas nat | A_finish | A_suspended
  | A_resume | A_rewind nat wa_status "nat option" | A_rewind_cas nat wa_status "nat option"
  | A_done nat

record wa_sys =
  wa_size :: nat
  wa_m_status :: wa_status
  wa_states :: "nat \<Rightarrow> unit result_state"
  wa_producers :: "nat \<Rightarrow> wa_producer"
  wa_pc :: wa_pc
  wa_missed :: bool

definition wa_init :: "nat \<Rightarrow> wa_sys" where
  "wa_init n =
     \<lparr>wa_size = n, wa_m_status = Processing, wa_states = (\<lambda>_. result_state_init),
      wa_producers = (\<lambda>_. Pr_open), wa_pc = A_check 0, wa_missed = False\<rparr>"

text \<open>The index of the result whose address was found in the status.\<close>

definition found_index :: "nat \<Rightarrow> wa_status \<Rightarrow> nat option \<Rightarrow> nat option" where
  "found_index i c idx = (if c = Completed i then Some i else idx)"

definition wa_await_step :: "wa_sys \<Rightarrow> wa_sys outcome option" where
  "wa_await_step s =
     (case wa_pc s of
        A_check i \<Rightarrow> Some (
          if i < wa_size s
          then bind_outcome (any_result_finished (wa_m_status s)) (\<lambda>b.
                 Inr (s\<lparr>wa_pc := if b then A_resume else A_load i\<rparr>))
          else Inr (s\<lparr>wa_pc := A_finish\<rparr>))
      | A_load i \<Rightarrow> Some (
          let state = m_pc_state (wa_states s i) in
          Inr (s\<lparr>wa_pc := if state = Producer_done then A_inline i else A_set i state\<rparr>))
      | A_set i state \<Rightarrow> Some (
          bind_outcome (set_when_any_context (m_consumer (wa_states s i)) 0) (\<lambda>c.
            Inr (s\<lparr>wa_states := (wa_states s)(i := (wa_states s i)\<lparr>m_consumer := c\<rparr>),
                   wa_pc := A_cas i state\<rparr>)))
      | A_cas i state \<Rightarrow> Some (
          bind_outcome (publish_consumer Consumer_set (wa_states s i)) (\<lambda>(idle, r).
            Inr (s\<lparr>wa_states := (wa_states s)(i := r), wa_missed := wa_missed s \<or> \<not> idle,
                   wa_pc := if state = Producer_done then A_inline i else A_check (Suc i)\<rparr>)))
      | A_inline i \<Rightarrow> Some (
          bind_outcome (resume_inline_load (wa_m_status s)) (\<lambda>b.
            Inr (s\<lparr>wa_pc := if b then A_inline_cas i else A_resume\<rparr>)))
      | A_inline_cas i \<Rightarrow> Some (
          Inr (s\<lparr>wa_m_status := resume_inline_cas i (wa_m_status s), wa_pc := A_resume\<rparr>))
      | A_finish \<Rightarrow> Some (
          bind_outcome (finish_processing (wa_m_status s)) (\<lambda>(suspend, st).
            Inr (s\<lparr>wa_m_status := st, wa_pc := if suspend then A_suspended else A_resume\<rparr>)))
      | A_suspended \<Rightarrow> None
      | A_resume \<Rightarrow> Some (Inr (s\<lparr>wa_pc := A_rewind 0 (wa_m_status s) None\<rparr>))
      | A_rewind i c idx \<Rightarrow> Some (
          if i < wa_size s
          then (if m_pc_state (wa_states s i) \<noteq> Consumer_set
                then Inr (s\<lparr>wa_pc := A_rewind (Suc i) c (found_index i c idx)\<rparr>)
                else Inr (s\<lparr>wa_pc := A_rewind_cas i c idx\<rparr>))
          else (case idx of None \<Rightarrow> Inl (Assertion_failed ''completed_result_index != max'')
                          | Some k \<Rightarrow> Inr (s\<lparr>wa_pc := A_done k\<rparr>)))
      | A_rewind_cas i c idx \<Rightarrow> Some (
          bind_outcome (rewind_consumer (wa_states s i)) (\<lambda>(ok, r).
            Inr (s\<lparr>wa_states := (wa_states s)(i := if ok
                      then r\<lparr>m_consumer := consumer_clear (m_consumer r)\<rparr> else r),
                   wa_pc := A_rewind (Suc i) c (found_index i c idx)\<rparr>)))
      | A_done k \<Rightarrow> None)"

text \<open>One access of producer \<open>i\<close>.  Resuming the coroutine needs it suspended.\<close>

definition wa_at :: "wa_sys \<Rightarrow> nat \<Rightarrow> wa_producer \<Rightarrow> wa_sys" where
  "wa_at s i p = s\<lparr>wa_producers := (wa_producers s)(i := p)\<rparr>"

definition wa_producer_step :: "nat \<Rightarrow> wa_sys \<Rightarrow> wa_sys outcome option" where
  "wa_producer_step i s =
     (case wa_producers s i of
        Pr_open \<Rightarrow> Some (
          bind_outcome (complete_producer (wa_states s i) None) (\<lambda>(before, r).
            Inr ((wa_at s i (Pr_act before))\<lparr>wa_states := (wa_states s)(i := r)\<rparr>)))
      | Pr_act before \<Rightarrow> Some (
          case before of
            Consumer_set \<Rightarrow> (case resume_consumer (m_consumer (wa_states s i)) of
                Try_resume c \<Rightarrow> Inr (wa_at s i Pr_load)
              | _ \<Rightarrow> Inr (wa_at s i Pr_end))
          | _ \<Rightarrow> Inr (wa_at s i Pr_end))
      | Pr_load \<Rightarrow> Some (Inr (wa_at s i (Pr_cas (wa_m_status s))))
      | Pr_cas loaded \<Rightarrow> Some (
          let (res, st) = try_resume_turn i loaded (wa_m_status s) in
          Inr ((wa_at s i (case res of Bail_out \<Rightarrow> Pr_end | Retry \<Rightarrow> Pr_load
                                     | Resume_caller \<Rightarrow> Pr_coro))\<lparr>wa_m_status := st\<rparr>))
      | Pr_coro \<Rightarrow> Some (
          if wa_pc s = A_suspended then Inr ((wa_at s i Pr_end)\<lparr>wa_pc := A_resume\<rparr>)
          else Inl (Undefined_behaviour ''resumed a coroutine that is not suspended''))
      | Pr_end \<Rightarrow> None)"

datatype wa_event = Awaiter | Producer nat

fun wa_exec :: "wa_event \<Rightarrow> wa_sys \<Rightarrow> wa_sys outcome option" where
  "wa_exec Awaiter s = wa_await_step s"
| "wa_exec (Producer i) s = (if i < wa_size s then wa_producer_step i s else None)"

inductive wa_reachable :: "nat \<Rightarrow> wa_sys \<Rightarrow> bool" for n where
  wa_start: "wa_reachable n (wa_init n)"
| wa_next: "wa_reachable n s \<Longrightarrow> wa_exec e s = Some (Inr t) \<Longrightarrow> wa_reachable n t"

section \<open>The invariant\<close>

text \<open>The states of the single results.\<close>

definition wa_state_ok :: "wa_producer \<Rightarrow> unit result_state \<Rightarrow> bool" where
  "wa_state_ok p r \<longleftrightarrow>
     (p = Pr_open \<longleftrightarrow> m_pc_state r \<noteq> Producer_done) \<and>
     m_pc_state r \<in> {PC_idle, Consumer_set, Producer_done} \<and>
     m_consumer r \<in> {C_idle, C_when_any 0} \<and>
     (m_pc_state r = Consumer_set \<or> p = Pr_act Consumer_set \<longrightarrow> m_consumer r = C_when_any 0) \<and>
     (\<forall>b. p = Pr_act b \<longrightarrow> b \<in> {PC_idle, Consumer_set})"

text \<open>From which position on the awaiter has not touched the results yet, and below which one it
  has published itself.\<close>

fun untouched_from :: "wa_pc \<Rightarrow> nat option" where
  "untouched_from (A_check i) = Some i"
| "untouched_from (A_load i) = Some i"
| "untouched_from (A_set i b) = Some i"
| "untouched_from (A_cas i b) = Some (Suc i)"
| "untouched_from _ = None"

fun published_below :: "wa_pc \<Rightarrow> nat \<Rightarrow> nat" where
  "published_below (A_check i) n = min i n"
| "published_below (A_load i) n = i"
| "published_below (A_set i b) n = i"
| "published_below (A_cas i b) n = i"
| "published_below A_finish n = n"
| "published_below A_suspended n = n"
| "published_below _ n = 0"

definition wa_published :: "wa_producer \<Rightarrow> unit result_state \<Rightarrow> bool" where
  "wa_published p r \<longleftrightarrow>
     m_pc_state r = Consumer_set \<or> p = Pr_act Consumer_set \<or> p = Pr_load \<or> (\<exists>st. p = Pr_cas st)"

text \<open>What holds at each point of the awaiter.\<close>

fun awaiter_ok :: "wa_pc \<Rightarrow> wa_status \<Rightarrow> nat \<Rightarrow> (nat \<Rightarrow> wa_producer) \<Rightarrow> bool" where
  "awaiter_ok (A_load i) st n ps = (i < n)"
| "awaiter_ok (A_set i b) st n ps = (i < n \<and> b \<noteq> Producer_done)"
| "awaiter_ok (A_cas i b) st n ps = (i < n \<and> b \<noteq> Producer_done)"
| "awaiter_ok (A_inline i) st n ps = (i < n \<and> ps i \<noteq> Pr_open)"
| "awaiter_ok (A_inline_cas i) st n ps = (i < n \<and> ps i \<noteq> Pr_open)"
| "awaiter_ok A_suspended st n ps = (st \<noteq> Processing)"
| "awaiter_ok A_resume st n ps = (\<exists>j. st = Completed j)"
| "awaiter_ok (A_rewind i c idx) st n ps =
     (c = st \<and> (\<exists>j. st = Completed j \<and> idx = (if j < i then Some j else None)) \<and> i \<le> n)"
| "awaiter_ok (A_rewind_cas i c idx) st n ps =
     (c = st \<and> (\<exists>j. st = Completed j \<and> idx = (if j < i then Some j else None)) \<and> i < n)"
| "awaiter_ok (A_done k) st n ps = (st = Completed k)"
| "awaiter_ok _ st n ps = True"

text \<open>A status that was loaded is not newer than the present one.\<close>

fun status_order :: "wa_status \<Rightarrow> wa_status \<Rightarrow> bool" where
  "status_order Processing st = True"
| "status_order Done_processing st = (st \<noteq> Processing)"
| "status_order (Completed j) st = (st = Completed j)"

definition wa_inv :: "wa_sys \<Rightarrow> bool" where
  "wa_inv s \<longleftrightarrow>
     (\<forall>i. wa_state_ok (wa_producers s i) (wa_states s i)) \<and>
     (\<forall>k. untouched_from (wa_pc s) = Some k \<longrightarrow> (\<forall>j \<ge> k. m_consumer (wa_states s j) = C_idle)) \<and>
     (\<forall>i b. wa_pc s = A_cas i b \<longrightarrow> m_pc_state (wa_states s i) \<noteq> Consumer_set \<and>
        m_consumer (wa_states s i) = C_when_any 0) \<and>
     (\<forall>i c idx. wa_pc s = A_rewind_cas i c idx \<longrightarrow> m_pc_state (wa_states s i) \<noteq> PC_idle) \<and>
     (\<forall>j. wa_m_status s = Completed j \<longrightarrow> j < wa_size s \<and> wa_producers s j \<noteq> Pr_open) \<and>
     (wa_m_status s = Done_processing \<longrightarrow> wa_pc s = A_suspended) \<and>
     (\<forall>i st. wa_producers s i = Pr_cas st \<longrightarrow> status_order st (wa_m_status s)) \<and>
     awaiter_ok (wa_pc s) (wa_m_status s) (wa_size s) (wa_producers s)"

text \<open>Exactly the producer that won the exchange is about to resume the coroutine.\<close>

definition wa_resumer :: "wa_sys \<Rightarrow> nat option \<Rightarrow> bool" where
  "wa_resumer s w \<longleftrightarrow>
     (\<forall>i. (wa_producers s i = Pr_coro) = (w = Some i)) \<and>
     (\<forall>i. w = Some i \<longrightarrow> i < wa_size s) \<and>
     (w \<noteq> None \<longleftrightarrow> wa_pc s = A_suspended \<and> wa_m_status s \<noteq> Done_processing)"

definition wa_heard :: "wa_sys \<Rightarrow> bool" where
  "wa_heard s \<longleftrightarrow>
     wa_missed s \<or> (\<exists>j. wa_m_status s = Completed j) \<or>
     (\<forall>i < published_below (wa_pc s) (wa_size s). wa_published (wa_producers s i) (wa_states s i))"

lemma wa_inv_init: "wa_inv (wa_init n)"
  by (simp add: wa_inv_def wa_init_def wa_state_ok_def result_state_init_def)

lemma wa_resumer_init: "wa_resumer (wa_init n) None"
  by (simp add: wa_resumer_def wa_init_def)

lemma wa_heard_init: "wa_heard (wa_init n)"
  by (simp add: wa_heard_def wa_init_def)

definition wa_good :: "wa_sys \<Rightarrow> nat option \<Rightarrow> bool" where
  "wa_good s w \<longleftrightarrow> wa_inv s \<and> wa_resumer s w \<and> wa_heard s"

definition wa_safe :: "wa_sys outcome \<Rightarrow> bool" where
  "wa_safe r \<longleftrightarrow> (case r of Inl e \<Rightarrow> False | Inr t \<Rightarrow> \<exists>w. wa_good t w)"

lemma wa_safe_simps [simp]: "wa_safe (Inr t) = (\<exists>w. wa_good t w)" "wa_safe (Inl e) = False"
  by (simp_all add: wa_safe_def)

text \<open>Moving the awaiter alone.\<close>

lemma wa_move:
  assumes "wa_good s w" "wa_pc s \<noteq> A_suspended" "pc \<noteq> A_suspended"
    and "awaiter_ok pc (wa_m_status s) (wa_size s) (wa_producers s)"
    and "\<And>k. untouched_from pc = Some k \<Longrightarrow> \<exists>l \<le> k. untouched_from (wa_pc s) = Some l"
    and "published_below pc (wa_size s) \<le> published_below (wa_pc s) (wa_size s)"
    and "\<forall>i b. pc \<noteq> A_cas i b"
    and "\<forall>i c idx. pc = A_rewind_cas i c idx \<longrightarrow> m_pc_state (wa_states s i) \<noteq> PC_idle"
  shows "wa_good (s\<lparr>wa_pc := pc\<rparr>) w"
proof -
  have "wa_inv (s\<lparr>wa_pc := pc\<rparr>)"
    using assms(1-5,7,8) by (fastforce simp: wa_good_def wa_inv_def)
  moreover have "wa_resumer (s\<lparr>wa_pc := pc\<rparr>) w"
    using assms(1-3) by (auto simp: wa_good_def wa_resumer_def)
  moreover have "wa_heard (s\<lparr>wa_pc := pc\<rparr>)"
    using assms(1,6) by (auto simp: wa_good_def wa_heard_def)
  ultimately show ?thesis by (simp add: wa_good_def)
qed

lemma wa_status_active:
  "wa_good s w \<Longrightarrow> wa_pc s \<noteq> A_suspended \<Longrightarrow> wa_m_status s \<noteq> Done_processing"
  by (auto simp: wa_good_def wa_inv_def)

lemma wa_step_check:
  assumes "wa_good s w" "wa_pc s = A_check i" "wa_exec Awaiter s = Some r"
  shows "wa_safe r"
proof (cases "i < wa_size s")
  case True
  have st: "wa_m_status s \<noteq> Done_processing" using wa_status_active [OF assms(1)] assms(2) by simp
  show ?thesis
  proof (cases "wa_m_status s = Processing")
    case True
    with assms(2,3) st \<open>i < wa_size s\<close> have "r = Inr (s\<lparr>wa_pc := A_load i\<rparr>)"
      by (simp add: wa_await_step_def any_result_finished_def)
    with wa_move [OF assms(1), of "A_load i"] assms(2) \<open>i < wa_size s\<close> show ?thesis by auto
  next
    case False
    with assms(2,3) st \<open>i < wa_size s\<close> have "r = Inr (s\<lparr>wa_pc := A_resume\<rparr>)"
      by (simp add: wa_await_step_def any_result_finished_def)
    moreover have "\<exists>j. wa_m_status s = Completed j" using st False by (cases "wa_m_status s") auto
    ultimately show ?thesis using wa_move [OF assms(1), of A_resume] assms(2) by auto
  qed
next
  case False
  with assms(2,3) have "r = Inr (s\<lparr>wa_pc := A_finish\<rparr>)" by (simp add: wa_await_step_def)
  with wa_move [OF assms(1), of A_finish] assms(2) False show ?thesis by auto
qed

lemma wa_step_load:
  assumes "wa_good s w" "wa_pc s = A_load i" "wa_exec Awaiter s = Some r"
  shows "wa_safe r"
proof -
  let ?b = "m_pc_state (wa_states s i)"
  have i: "i < wa_size s" "wa_state_ok (wa_producers s i) (wa_states s i)"
    using assms(1,2) by (auto simp: wa_good_def wa_inv_def)
  show ?thesis
  proof (cases "?b = Producer_done")
    case True
    then have "wa_producers s i \<noteq> Pr_open" using i by (auto simp: wa_state_ok_def)
    moreover have "r = Inr (s\<lparr>wa_pc := A_inline i\<rparr>)"
      using assms(2,3) True by (simp add: wa_await_step_def)
    ultimately show ?thesis using wa_move [OF assms(1), of "A_inline i"] assms(2) i by auto
  next
    case False
    then have "r = Inr (s\<lparr>wa_pc := A_set i ?b\<rparr>)"
      using assms(2,3) by (simp add: wa_await_step_def Let_def)
    with wa_move [OF assms(1), of "A_set i ?b"] assms(2) i False show ?thesis by auto
  qed
qed

lemma wa_step_set:
  assumes "wa_good s w" "wa_pc s = A_set i b" "wa_exec Awaiter s = Some r"
  shows "wa_safe r"
proof -
  have c: "m_consumer (wa_states s i) = C_idle"
    "wa_state_ok (wa_producers s i) (wa_states s i)"
    using assms(1,2) by (auto simp: wa_good_def wa_inv_def)
  let ?t = "s\<lparr>wa_states := (wa_states s)(i := (wa_states s i)\<lparr>m_consumer := C_when_any 0\<rparr>),
              wa_pc := A_cas i b\<rparr>"
  have "r = Inr ?t"
    using assms(2,3) c by (simp add: wa_await_step_def set_when_any_context_def)
  moreover have "wa_inv ?t"
    using assms(1,2) c by (auto simp: wa_good_def wa_inv_def wa_state_ok_def)
  moreover have "wa_resumer ?t w" using assms(1,2) by (auto simp: wa_good_def wa_resumer_def)
  moreover have "wa_heard ?t"
    using assms(1,2) by (auto simp: wa_good_def wa_heard_def wa_published_def)
  ultimately show ?thesis by (auto simp: wa_good_def)
qed

lemma wa_step_cas:
  assumes "wa_good s w" "wa_pc s = A_cas i b" "wa_exec Awaiter s = Some r"
  shows "wa_safe r"
proof -
  have i: "i < wa_size s" "b \<noteq> Producer_done" "wa_state_ok (wa_producers s i) (wa_states s i)"
    "m_pc_state (wa_states s i) \<noteq> Consumer_set" "m_consumer (wa_states s i) = C_when_any 0"
    using assms(1,2) by (auto simp: wa_good_def wa_inv_def)
  show ?thesis
  proof (cases "m_pc_state (wa_states s i) = PC_idle")
    case True
    let ?t = "s\<lparr>wa_states := (wa_states s)(i := (wa_states s i)\<lparr>m_pc_state := Consumer_set\<rparr>),
                wa_pc := A_check (Suc i)\<rparr>"
    have "r = Inr ?t"
      using assms(2,3) True i
      by (simp add: wa_await_step_def publish_consumer_def cas_pc_state_def)
    moreover have "wa_inv ?t"
      using assms(1,2) True i by (auto simp: wa_good_def wa_inv_def wa_state_ok_def)
    moreover have "wa_resumer ?t w" using assms(1,2) by (auto simp: wa_good_def wa_resumer_def)
    moreover have "wa_heard ?t"
      using assms(1,2) i by (auto simp: wa_good_def wa_heard_def wa_published_def less_Suc_eq)
    ultimately show ?thesis by (auto simp: wa_good_def)
  next
    case False
    then have "m_pc_state (wa_states s i) = Producer_done" using i by (auto simp: wa_state_ok_def)
    then have "r = Inr (s\<lparr>wa_missed := True, wa_pc := A_check (Suc i)\<rparr>)"
      using assms(2,3) i
      by (simp add: wa_await_step_def publish_consumer_def cas_pc_state_def assert_done_def)
    moreover have "wa_good (s\<lparr>wa_missed := True, wa_pc := A_check (Suc i)\<rparr>) w"
      using assms(1,2) by (auto simp: wa_good_def wa_inv_def wa_resumer_def wa_heard_def)
    ultimately show ?thesis by auto
  qed
qed

lemma wa_step_inline:
  assumes "wa_good s w" "wa_pc s = A_inline i" "wa_exec Awaiter s = Some r"
  shows "wa_safe r"
proof -
  have st: "wa_m_status s \<noteq> Done_processing" using wa_status_active [OF assms(1)] assms(2) by simp
  have i: "i < wa_size s" "wa_producers s i \<noteq> Pr_open"
    using assms(1,2) by (auto simp: wa_good_def wa_inv_def)
  show ?thesis
  proof (cases "wa_m_status s = Processing")
    case True
    with assms(2,3) have "r = Inr (s\<lparr>wa_pc := A_inline_cas i\<rparr>)"
      by (simp add: wa_await_step_def resume_inline_load_def)
    with wa_move [OF assms(1), of "A_inline_cas i"] assms(2) i show ?thesis by auto
  next
    case False
    with assms(2,3) st have "r = Inr (s\<lparr>wa_pc := A_resume\<rparr>)"
      by (simp add: wa_await_step_def resume_inline_load_def)
    moreover have "\<exists>j. wa_m_status s = Completed j" using st False by (cases "wa_m_status s") auto
    ultimately show ?thesis using wa_move [OF assms(1), of A_resume] assms(2) by auto
  qed
qed

text \<open>Completing the status: every loaded status stays older.\<close>

lemma status_order_complete: "status_order st Processing \<Longrightarrow> status_order st (Completed i)"
  "status_order st Done_processing \<Longrightarrow> status_order st (Completed i)"
  by (cases st; simp)+

lemma wa_step_inline_cas:
  assumes "wa_good s w" "wa_pc s = A_inline_cas i" "wa_exec Awaiter s = Some r"
  shows "wa_safe r"
proof -
  have st: "wa_m_status s \<noteq> Done_processing" using wa_status_active [OF assms(1)] assms(2) by simp
  have i: "i < wa_size s" "wa_producers s i \<noteq> Pr_open"
    using assms(1,2) by (auto simp: wa_good_def wa_inv_def)
  let ?st = "resume_inline_cas i (wa_m_status s)"
  have r: "r = Inr (s\<lparr>wa_m_status := ?st, wa_pc := A_resume\<rparr>)"
    using assms(2,3) by (simp add: wa_await_step_def)
  have "wa_inv (s\<lparr>wa_m_status := ?st, wa_pc := A_resume\<rparr>)"
    using assms(1,2) i st
    by (cases "wa_m_status s")
      (auto simp: wa_good_def wa_inv_def resume_inline_cas_def intro: status_order_complete)
  moreover have "wa_resumer (s\<lparr>wa_m_status := ?st, wa_pc := A_resume\<rparr>) w"
    using assms(1,2) by (auto simp: wa_good_def wa_resumer_def)
  moreover have "wa_heard (s\<lparr>wa_m_status := ?st, wa_pc := A_resume\<rparr>)"
    by (auto simp: wa_heard_def)
  ultimately show ?thesis using r by (auto simp: wa_good_def)
qed

lemma wa_step_finish:
  assumes "wa_good s w" "wa_pc s = A_finish" "wa_exec Awaiter s = Some r"
  shows "wa_safe r"
proof -
  have st: "wa_m_status s \<noteq> Done_processing" using wa_status_active [OF assms(1)] assms(2) by simp
  show ?thesis
  proof (cases "wa_m_status s = Processing")
    case True
    let ?t = "s\<lparr>wa_m_status := Done_processing, wa_pc := A_suspended\<rparr>"
    have "r = Inr ?t" using assms(2,3) True by (simp add: wa_await_step_def finish_processing_def)
    moreover have "status_order x Processing \<Longrightarrow> status_order x Done_processing" for x
      by (cases x) auto
    then have "wa_inv ?t" using assms(1,2) True by (auto simp: wa_good_def wa_inv_def)
    moreover have "w = None" using assms(1,2) by (auto simp: wa_good_def wa_resumer_def)
    then have "wa_resumer ?t None" using assms(1,2) by (auto simp: wa_good_def wa_resumer_def)
    moreover have "wa_heard ?t" using assms(1,2) True by (auto simp: wa_good_def wa_heard_def)
    ultimately show ?thesis by (auto simp: wa_good_def)
  next
    case False
    then have "r = Inr (s\<lparr>wa_pc := A_resume\<rparr>)"
      using assms(2,3) st by (simp add: wa_await_step_def finish_processing_def)
    moreover have "\<exists>j. wa_m_status s = Completed j" using st False by (cases "wa_m_status s") auto
    ultimately show ?thesis using wa_move [OF assms(1), of A_resume] assms(2) by auto
  qed
qed

lemma wa_step_resume:
  assumes "wa_good s w" "wa_pc s = A_resume" "wa_exec Awaiter s = Some r"
  shows "wa_safe r"
proof -
  have "r = Inr (s\<lparr>wa_pc := A_rewind 0 (wa_m_status s) None\<rparr>)"
    using assms(2,3) by (simp add: wa_await_step_def)
  moreover have "\<exists>j. wa_m_status s = Completed j"
    using assms(1,2) by (auto simp: wa_good_def wa_inv_def)
  ultimately show ?thesis
    using wa_move [OF assms(1), of "A_rewind 0 (wa_m_status s) None"] assms(2) by auto
qed

lemma wa_step_rewind:
  assumes "wa_good s w" "wa_pc s = A_rewind i c idx" "wa_exec Awaiter s = Some r"
  shows "wa_safe r"
proof -
  obtain j where j: "c = wa_m_status s" "wa_m_status s = Completed j" "i \<le> wa_size s"
    "idx = (if j < i then Some j else None)" "j < wa_size s"
    using assms(1,2) by (auto simp: wa_good_def wa_inv_def)
  have next_idx: "found_index i c idx = (if j < Suc i then Some j else None)"
    using j by (auto simp: found_index_def less_Suc_eq)
  show ?thesis
  proof (cases "i < wa_size s")
    case True
    show ?thesis
    proof (cases "m_pc_state (wa_states s i) = Consumer_set")
      case False
      then have "r = Inr (s\<lparr>wa_pc := A_rewind (Suc i) c (found_index i c idx)\<rparr>)"
        using assms(2,3) True by (simp add: wa_await_step_def)
      with wa_move [OF assms(1), of "A_rewind (Suc i) c (found_index i c idx)"] assms(2) j True
        next_idx show ?thesis by auto
    next
      case set: True
      then have "r = Inr (s\<lparr>wa_pc := A_rewind_cas i c idx\<rparr>)"
        using assms(2,3) True by (simp add: wa_await_step_def)
      with wa_move [OF assms(1), of "A_rewind_cas i c idx"] assms(2) j True set show ?thesis by auto
    qed
  next
    case False
    then have "idx = Some j" using j by simp
    then have "r = Inr (s\<lparr>wa_pc := A_done j\<rparr>)" using assms(2,3) False by (simp add: wa_await_step_def)
    with wa_move [OF assms(1), of "A_done j"] assms(2) j show ?thesis by auto
  qed
qed

lemma wa_step_rewind_cas:
  assumes "wa_good s w" "wa_pc s = A_rewind_cas i c idx" "wa_exec Awaiter s = Some r"
  shows "wa_safe r"
proof -
  obtain j where j: "c = wa_m_status s" "wa_m_status s = Completed j" "i < wa_size s"
    "idx = (if j < i then Some j else None)" "j < wa_size s"
    using assms(1,2) by (auto simp: wa_good_def wa_inv_def)
  have next_idx: "found_index i c idx = (if j < Suc i then Some j else None)"
    using j by (auto simp: found_index_def less_Suc_eq)
  let ?pc = "A_rewind (Suc i) c (found_index i c idx)"
  have ok: "wa_state_ok (wa_producers s i) (wa_states s i)"
    using assms(1) by (auto simp: wa_good_def wa_inv_def)
  show ?thesis
  proof (cases "m_pc_state (wa_states s i) = Consumer_set")
    case True
    let ?t = "s\<lparr>wa_states := (wa_states s)(i := (wa_states s i)\<lparr>m_pc_state := PC_idle,
                   m_consumer := C_idle\<rparr>), wa_pc := ?pc\<rparr>"
    have "r = Inr ?t"
      using assms(2,3) True
      by (simp add: wa_await_step_def rewind_consumer_def cas_pc_state_def consumer_clear_def)
    moreover have "wa_inv ?t"
      using assms(1,2) True j next_idx ok by (auto simp: wa_good_def wa_inv_def wa_state_ok_def)
    moreover have "wa_resumer ?t w" using assms(1,2) by (auto simp: wa_good_def wa_resumer_def)
    moreover have "wa_heard ?t" by (simp add: wa_heard_def)
    ultimately show ?thesis by (auto simp: wa_good_def)
  next
    case False
    moreover have "m_pc_state (wa_states s i) \<noteq> PC_idle"
      using assms(1,2) by (auto simp: wa_good_def wa_inv_def)
    ultimately have "m_pc_state (wa_states s i) = Producer_done" using ok by (auto simp: wa_state_ok_def)
    then have "r = Inr (s\<lparr>wa_pc := ?pc\<rparr>)"
      using assms(2,3)
      by (simp add: wa_await_step_def rewind_consumer_def cas_pc_state_def assert_done_def)
    with wa_move [OF assms(1), of ?pc] assms(2) j next_idx show ?thesis by auto
  qed
qed

lemma wa_producer_open:
  assumes "wa_good s w" "wa_producers s i = Pr_open" "wa_exec (Producer i) s = Some r"
  shows "wa_safe r"
proof -
  let ?b = "m_pc_state (wa_states s i)"
  let ?t = "(wa_at s i (Pr_act ?b))\<lparr>wa_states := (wa_states s)(i :=
      (wa_states s i)\<lparr>m_done_handle := None, m_pc_state := Producer_done\<rparr>)\<rparr>"
  have ok: "wa_state_ok (wa_producers s i) (wa_states s i)"
    using assms(1) by (auto simp: wa_good_def wa_inv_def)
  then have b: "?b \<noteq> Producer_done" "?b \<in> {PC_idle, Consumer_set}"
    using assms(2) by (auto simp: wa_state_ok_def)
  have "r = Inr ?t"
    using assms(2,3) b(1)
    by (simp add: wa_producer_step_def complete_producer_def split: if_splits)
  moreover have "awaiter_ok (wa_pc s) (wa_m_status s) (wa_size s) ((wa_producers s)(i := Pr_act ?b))"
    using assms(1,2) by (cases "wa_pc s") (auto simp: wa_good_def wa_inv_def)
  then have "wa_inv ?t"
    using assms(1,2) ok b by (auto simp: wa_good_def wa_inv_def wa_state_ok_def wa_at_def)
  moreover have "w \<noteq> Some i" using assms(1,2) by (auto simp: wa_good_def wa_resumer_def dest: spec [of _ i])
  then have "wa_resumer ?t w"
    using assms(1,2) by (auto simp: wa_good_def wa_resumer_def wa_at_def)
  moreover have "wa_heard ?t"
    using assms(1,2) by (auto simp: wa_good_def wa_heard_def wa_published_def wa_at_def)
  ultimately show ?thesis by (auto simp: wa_good_def)
qed

lemma wa_state_ok_at:
  assumes "wa_good s w" "wa_producers s i \<noteq> Pr_open" "p \<noteq> Pr_open" "\<And>b. p \<noteq> Pr_act b"
  shows "\<forall>j. wa_state_ok (((wa_producers s)(i := p)) j) (wa_states s j)"
proof
  fix j
  have "wa_state_ok (wa_producers s j) (wa_states s j)"
    using assms(1) by (simp add: wa_good_def wa_inv_def)
  with assms(2-4) show "wa_state_ok (((wa_producers s)(i := p)) j) (wa_states s j)"
    by (cases "j = i") (auto simp: wa_state_ok_def)
qed

text \<open>Moving a producer that has finished its exchange.\<close>

lemma wa_at_good:
  assumes "wa_good s w" "wa_producers s i \<noteq> Pr_open" "wa_producers s i \<noteq> Pr_coro"
    and "p \<noteq> Pr_open" "p \<noteq> Pr_coro" "\<And>b. p \<noteq> Pr_act b"
    and "\<And>st. p = Pr_cas st \<Longrightarrow> status_order st (wa_m_status s)"
    and "wa_published (wa_producers s i) (wa_states s i) \<Longrightarrow>
           wa_published p (wa_states s i) \<or> (\<exists>j. wa_m_status s = Completed j)"
  shows "wa_good (wa_at s i p) w"
proof -
  have "awaiter_ok (wa_pc s) (wa_m_status s) (wa_size s) ((wa_producers s)(i := p))"
    using assms(1,2,4) by (cases "wa_pc s") (auto simp: wa_good_def wa_inv_def)
  then have "wa_inv (wa_at s i p)"
    using assms(1,2,4,6,7) wa_state_ok_at [OF assms(1,2,4,6)]
    by (auto simp: wa_good_def wa_inv_def wa_at_def)
  moreover have "wa_resumer (wa_at s i p) w"
    using assms(1,3,5) by (auto simp: wa_good_def wa_resumer_def wa_at_def)
  moreover have "wa_heard (wa_at s i p)"
    using assms(1,8) by (auto simp: wa_good_def wa_heard_def wa_at_def)
  ultimately show ?thesis by (simp add: wa_good_def)
qed

lemma wa_producer_act:
  assumes "wa_good s w" "wa_producers s i = Pr_act b" "wa_exec (Producer i) s = Some r"
  shows "wa_safe r"
proof -
  have ok: "wa_state_ok (Pr_act b) (wa_states s i)"
    using assms(1,2) by (auto simp: wa_good_def wa_inv_def dest: spec [of _ i])
  then have b: "b = PC_idle \<or> b = Consumer_set \<and> m_consumer (wa_states s i) = C_when_any 0"
    "m_pc_state (wa_states s i) = Producer_done"
    by (auto simp: wa_state_ok_def)
  from b(1) show ?thesis
  proof
    assume "b = PC_idle"
    then have "r = Inr (wa_at s i Pr_end)"
      using assms(2,3) by (simp add: wa_producer_step_def split: if_splits)
    with wa_at_good [OF assms(1), of i Pr_end] assms(2) b(2) \<open>b = PC_idle\<close> show ?thesis
      by (auto simp: wa_published_def)
  next
    assume c: "b = Consumer_set \<and> m_consumer (wa_states s i) = C_when_any 0"
    then have "r = Inr (wa_at s i Pr_load)"
      using assms(2,3) by (simp add: wa_producer_step_def split: if_splits)
    with wa_at_good [OF assms(1), of i Pr_load] assms(2) show ?thesis
      by (auto simp: wa_published_def)
  qed
qed

lemma status_order_refl: "status_order st st"
  by (cases st) auto

lemma wa_producer_load:
  assumes "wa_good s w" "wa_producers s i = Pr_load" "wa_exec (Producer i) s = Some r"
  shows "wa_safe r"
proof -
  have "r = Inr (wa_at s i (Pr_cas (wa_m_status s)))"
    using assms(2,3) by (simp add: wa_producer_step_def split: if_splits)
  with wa_at_good [OF assms(1), of i "Pr_cas (wa_m_status s)"] assms(2) show ?thesis
    by (auto simp: wa_published_def status_order_refl)
qed

text \<open>The two exchanges of \<^verbatim>\<open>try_resume\<close> that succeed.\<close>

lemma wa_complete_processing:
  assumes "wa_good s w" "wa_producers s i = Pr_cas Processing" "i < wa_size s"
    and "wa_m_status s = Processing"
  shows "wa_good ((wa_at s i Pr_end)\<lparr>wa_m_status := Completed i\<rparr>) w"
proof -
  have w: "wa_pc s \<noteq> A_suspended" using assms(1,4) by (auto simp: wa_good_def wa_inv_def)
  have "awaiter_ok (wa_pc s) (Completed i) (wa_size s) ((wa_producers s)(i := Pr_end))"
    using assms(1,4) w by (cases "wa_pc s") (auto simp: wa_good_def wa_inv_def)
  then have "wa_inv ((wa_at s i Pr_end)\<lparr>wa_m_status := Completed i\<rparr>)"
    using assms w wa_state_ok_at [OF assms(1), of i Pr_end]
    by (auto simp: wa_good_def wa_inv_def wa_at_def intro: status_order_complete)
  moreover have "wa_resumer ((wa_at s i Pr_end)\<lparr>wa_m_status := Completed i\<rparr>) w"
    using assms(1,2) w by (auto simp: wa_good_def wa_resumer_def wa_at_def)
  ultimately show ?thesis by (auto simp: wa_good_def wa_heard_def wa_at_def)
qed

lemma wa_complete_done:
  assumes "wa_good s w" "wa_producers s i = Pr_cas Done_processing" "i < wa_size s"
    and "wa_m_status s = Done_processing"
  shows "wa_good ((wa_at s i Pr_coro)\<lparr>wa_m_status := Completed i\<rparr>) (Some i)"
proof -
  have pc: "wa_pc s = A_suspended" using assms(1,4) by (auto simp: wa_good_def wa_inv_def)
  have w: "w = None" using assms(1,4) by (auto simp: wa_good_def wa_resumer_def)
  have "wa_inv ((wa_at s i Pr_coro)\<lparr>wa_m_status := Completed i\<rparr>)"
    using assms pc wa_state_ok_at [OF assms(1), of i Pr_coro]
    by (auto simp: wa_good_def wa_inv_def wa_at_def intro: status_order_complete)
  moreover have "wa_resumer ((wa_at s i Pr_coro)\<lparr>wa_m_status := Completed i\<rparr>) (Some i)"
    using assms pc w by (auto simp: wa_good_def wa_resumer_def wa_at_def)
  ultimately show ?thesis by (auto simp: wa_good_def wa_heard_def wa_at_def)
qed

lemma wa_producer_cas:
  assumes "wa_good s w" "wa_producers s i = Pr_cas l" "wa_exec (Producer i) s = Some r"
  shows "wa_safe r"
proof -
  have i: "i < wa_size s" using assms(3) by (auto split: if_splits)
  have ord: "status_order l (wa_m_status s)" using assms(1,2) by (auto simp: wa_good_def wa_inv_def)
  have bail: "wa_good (wa_at s i Pr_end) w" if "\<exists>j. wa_m_status s = Completed j"
    using wa_at_good [OF assms(1), of i Pr_end] assms(2) that by auto
  have same: "(wa_at s i p)\<lparr>wa_m_status := wa_m_status s\<rparr> = wa_at s i p" for p
    by (simp add: wa_at_def)
  show ?thesis
  proof (cases l)
    case Processing
    show ?thesis
    proof (cases "wa_m_status s = Processing")
      case True
      with wa_complete_processing [OF assms(1), of i] assms(2,3) Processing i show ?thesis
        by (auto simp: wa_producer_step_def try_resume_turn_def)
    next
      case False
      then have "r = Inr (wa_at s i Pr_load)"
        using assms(2,3) Processing i same by (simp add: wa_producer_step_def try_resume_turn_def)
      with wa_at_good [OF assms(1), of i Pr_load] assms(2) show ?thesis
        by (auto simp: wa_published_def)
    qed
  next
    case Done_processing
    show ?thesis
    proof (cases "wa_m_status s = Done_processing")
      case True
      with wa_complete_done [OF assms(1), of i] assms(2,3) Done_processing i show ?thesis
        by (auto simp: wa_producer_step_def try_resume_turn_def)
    next
      case False
      then have "r = Inr (wa_at s i Pr_end)"
        using assms(2,3) Done_processing i same
        by (simp add: wa_producer_step_def try_resume_turn_def)
      moreover have "\<exists>j. wa_m_status s = Completed j"
        using ord False Done_processing by (cases "wa_m_status s") auto
      ultimately show ?thesis using bail by auto
    qed
  next
    case (Completed j)
    then have "r = Inr (wa_at s i Pr_end)"
      using assms(2,3) i same by (simp add: wa_producer_step_def try_resume_turn_def)
    with bail ord Completed show ?thesis by auto
  qed
qed

lemma wa_producer_coro:
  assumes "wa_good s w" "wa_producers s i = Pr_coro" "wa_exec (Producer i) s = Some r"
  shows "wa_safe r"
proof -
  have w: "w = Some i" "wa_pc s = A_suspended" "wa_m_status s \<noteq> Done_processing"
    using assms(1,2) by (auto simp: wa_good_def wa_resumer_def)
  have st: "\<exists>j. wa_m_status s = Completed j"
    using assms(1) w by (cases "wa_m_status s") (auto simp: wa_good_def wa_inv_def)
  let ?t = "(wa_at s i Pr_end)\<lparr>wa_pc := A_resume\<rparr>"
  have "r = Inr ?t" using assms(2,3) w by (simp add: wa_producer_step_def split: if_splits)
  moreover have "wa_inv ?t"
    using assms(1,2) st w wa_state_ok_at [OF assms(1), of i Pr_end]
    by (auto simp: wa_good_def wa_inv_def wa_at_def)
  moreover have "wa_resumer ?t None"
    using assms(1) w by (auto simp: wa_good_def wa_resumer_def wa_at_def)
  moreover have "wa_heard ?t" using st by (auto simp: wa_heard_def wa_at_def)
  ultimately show ?thesis by (auto simp: wa_good_def)
qed

lemma wa_exec_safe:
  assumes "wa_good s w" "wa_exec e s = Some r"
  shows "wa_safe r"
proof (cases e)
  case Awaiter
  with assms show ?thesis
    using wa_step_check wa_step_load wa_step_set wa_step_cas wa_step_inline wa_step_inline_cas
      wa_step_finish wa_step_resume wa_step_rewind wa_step_rewind_cas
    by (cases "wa_pc s") (blast | simp add: wa_await_step_def)+
next
  case (Producer i)
  then have ex: "wa_exec (Producer i) s = Some r" using assms(2) by simp
  show ?thesis
  proof (cases "wa_producers s i")
    case Pr_open
    with wa_producer_open [OF assms(1) _ ex] show ?thesis by simp
  next
    case (Pr_act b)
    with wa_producer_act [OF assms(1) _ ex] show ?thesis by simp
  next
    case Pr_load
    with wa_producer_load [OF assms(1) _ ex] show ?thesis by simp
  next
    case (Pr_cas l)
    with wa_producer_cas [OF assms(1) _ ex] show ?thesis by simp
  next
    case Pr_coro
    with wa_producer_coro [OF assms(1) _ ex] show ?thesis by simp
  next
    case Pr_end
    with ex show ?thesis by (simp add: wa_producer_step_def split: if_splits)
  qed
qed

lemma wa_reachable_good: "wa_reachable n s \<Longrightarrow> \<exists>w. wa_good s w"
proof (induction rule: wa_reachable.induct)
  case wa_start
  then show ?case using wa_inv_init wa_resumer_init wa_heard_init by (auto simp: wa_good_def)
next
  case (wa_next s e t)
  then obtain w where "wa_good s w" by blast
  with wa_exec_safe wa_next.hyps(2) show ?case by fastforce
qed

text \<open>C11: \<^verbatim>\<open>when_any\<close> never fails and returns a finished result.  For every number of results and every
  interleaving with their producers, no assertion of the source fails and the waiting coroutine
  is never resumed while it is running; the index it returns is that of a result whose producer
  has published.\<close>

theorem when_any_sound:
  assumes "wa_reachable n s"
  shows "(\<forall>e r. wa_exec e s = Some r \<longrightarrow> (\<exists>t. r = Inr t)) \<and>
         (\<forall>k. wa_pc s = A_done k \<longrightarrow> k < wa_size s \<and> m_pc_state (wa_states s k) = Producer_done)"
proof -
  from wa_reachable_good [OF assms] obtain w where g: "wa_good s w" by blast
  have "\<exists>t. r = Inr t" if "wa_exec e s = Some r" for e r
    using wa_exec_safe [OF g that] by (cases r) auto
  moreover have "k < wa_size s \<and> m_pc_state (wa_states s k) = Producer_done"
    if "wa_pc s = A_done k" for k
  proof -
    have "wa_m_status s = Completed k" using g that by (simp add: wa_good_def wa_inv_def)
    then have "k < wa_size s" "wa_producers s k \<noteq> Pr_open" "wa_state_ok (wa_producers s k) (wa_states s k)"
      using g by (auto simp: wa_good_def wa_inv_def)
    then show ?thesis by (auto simp: wa_state_ok_def)
  qed
  ultimately show ?thesis by blast
qed

fun wa_run :: "wa_event list \<Rightarrow> wa_sys \<Rightarrow> wa_sys outcome option" where
  "wa_run [] s = Some (Inr s)"
| "wa_run (e # es) s =
     (case wa_exec e s of None \<Rightarrow> None | Some (Inl x) \<Rightarrow> Some (Inl x) | Some (Inr t) \<Rightarrow> wa_run es t)"

lemma wa_run_reachable: "wa_run es s = Some (Inr t) \<Longrightarrow> wa_reachable n s \<Longrightarrow> wa_reachable n t"
  by (induction es arbitrary: s) (auto split: option.splits sum.splits intro: wa_next)

lemmas wa_eval_defs = wa_init_def wa_await_step_def wa_producer_step_def any_result_finished_def
  finish_processing_def try_resume_turn_def publish_consumer_def cas_pc_state_def assert_done_def
  set_when_any_context_def result_state_init_def complete_producer_def wa_at_def
  found_index_def rewind_consumer_def consumer_clear_def Let_def

text \<open>Two results, the second of which is published and picked up by the coroutine.\<close>

definition wa_demo_run :: "wa_event list" where
  "wa_demo_run =
     replicate 8 Awaiter @ [Awaiter, Awaiter] @ replicate 5 (Producer 1) @ replicate 5 Awaiter"

definition wa_demo :: wa_sys where
  "wa_demo = (case wa_run wa_demo_run (wa_init 2) of Some (Inr t) \<Rightarrow> t | _ \<Rightarrow> wa_init 2)"

lemma wa_demo_eq: "wa_run wa_demo_run (wa_init 2) = Some (Inr wa_demo)"
  by (simp add: wa_demo_def wa_demo_run_def wa_eval_defs numeral_eq_Suc)

lemma wa_demo_pc: "wa_pc wa_demo = A_done 1"
  by (simp add: wa_demo_def wa_demo_run_def wa_eval_defs numeral_eq_Suc)

theorem when_any_sound_witness:
  "wa_pc wa_demo = A_done 1 \<and> m_pc_state (wa_states wa_demo 1) = Producer_done"
  using when_any_sound [OF wa_run_reachable [OF wa_demo_eq wa_start]] wa_demo_pc by simp

text \<open>A wake-up is lost only through a failed exchange.  If the coroutine of \<^verbatim>\<open>when_any\<close> stays
  suspended after all its producers have finished, then for some result the producer published
  between the load and the exchange of \<^verbatim>\<open>result_state_base::when_any\<close>.\<close>

lemma when_any_lost_only_if_missed:
  assumes "wa_reachable n s" "0 < wa_size s" "wa_pc s = A_suspended"
    and "\<forall>i < wa_size s. wa_producers s i = Pr_end"
  shows "wa_missed s"
proof -
  from wa_reachable_good [OF assms(1)] obtain w where g: "wa_good s w" by blast
  have "w = None"
  proof (rule ccontr)
    assume "w \<noteq> None"
    then obtain a where "w = Some a" by blast
    then have "a < wa_size s" "wa_producers s a = Pr_coro" using g by (auto simp: wa_good_def wa_resumer_def)
    with assms(4) show False by simp
  qed
  then have "wa_m_status s = Done_processing" using g assms(3) by (auto simp: wa_good_def wa_resumer_def)
  moreover have "\<not> wa_published (wa_producers s 0) (wa_states s 0)"
  proof -
    have "wa_state_ok (wa_producers s 0) (wa_states s 0)"
      using g by (simp add: wa_good_def wa_inv_def)
    moreover have "wa_producers s 0 = Pr_end" using assms(2,4) by simp
    ultimately show ?thesis by (auto simp: wa_state_ok_def wa_published_def)
  qed
  ultimately show ?thesis using g assms(2,3) by (auto simp: wa_good_def wa_heard_def)
qed

text \<open>One result, published between the load and the exchange.\<close>

definition wa_lost_run :: "wa_event list" where
  "wa_lost_run =
     [Awaiter, Awaiter, Awaiter, Producer 0, Producer 0, Awaiter, Awaiter, Awaiter]"

definition wa_lost :: wa_sys where
  "wa_lost = (case wa_run wa_lost_run (wa_init 1) of Some (Inr t) \<Rightarrow> t | _ \<Rightarrow> wa_init 1)"

lemma wa_lost_eq: "wa_run wa_lost_run (wa_init 1) = Some (Inr wa_lost)"
  by (simp add: wa_lost_def wa_lost_run_def wa_eval_defs)

lemma wa_lost_facts:
  "wa_pc wa_lost = A_suspended" "wa_size wa_lost = 1" "wa_producers wa_lost 0 = Pr_end"
  by (simp_all add: wa_lost_def wa_lost_run_def wa_eval_defs)

lemma when_any_lost_only_if_missed_witness: "wa_missed wa_lost"
  using when_any_lost_only_if_missed [OF wa_run_reachable [OF wa_lost_eq wa_start]]
  by (simp add: wa_lost_facts)

text \<open>C12: the wake-up can be lost.  With a single result there is a run after which the result is
  ready and its producer has finished while the coroutine of \<^verbatim>\<open>when_any\<close> is suspended and no
  step of the system is enabled any more.\<close>

theorem when_any_lost_wakeup:
  "\<exists>s. wa_run wa_lost_run (wa_init 1) = Some (Inr s) \<and> wa_pc s = A_suspended \<and>
       m_pc_state (wa_states s 0) = Producer_done \<and> (\<forall>e. wa_exec e s = None)"
proof (intro exI conjI allI)
  show "wa_run wa_lost_run (wa_init 1) = Some (Inr wa_lost)" by (rule wa_lost_eq)
  show "wa_pc wa_lost = A_suspended" by (rule wa_lost_facts)
  show "m_pc_state (wa_states wa_lost 0) = Producer_done"
    by (simp add: wa_lost_def wa_lost_run_def wa_eval_defs)
  show "wa_exec e wa_lost = None" for e
    by (cases e) (auto simp: wa_lost_facts wa_await_step_def wa_producer_step_def)
qed

end
