(* ===== verification/When_All.thy ===== *)
theory When_All
  imports When_Any
begin

text \<open>
  The entry points \<^verbatim>\<open>when_any\<close> and \<^verbatim>\<open>when_all\<close> of \<^verbatim>\<open>results/when_result.h\<close> with their argument
  checks, and the coroutine of \<^verbatim>\<open>when_all\<close>.
\<close>

section \<open>Entry points\<close>

definition throw_if_empty_range :: "string \<Rightarrow> bool list \<Rightarrow> unit outcome" where
  "throw_if_empty_range msg results = (if list_all id results then Inr () else Inl (Empty_result msg))"

text \<open>The checks of \<^verbatim>\<open>when_any\<close> on a range (and of the tuple overload, which cannot be empty):
  \<open>results\<close> tells which result objects are non-empty.\<close>

definition when_any :: "addr option \<Rightarrow> bool list \<Rightarrow> wa_sys outcome" where
  "when_any resume_executor results =
     bind_outcome (throw_if_empty_range k_when_any_empty_result_error_msg results) (\<lambda>_.
       if results = [] then Inl (Invalid_argument k_when_any_empty_range_error_msg)
       else if resume_executor = None
       then Inl (Invalid_argument k_when_any_null_resume_executor_error_msg)
       else Inr (wa_init (length results)))"

section \<open>\<open>when_all\<close>\<close>

text \<open>The coroutine of \<^verbatim>\<open>when_all_impl\<close> awaits the results one after the other.  \<^verbatim>\<open>await\<close> and
  \<^verbatim>\<open>complete_producer\<close> are single steps here; their interleaving is in \<open>Result_Protocol\<close>.\<close>

record wall_sys =
  wl_size :: nat
  wl_states :: "nat \<Rightarrow> unit result_state"
  wl_pos :: nat
  wl_suspended :: bool

definition when_all :: "addr option \<Rightarrow> bool list \<Rightarrow> wall_sys outcome" where
  "when_all resume_executor results =
     bind_outcome (throw_if_empty_range k_when_all_empty_result_error_msg results) (\<lambda>_.
       if resume_executor = None
       then Inl (Invalid_argument k_when_all_null_resume_executor_error_msg)
       else Inr \<lparr>wl_size = length results, wl_states = (\<lambda>_. result_state_init), wl_pos = 0,
                 wl_suspended = False\<rparr>)"

datatype wall_event = Wl_await | Wl_produce nat

fun wl_exec :: "wall_event \<Rightarrow> wall_sys \<Rightarrow> wall_sys outcome option" where
  "wl_exec Wl_await s =
     (if \<not> wl_suspended s \<and> wl_pos s < wl_size s
      then Some (bind_outcome (result_state_await (wl_states s (wl_pos s)) 0) (\<lambda>(suspend, r).
             Inr (s\<lparr>wl_states := (wl_states s)(wl_pos s := r), wl_suspended := suspend,
                    wl_pos := if suspend then wl_pos s else Suc (wl_pos s)\<rparr>)))
      else None)"
| "wl_exec (Wl_produce i) s =
     (if i < wl_size s \<and> m_pc_state (wl_states s i) \<noteq> Producer_done
      then Some (bind_outcome (complete_producer (wl_states s i) None) (\<lambda>(before, r).
             let s' = s\<lparr>wl_states := (wl_states s)(i := r)\<rparr> in
             if before = Consumer_set
             then (case resume_consumer (m_consumer r) of
                     Resume_coroutine h \<Rightarrow>
                       (if wl_suspended s
                        then Inr (s'\<lparr>wl_suspended := False, wl_pos := Suc (wl_pos s)\<rparr>)
                        else Inl (Undefined_behaviour ''resumed a coroutine that is not suspended''))
                   | _ \<Rightarrow> Inr s')
             else Inr s'))
      else None)"

inductive wl_reachable :: "wall_sys \<Rightarrow> bool" where
  wl_start: "when_all ex results = Inr s \<Longrightarrow> wl_reachable s"
| wl_next: "wl_reachable s \<Longrightarrow> wl_exec e s = Some (Inr t) \<Longrightarrow> wl_reachable t"

definition wl_inv :: "wall_sys \<Rightarrow> bool" where
  "wl_inv s \<longleftrightarrow>
     wl_pos s \<le> wl_size s \<and>
     (\<forall>i < wl_pos s. m_pc_state (wl_states s i) = Producer_done) \<and>
     (\<forall>i > wl_pos s. m_pc_state (wl_states s i) \<in> {PC_idle, Producer_done} \<and>
                     m_consumer (wl_states s i) = C_idle) \<and>
     (if wl_suspended s
      then wl_pos s < wl_size s \<and> m_pc_state (wl_states s (wl_pos s)) = Consumer_set \<and>
           m_consumer (wl_states s (wl_pos s)) = C_await 0
      else m_pc_state (wl_states s (wl_pos s)) \<in> {PC_idle, Producer_done} \<and>
           m_consumer (wl_states s (wl_pos s)) = C_idle)"

lemma wl_inv_await:
  assumes "wl_inv s" "wl_exec Wl_await s = Some r"
  shows "\<exists>t. r = Inr t \<and> wl_inv t"
proof -
  let ?p = "wl_pos s"
  have k: "\<not> wl_suspended s" "?p < wl_size s" using assms(2) by (auto split: if_splits)
  then have st: "m_pc_state (wl_states s ?p) \<in> {PC_idle, Producer_done}"
    "m_consumer (wl_states s ?p) = C_idle" using assms(1) by (auto simp: wl_inv_def)
  show ?thesis
  proof (cases "m_pc_state (wl_states s ?p) = Producer_done")
    case True
    then have "r = Inr (s\<lparr>wl_suspended := False, wl_pos := Suc ?p\<rparr>)"
      using assms(2) k by (simp add: result_state_await_def)
    moreover have "wl_inv (s\<lparr>wl_suspended := False, wl_pos := Suc ?p\<rparr>)"
      using assms(1) k True by (auto simp: wl_inv_def less_Suc_eq)
    ultimately show ?thesis by blast
  next
    case False
    let ?t = "s\<lparr>wl_states := (wl_states s)(?p := (wl_states s ?p)\<lparr>m_consumer := C_await 0,
                 m_pc_state := Consumer_set\<rparr>), wl_suspended := True\<rparr>"
    have "r = Inr ?t"
      using assms(2) k st False
      by (simp add: result_state_await_def set_await_handle_def publish_consumer_def cas_pc_state_def)
    moreover have "wl_inv ?t" using assms(1) k by (auto simp: wl_inv_def)
    ultimately show ?thesis by blast
  qed
qed

lemma wl_inv_produce:
  assumes "wl_inv s" "wl_exec (Wl_produce i) s = Some r"
  shows "\<exists>t. r = Inr t \<and> wl_inv t"
proof -
  let ?r = "(wl_states s i)\<lparr>m_done_handle := None, m_pc_state := Producer_done\<rparr>"
  have k: "i < wl_size s" "m_pc_state (wl_states s i) \<noteq> Producer_done"
    using assms(2) by (auto split: if_splits)
  have i: "wl_pos s \<le> i" using assms(1) k(2) by (auto simp: wl_inv_def not_less [symmetric])
  show ?thesis
  proof (cases "wl_suspended s \<and> i = wl_pos s")
    case True
    let ?t = "s\<lparr>wl_states := (wl_states s)(i := ?r), wl_suspended := False, wl_pos := Suc i\<rparr>"
    have "r = Inr ?t"
      using assms k True by (simp add: complete_producer_def wl_inv_def Let_def)
    moreover have "wl_inv ?t" using assms(1) k True by (auto simp: wl_inv_def less_Suc_eq)
    ultimately show ?thesis by blast
  next
    case False
    let ?t = "s\<lparr>wl_states := (wl_states s)(i := ?r)\<rparr>"
    have "m_pc_state (wl_states s i) = PC_idle"
      using assms(1) k i False
      by (cases "i = wl_pos s") (auto simp: wl_inv_def dest: spec [of _ i] split: if_splits)
    then have "r = Inr ?t" using assms(2) k by (simp add: complete_producer_def)
    moreover have "wl_inv ?t" using assms(1) k False by (auto simp: wl_inv_def)
    ultimately show ?thesis by blast
  qed
qed

lemma wl_inv_exec: "wl_inv s \<Longrightarrow> wl_exec e s = Some r \<Longrightarrow> \<exists>t. r = Inr t \<and> wl_inv t"
  using wl_inv_await wl_inv_produce by (cases e) blast+

lemma wl_reachable_inv: "wl_reachable s \<Longrightarrow> wl_inv s"
proof (induction rule: wl_reachable.induct)
  case (wl_start ex results s)
  then show ?case
    by (auto simp: when_all_def wl_inv_def result_state_init_def bind_outcome_Inr_iff split: if_splits)
next
  case (wl_next s e t)
  with wl_inv_exec show ?case by blast
qed

text \<open>C13: \<^verbatim>\<open>when_all\<close> finishes exactly with all its results.  No step fails; once the coroutine is past
  the last result every result is ready; and when all results are ready it is not suspended and
  can go on until it is past the last one.\<close>

theorem when_all_complete:
  assumes "wl_reachable s"
  shows "(\<forall>e r. wl_exec e s = Some r \<longrightarrow> (\<exists>t. r = Inr t)) \<and>
         (wl_pos s = wl_size s \<longrightarrow> (\<forall>i < wl_size s. m_pc_state (wl_states s i) = Producer_done)) \<and>
         ((\<forall>i < wl_size s. m_pc_state (wl_states s i) = Producer_done) \<longrightarrow>
            wl_pos s = wl_size s \<or>
            \<not> wl_suspended s \<and>
            wl_exec Wl_await s = Some (Inr (s\<lparr>wl_suspended := False, wl_pos := Suc (wl_pos s)\<rparr>)))"
proof (intro conjI allI impI)
  note inv = wl_reachable_inv [OF assms]
  show "\<exists>t. r = Inr t" if "wl_exec e s = Some r" for e r using wl_inv_exec [OF inv that] by blast
  show "m_pc_state (wl_states s i) = Producer_done" if "wl_pos s = wl_size s" "i < wl_size s" for i
    using inv that by (auto simp: wl_inv_def)
  show "wl_pos s = wl_size s \<or> \<not> wl_suspended s \<and>
      wl_exec Wl_await s = Some (Inr (s\<lparr>wl_suspended := False, wl_pos := Suc (wl_pos s)\<rparr>))"
    if "\<forall>i < wl_size s. m_pc_state (wl_states s i) = Producer_done"
    using inv that by (auto simp: wl_inv_def result_state_await_def split: if_splits)
qed

definition wl_demo :: wall_sys where
  "wl_demo = \<lparr>wl_size = 1, wl_states = (\<lambda>_. result_state_init)(0 := result_state_init\<lparr>m_pc_state :=
      Producer_done\<rparr>), wl_pos = 0, wl_suspended = False\<rparr>"

lemma wl_demo_reachable: "wl_reachable wl_demo"
proof -
  have "wl_reachable \<lparr>wl_size = 1, wl_states = (\<lambda>_. result_state_init), wl_pos = 0,
      wl_suspended = False\<rparr>"
    by (rule wl_start [of "Some 1" "[True]"]) (simp add: when_all_def throw_if_empty_range_def)
  then show ?thesis
    by (rule wl_next [of _ "Wl_produce 0"])
      (simp add: complete_producer_def result_state_init_def wl_demo_def)
qed

theorem when_all_complete_witness:
  "wl_exec Wl_await wl_demo = Some (Inr (wl_demo\<lparr>wl_pos := 1\<rparr>))"
  using when_all_complete [OF wl_demo_reachable] by (simp add: wl_demo_def)

text \<open>The entry points reject empty results, an empty range and a missing executor, in that order.\<close>

lemma when_any_arguments:
  "when_any ex [] = Inl (Invalid_argument k_when_any_empty_range_error_msg) \<and>
   when_any ex (xs @ False # ys) = Inl (Empty_result k_when_any_empty_result_error_msg) \<and>
   when_any None (replicate (Suc n) True) = Inl (Invalid_argument k_when_any_null_resume_executor_error_msg) \<and>
   when_any (Some e) (replicate (Suc n) True) = Inr (wa_init (Suc n)) \<and>
   when_all ex (xs @ False # ys) = Inl (Empty_result k_when_all_empty_result_error_msg) \<and>
   when_all None (replicate n True) = Inl (Invalid_argument k_when_all_null_resume_executor_error_msg)"
  by (simp add: when_any_def when_all_def throw_if_empty_range_def list_all_iff)

end
