(* ===== verification/Shared_Result.thy ===== *)
theory Shared_Result
  imports Slist Result_State
begin

text \<open>
  \<^verbatim>\<open>shared_result_state\<close> (\<^verbatim>\<open>results/impl/shared_result_state.h\<close> and \<^verbatim>\<open>.cpp\<close>) and the handle
  \<^verbatim>\<open>shared_result\<close>: any number of coroutines register in a lock-free stack, and the
  completion of the result takes the stack, reverses it in place and resumes them.  The stack
  nodes live in the coroutine frames, so a node must not be touched once its owner was resumed.
\<close>

section \<open>The stack of awaiters\<close>

datatype awaiters = Result_ready | Awaiters "addr option"

datatype await_pc =
  Sa_idle | Sa_loaded "addr option" | Sa_linked "addr option" | Sa_suspended | Sa_resumed | Sa_ready

text \<open>Program points of \<^verbatim>\<open>on_result_finished\<close>: before the status is stored, before the exchange,
  in the reversal loop (\<^verbatim>\<open>current\<close>, \<^verbatim>\<open>prev\<close>), in the resumption loop, done.\<close>

datatype finish_pc =
  F_store | F_exchange | F_reverse "addr option" "addr option" | F_resume "addr option" | F_end

record sh_sys =
  sh_status :: result_status
  sh_awaiters :: awaiters
  sh_next :: next_heap
  sh_pc :: "addr \<Rightarrow> await_pc"
  sh_fin :: finish_pc
  sh_log :: "addr list"
  sh_resumed :: "addr list"

text \<open>\<open>sh_log\<close> and \<open>sh_resumed\<close> record the order of registration and of resumption.\<close>

definition sh_init :: sh_sys where
  "sh_init =
     \<lparr>sh_status = RS_idle, sh_awaiters = Awaiters None, sh_next = (\<lambda>_. None),
      sh_pc = (\<lambda>_. Sa_idle), sh_fin = F_store, sh_log = [], sh_resumed = []\<rparr>"

text \<open>One access of the registration loop of awaiter \<open>i\<close>; \<open>weak\<close> is a spurious failure of the
  weak exchange.\<close>

definition shared_await_step :: "bool \<Rightarrow> addr \<Rightarrow> sh_sys \<Rightarrow> sh_sys option" where
  "shared_await_step weak i s =
     (case sh_pc s i of
        Sa_idle \<Rightarrow> Some (case sh_awaiters s of
            Result_ready \<Rightarrow> s\<lparr>sh_pc := (sh_pc s)(i := Sa_ready)\<rparr>
          | Awaiters tp \<Rightarrow> s\<lparr>sh_pc := (sh_pc s)(i := Sa_loaded tp)\<rparr>)
      | Sa_loaded before \<Rightarrow>
          Some (s\<lparr>sh_next := (sh_next s)(i := before), sh_pc := (sh_pc s)(i := Sa_linked before)\<rparr>)
      | Sa_linked before \<Rightarrow>
          Some (if sh_awaiters s = Awaiters before \<and> \<not> weak
                then s\<lparr>sh_awaiters := Awaiters (Some i), sh_pc := (sh_pc s)(i := Sa_suspended),
                       sh_log := sh_log s @ [i]\<rparr>
                else s\<lparr>sh_pc := (sh_pc s)(i := Sa_idle)\<rparr>)
      | _ \<Rightarrow> None)"

text \<open>Access to the node of an awaiter by the finisher.\<close>

definition node_access :: "sh_sys \<Rightarrow> addr \<Rightarrow> (addr option \<Rightarrow> 'b outcome) \<Rightarrow> 'b outcome" where
  "node_access s i f =
     (if sh_pc s i = Sa_suspended then f (sh_next s i)
      else Inl (Undefined_behaviour ''await context used after its coroutine was resumed''))"

text \<open>One access of \<^verbatim>\<open>on_result_finished\<close>, \<open>st\<close> being the status of the finished result.\<close>

definition on_result_finished_step :: "result_status \<Rightarrow> sh_sys \<Rightarrow> sh_sys outcome option" where
  "on_result_finished_step st s =
     (case sh_fin s of
        F_store \<Rightarrow> Some (Inr (s\<lparr>sh_status := st, sh_fin := F_exchange\<rparr>))
      | F_exchange \<Rightarrow>
          Some (case sh_awaiters s of
              Awaiters tp \<Rightarrow> Inr (s\<lparr>sh_awaiters := Result_ready, sh_fin := F_reverse tp None\<rparr>)
            | Result_ready \<Rightarrow> Inl (Undefined_behaviour ''on_result_finished called twice''))
      | F_reverse current prev \<Rightarrow>
          Some (case current of
              None \<Rightarrow> Inr (s\<lparr>sh_fin := F_resume prev\<rparr>)
            | Some c \<Rightarrow> node_access s c (\<lambda>nxt.
                Inr (s\<lparr>sh_next := (sh_next s)(c := prev), sh_fin := F_reverse nxt (Some c)\<rparr>)))
      | F_resume p \<Rightarrow>
          Some (case p of
              None \<Rightarrow> Inr (s\<lparr>sh_fin := F_end\<rparr>)
            | Some c \<Rightarrow> node_access s c (\<lambda>nxt.
                Inr (s\<lparr>sh_fin := F_resume nxt, sh_pc := (sh_pc s)(c := Sa_resumed),
                       sh_resumed := sh_resumed s @ [c]\<rparr>)))
      | F_end \<Rightarrow> None)"

text \<open>The result calls this when its producer has published, so its status is not idle.\<close>

datatype sh_event = Await_step bool addr | Finish_step result_status

fun sh_exec :: "sh_event \<Rightarrow> sh_sys \<Rightarrow> sh_sys outcome option" where
  "sh_exec (Await_step weak i) s = map_option Inr (shared_await_step weak i s)"
| "sh_exec (Finish_step st) s = (if st = RS_idle then None else on_result_finished_step st s)"

inductive sh_reachable :: "sh_sys \<Rightarrow> bool" where
  sh_start: "sh_reachable sh_init"
| sh_next_step: "sh_reachable s \<Longrightarrow> sh_exec e s = Some (Inr t) \<Longrightarrow> sh_reachable t"

section \<open>The invariant\<close>

text \<open>\<open>ys\<close> is what is still to be reversed (newest first), \<open>zs\<close> what is in order (oldest first).\<close>

definition sh_shape :: "sh_sys \<Rightarrow> addr list \<Rightarrow> addr list \<Rightarrow> bool" where
  "sh_shape s ys zs \<longleftrightarrow>
     (case sh_fin s of
        F_reverse current prev \<Rightarrow>
          sh_awaiters s = Result_ready \<and> chain (sh_next s) current ys \<and> chain (sh_next s) prev zs
      | F_resume p \<Rightarrow> sh_awaiters s = Result_ready \<and> ys = [] \<and> chain (sh_next s) p zs
      | F_end \<Rightarrow> sh_awaiters s = Result_ready \<and> ys = [] \<and> zs = []
      | _ \<Rightarrow> zs = [] \<and> sh_resumed s = [] \<and>
             (\<exists>tp. sh_awaiters s = Awaiters tp \<and> chain (sh_next s) tp ys))"

definition sh_inv :: "sh_sys \<Rightarrow> addr list \<Rightarrow> addr list \<Rightarrow> bool" where
  "sh_inv s ys zs \<longleftrightarrow>
     sh_shape s ys zs \<and> distinct (ys @ zs) \<and>
     set ys \<union> set zs = {i. sh_pc s i = Sa_suspended} \<and>
     (\<forall>i b. sh_pc s i = Sa_linked b \<longrightarrow> sh_next s i = b) \<and>
     sh_log s = sh_resumed s @ rev ys @ zs \<and>
     (\<forall>c p. sh_fin s = F_reverse c p \<longrightarrow> sh_resumed s = []) \<and>
     (sh_fin s = F_store \<longleftrightarrow> sh_status s = RS_idle)"

lemma sh_inv_init: "sh_inv sh_init [] []"
  by (auto simp: sh_inv_def sh_shape_def sh_init_def)

text \<open>Awaiters change only nodes and program points outside the stack.\<close>

lemma sh_shape_upd:
  assumes "sh_shape s ys zs" "i \<notin> set ys" "i \<notin> set zs"
  shows "sh_shape (s\<lparr>sh_next := (sh_next s)(i := v), sh_pc := pc\<rparr>) ys zs"
    and "sh_shape (s\<lparr>sh_pc := pc\<rparr>) ys zs"
  using assms by (cases "sh_fin s"; simp add: sh_shape_def)+

lemma sh_inv_outside: "sh_inv s ys zs \<Longrightarrow> sh_pc s i \<noteq> Sa_suspended \<Longrightarrow> i \<notin> set ys \<and> i \<notin> set zs"
  unfolding sh_inv_def by blast

lemma sh_inv_await:
  assumes "sh_inv s ys zs" "shared_await_step weak i s = Some t"
  shows "\<exists>ys'. sh_inv t ys' zs"
proof (cases "sh_pc s i")
  case Sa_idle
  then have i: "i \<notin> set ys" "i \<notin> set zs" using sh_inv_outside [OF assms(1)] by auto
  obtain p where "t = s\<lparr>sh_pc := (sh_pc s)(i := p)\<rparr>" "p = Sa_ready \<or> (\<exists>b. p = Sa_loaded b)"
    using assms(2) Sa_idle by (cases "sh_awaiters s") (auto simp: shared_await_step_def)
  with assms(1) i Sa_idle sh_shape_upd(2) [of s ys zs i] have "sh_inv t ys zs"
    by (auto simp: sh_inv_def)
  then show ?thesis ..
next
  case (Sa_loaded b)
  then have i: "i \<notin> set ys" "i \<notin> set zs" using sh_inv_outside [OF assms(1)] by auto
  have "t = s\<lparr>sh_next := (sh_next s)(i := b), sh_pc := (sh_pc s)(i := Sa_linked b)\<rparr>"
    using assms(2) Sa_loaded by (simp add: shared_await_step_def)
  with assms(1) i Sa_loaded sh_shape_upd(1) [of s ys zs i] have "sh_inv t ys zs"
    by (auto simp: sh_inv_def)
  then show ?thesis ..
next
  case (Sa_linked b)
  then have i: "i \<notin> set ys" "i \<notin> set zs" "sh_next s i = b"
    using sh_inv_outside [OF assms(1)] assms(1) by (auto simp: sh_inv_def)
  show ?thesis
  proof (cases "sh_awaiters s = Awaiters b \<and> \<not> weak")
    case True
    then have fin: "sh_fin s = F_store \<or> sh_fin s = F_exchange" "zs = []" "chain (sh_next s) b ys"
      "sh_resumed s = []"
      using assms(1) by (cases "sh_fin s"; auto simp: sh_inv_def sh_shape_def)+
    have "t = s\<lparr>sh_awaiters := Awaiters (Some i), sh_pc := (sh_pc s)(i := Sa_suspended),
                sh_log := sh_log s @ [i]\<rparr>"
      using assms(2) Sa_linked True by (simp add: shared_await_step_def)
    with assms(1) i fin have "sh_inv t (i # ys) zs"
      by (auto simp: sh_inv_def sh_shape_def)
    then show ?thesis ..
  next
    case False
    then have "t = s\<lparr>sh_pc := (sh_pc s)(i := Sa_idle)\<rparr>"
      using assms(2) Sa_linked by (auto simp: shared_await_step_def)
    with assms(1) i Sa_linked sh_shape_upd(2) [of s ys zs i] have "sh_inv t ys zs"
      by (auto simp: sh_inv_def)
    then show ?thesis ..
  qed
qed (use assms in \<open>simp_all add: shared_await_step_def\<close>)

lemma sh_inv_finish:
  assumes "sh_inv s ys zs" "on_result_finished_step st s = Some r" "st \<noteq> RS_idle"
  shows "\<exists>t ys' zs'. r = Inr t \<and> sh_inv t ys' zs'"
proof (cases "sh_fin s")
  case F_store
  then have "r = Inr (s\<lparr>sh_status := st, sh_fin := F_exchange\<rparr>)"
    using assms(2) by (simp add: on_result_finished_step_def)
  moreover have "sh_inv (s\<lparr>sh_status := st, sh_fin := F_exchange\<rparr>) ys zs"
    using assms(1,3) F_store by (auto simp: sh_inv_def sh_shape_def)
  ultimately show ?thesis by blast
next
  case F_exchange
  then obtain tp where tp: "sh_awaiters s = Awaiters tp" "chain (sh_next s) tp ys" "zs = []"
    using assms(1) by (auto simp: sh_inv_def sh_shape_def)
  then have "r = Inr (s\<lparr>sh_awaiters := Result_ready, sh_fin := F_reverse tp None\<rparr>)"
    using assms(2) F_exchange by (simp add: on_result_finished_step_def)
  moreover have "sh_inv (s\<lparr>sh_awaiters := Result_ready, sh_fin := F_reverse tp None\<rparr>) ys []"
    using assms(1) F_exchange tp by (auto simp: sh_inv_def sh_shape_def)
  ultimately show ?thesis by blast
next
  case (F_reverse c p)
  then have sh: "chain (sh_next s) c ys" "chain (sh_next s) p zs" "sh_awaiters s = Result_ready"
    using assms(1) by (auto simp: sh_inv_def sh_shape_def)
  show ?thesis
  proof (cases ys)
    case Nil
    with sh have "r = Inr (s\<lparr>sh_fin := F_resume p\<rparr>)"
      using assms(2) F_reverse by (simp add: on_result_finished_step_def)
    moreover have "sh_inv (s\<lparr>sh_fin := F_resume p\<rparr>) [] zs"
      using assms(1) F_reverse sh Nil by (auto simp: sh_inv_def sh_shape_def)
    ultimately show ?thesis by blast
  next
    case (Cons x xs)
    let ?t = "s\<lparr>sh_next := (sh_next s)(x := p), sh_fin := F_reverse (sh_next s x) (Some x)\<rparr>"
    have x: "sh_pc s x = Sa_suspended" "x \<notin> set xs" "x \<notin> set zs"
      using assms(1) Cons by (auto simp: sh_inv_def)
    then have "r = Inr ?t"
      using assms(2) F_reverse sh Cons by (simp add: on_result_finished_step_def node_access_def)
    moreover have "sh_inv ?t xs (x # zs)"
      using assms(1) F_reverse sh Cons x by (auto simp: sh_inv_def sh_shape_def)
    ultimately show ?thesis by blast
  qed
next
  case (F_resume p)
  then have sh: "ys = []" "chain (sh_next s) p zs" "sh_awaiters s = Result_ready"
    using assms(1) by (auto simp: sh_inv_def sh_shape_def)
  show ?thesis
  proof (cases zs)
    case Nil
    with sh have "r = Inr (s\<lparr>sh_fin := F_end\<rparr>)"
      using assms(2) F_resume by (simp add: on_result_finished_step_def)
    moreover have "sh_inv (s\<lparr>sh_fin := F_end\<rparr>) [] []"
      using assms(1) F_resume sh Nil by (auto simp: sh_inv_def sh_shape_def)
    ultimately show ?thesis by blast
  next
    case (Cons x xs)
    let ?t = "s\<lparr>sh_fin := F_resume (sh_next s x), sh_pc := (sh_pc s)(x := Sa_resumed),
                sh_resumed := sh_resumed s @ [x]\<rparr>"
    have x: "sh_pc s x = Sa_suspended" "x \<notin> set xs"
      using assms(1) Cons by (auto simp: sh_inv_def)
    then have "r = Inr ?t"
      using assms(2) F_resume sh Cons by (simp add: on_result_finished_step_def node_access_def)
    moreover have "sh_inv ?t [] xs"
      using assms(1) F_resume sh Cons x by (auto simp: sh_inv_def sh_shape_def)
    ultimately show ?thesis by blast
  qed
next
  case F_end
  with assms(2) show ?thesis by (simp add: on_result_finished_step_def)
qed

lemma sh_exec_inv:
  assumes "sh_inv s ys zs" "sh_exec e s = Some r"
  shows "\<exists>t ys' zs'. r = Inr t \<and> sh_inv t ys' zs'"
proof (cases e)
  case (Await_step weak i)
  with assms sh_inv_await show ?thesis by fastforce
next
  case (Finish_step st)
  with assms sh_inv_finish show ?thesis by (auto split: if_splits)
qed

lemma sh_reachable_inv: "sh_reachable s \<Longrightarrow> \<exists>ys zs. sh_inv s ys zs"
proof (induction rule: sh_reachable.induct)
  case sh_start
  then show ?case using sh_inv_init by blast
next
  case (sh_next_step s e t)
  then obtain ys zs where "sh_inv s ys zs" by blast
  from sh_exec_inv [OF this sh_next_step.hyps(2)] show ?case by auto
qed

text \<open>C14: a shared result resumes its awaiters exactly once, in the order in which they registered.
  Whatever the interleaving of registrations and completion, no step fails (in particular no
  node is touched after its coroutine was resumed); the resumed coroutines are always a prefix
  of the registered ones, without repetition; and when the completion has finished, every
  registered coroutine was resumed and nobody is suspended any more, not even one that was
  registering concurrently.\<close>

theorem shared_result_resumes_all:
  assumes "sh_reachable s"
  shows "(\<forall>e r. sh_exec e s = Some r \<longrightarrow> (\<exists>t. r = Inr t)) \<and>
         (\<exists>rest. sh_log s = sh_resumed s @ rest \<and> set rest = {i. sh_pc s i = Sa_suspended} \<and> distinct rest) \<and>
         (sh_fin s = F_end \<longrightarrow> sh_resumed s = sh_log s \<and> (\<forall>i. sh_pc s i \<noteq> Sa_suspended) \<and>
            sh_awaiters s = Result_ready \<and> sh_status s \<noteq> RS_idle)"
proof -
  from sh_reachable_inv [OF assms] obtain ys zs where inv: "sh_inv s ys zs" by blast
  have "\<exists>t. r = Inr t" if "sh_exec e s = Some r" for e r
    using sh_exec_inv [OF inv that] by blast
  moreover have "sh_log s = sh_resumed s @ (rev ys @ zs)"
    "set (rev ys @ zs) = {i. sh_pc s i = Sa_suspended}" "distinct (rev ys @ zs)"
    using inv by (auto simp: sh_inv_def)
  moreover have "sh_resumed s = sh_log s \<and> (\<forall>i. sh_pc s i \<noteq> Sa_suspended) \<and>
      sh_awaiters s = Result_ready \<and> sh_status s \<noteq> RS_idle" if "sh_fin s = F_end"
    using inv that by (auto simp: sh_inv_def sh_shape_def)
  ultimately show ?thesis by blast
qed

fun sh_run :: "sh_event list \<Rightarrow> sh_sys \<Rightarrow> sh_sys outcome option" where
  "sh_run [] s = Some (Inr s)"
| "sh_run (e # es) s =
     (case sh_exec e s of None \<Rightarrow> None | Some (Inl x) \<Rightarrow> Some (Inl x) | Some (Inr t) \<Rightarrow> sh_run es t)"

lemma sh_run_reachable: "sh_run es s = Some (Inr t) \<Longrightarrow> sh_reachable s \<Longrightarrow> sh_reachable t"
  by (induction es arbitrary: s) (auto split: option.splits sum.splits intro: sh_next_step)

text \<open>Two coroutines register, the second after losing an exchange to the first.\<close>

definition sh_demo_run :: "sh_event list" where
  "sh_demo_run =
     [Await_step False 1, Await_step False 2, Await_step False 1, Await_step False 2,
      Await_step False 1, Await_step False 2, Await_step False 2, Await_step False 2,
      Await_step False 2] @ replicate 8 (Finish_step RS_value)"

definition sh_demo :: sh_sys where
  "sh_demo = (case sh_run sh_demo_run sh_init of Some (Inr t) \<Rightarrow> t | _ \<Rightarrow> sh_init)"

lemmas sh_eval_defs = sh_demo_run_def sh_init_def shared_await_step_def on_result_finished_step_def
  node_access_def

lemma sh_demo_eq: "sh_run sh_demo_run sh_init = Some (Inr sh_demo)"
  by (simp add: sh_demo_def sh_eval_defs numeral_eq_Suc)

lemma sh_demo_facts: "sh_fin sh_demo = F_end" "sh_log sh_demo = [1, 2]"
  by (simp_all add: sh_demo_def sh_eval_defs numeral_eq_Suc)

theorem shared_result_resumes_all_witness: "sh_resumed sh_demo = [1, 2] \<and> sh_pc sh_demo 1 \<noteq> Sa_suspended"
  using shared_result_resumes_all [OF sh_run_reachable [OF sh_demo_eq sh_start]]
  by (simp add: sh_demo_facts)

end
