(* ===== verification/Shared_Api.thy ===== *)
theory Shared_Api
  imports Shared_Result Result_Api
begin

text \<open>
  The handle \<^verbatim>\<open>shared_result\<close> (\<^verbatim>\<open>results/shared_result.h\<close>), its construction from a \<^verbatim>\<open>result\<close>, and
  the destructor of the shared state, which takes its registration back before it gives up the
  result state.
\<close>

record shared_result = shr_state :: "addr option"

definition shared_throw_if_empty :: "shared_result \<Rightarrow> string \<Rightarrow> addr outcome" where
  "shared_throw_if_empty r msg =
     (case shr_state r of None \<Rightarrow> Inl (Empty_result msg) | Some a \<Rightarrow> Inr a)"

text \<open>Construction from a result: \<open>sh\<close> is the address of the new shared state.  The boolean tells
  that \<^verbatim>\<open>on_result_finished\<close> must run at once.\<close>

definition shared_result_new ::
  "'a rstore \<Rightarrow> result \<Rightarrow> addr \<Rightarrow> (bool \<times> 'a rstore \<times> shared_result) outcome" where
  "shared_result_new st r sh =
     (case res_state r of
        None \<Rightarrow> Inr (False, st, \<lparr>shr_state = None\<rparr>)
      | Some a \<Rightarrow>
          with_state st a (\<lambda>s. bind_outcome (result_state_share s sh) (\<lambda>(now, s').
            Inr (now, st(a \<mapsto> s'), \<lparr>shr_state = Some sh\<rparr>))))"

definition shared_status :: "(addr \<Rightarrow> sh_sys) \<Rightarrow> shared_result \<Rightarrow> result_status outcome" where
  "shared_status shs r =
     bind_outcome (shared_throw_if_empty r k_shared_result_status_error_msg)
       (\<lambda>a. Inr (sh_status (shs a)))"

text \<open>\<^verbatim>\<open>wait\<close>: \<open>False\<close> when the thread has to sleep on the status.\<close>

definition shared_wait :: "(addr \<Rightarrow> sh_sys) \<Rightarrow> shared_result \<Rightarrow> bool outcome" where
  "shared_wait shs r =
     bind_outcome (shared_throw_if_empty r k_shared_result_wait_error_msg)
       (\<lambda>a. Inr (sh_status (shs a) \<noteq> RS_idle))"

text \<open>\<^verbatim>\<open>get\<close> reads the value through the shared state's result state \<open>a\<close>, and leaves it there.\<close>

definition shared_get ::
  "'a rstore \<Rightarrow> (addr \<Rightarrow> sh_sys) \<Rightarrow> shared_result \<Rightarrow> addr \<Rightarrow> 'a outcome option outcome" where
  "shared_get st shs r a =
     bind_outcome (shared_throw_if_empty r k_shared_result_get_error_msg) (\<lambda>sh.
       if sh_status (shs sh) = RS_idle then Inr None
       else with_state st a (\<lambda>s. bind_outcome (result_state_get s) (\<lambda>v. Inr (Some v))))"

definition shared_co_await :: "shared_result \<Rightarrow> addr outcome" where
  "shared_co_await r = shared_throw_if_empty r k_shared_result_operator_co_await_error_msg"

definition shared_resolve :: "shared_result \<Rightarrow> addr outcome" where
  "shared_resolve r = shared_throw_if_empty r k_shared_result_resolve_error_msg"

text \<open>Assignment keeps the state when both handles already share it.\<close>

definition shared_assign :: "shared_result \<Rightarrow> shared_result \<Rightarrow> shared_result" where
  "shared_assign r rhs = (if shr_state r \<noteq> shr_state rhs then rhs else r)"

definition shared_state_destructor :: "'a rstore \<Rightarrow> addr \<Rightarrow> 'a rstore outcome" where
  "shared_state_destructor st a =
     bind_outcome (store_update st a try_rewind_consumer) (\<lambda>st'. consumer_reset st' a)"

text \<open>\<^verbatim>\<open>wait_until\<close>: in round \<open>n\<close> the loop reads the status \<open>status n\<close>, then the clock, which is before the
  timeout iff \<open>early n\<close>, and waits on the semaphore.  The result is the status that the final read
  finds; \<open>None\<close> stands for a loop that is still waiting when the fuel is used up.\<close>

fun shared_wait_until_loop ::
  "nat \<Rightarrow> (nat \<Rightarrow> result_status) \<Rightarrow> (nat \<Rightarrow> bool) \<Rightarrow> nat \<Rightarrow> result_status option" where
  "shared_wait_until_loop 0 status early n = None"
| "shared_wait_until_loop (Suc fuel) status early n =
     (if status n = RS_idle \<and> early n then shared_wait_until_loop fuel status early (Suc n)
      else Some (status (Suc n)))"

definition shared_wait_until ::
  "nat \<Rightarrow> (nat \<Rightarrow> result_status) \<Rightarrow> (nat \<Rightarrow> bool) \<Rightarrow> shared_result \<Rightarrow> result_status option outcome" where
  "shared_wait_until fuel status early r =
     bind_outcome (shared_throw_if_empty r k_shared_result_wait_until_error_msg)
       (\<lambda>_. Inr (shared_wait_until_loop fuel status early 0))"

lemma shared_wait_until_loop_ends:
  assumes "k < fuel" "status (n + k) \<noteq> RS_idle \<or> \<not> early (n + k)"
  shows "\<exists>j \<le> k. shared_wait_until_loop fuel status early n = Some (status (Suc (n + j))) \<and>
           (status (n + j) \<noteq> RS_idle \<or> \<not> early (n + j))"
  using assms
proof (induction k arbitrary: n fuel)
  case 0
  then show ?case by (cases fuel) auto
next
  case (Suc k)
  obtain f where f: "fuel = Suc f" "k < f" using Suc.prems(1) by (cases fuel) auto
  show ?case
  proof (cases "status n = RS_idle \<and> early n")
    case True
    with Suc.IH [of f "Suc n"] Suc.prems(2) f obtain j where
      "j \<le> k" "shared_wait_until_loop f status early (Suc n) = Some (status (Suc (Suc n + j)))"
      "status (Suc n + j) \<noteq> RS_idle \<or> \<not> early (Suc n + j)" by auto
    with True f(1) show ?thesis by (intro exI [of _ "Suc j"]) simp
  next
    case False
    with f(1) show ?thesis by (intro exI [of _ 0]) auto
  qed
qed

text \<open>Sharing leaks nothing and loses no completion.  A shared result made from a result that is
  ready is completed at once; one made from a pending result is notified when the promise is
  fulfilled, and then gives the value as often as it is asked; one that is destroyed while the
  result is pending leaves the deallocation of the state to the promise.\<close>

lemma shared_result_lifecycle:
  assumes "st a = Some result_state_init"
  shows "\<exists>st1 sr. shared_result_new st \<lparr>res_state = Some a\<rparr> sh = Inr (False, st1, sr) \<and>
           (\<exists>st2. promise_set_from_function st1 \<lparr>rp_producer = Some a, rp_consumer = None\<rparr> v =
              Inr (Notify_shared sh, st2, \<lparr>rp_producer = None, rp_consumer = None\<rparr>) \<and>
              (sh_status (shs sh) \<noteq> RS_idle \<longrightarrow> shared_get st2 shs sr a = Inr (Some v)) \<and>
              shared_state_destructor st2 a = Inr (st(a := None))) \<and>
           (\<exists>st2. shared_state_destructor st1 a = Inr st2 \<and>
              promise_set_from_function st2 \<lparr>rp_producer = Some a, rp_consumer = None\<rparr> v =
              Inr (Do_nothing, st(a := None), \<lparr>rp_producer = None, rp_consumer = None\<rparr>))"
  using assms
  by (auto simp: shared_result_new_def result_state_share_def set_shared_context_def
      publish_consumer_def cas_pc_state_def promise_set_from_function_def promise_throw_if_empty_def
      promise_publish_def from_callable_def api_defs shared_get_def shared_throw_if_empty_def
      result_state_get_def producer_get_def producer_get_ref_def shared_state_destructor_def
      try_rewind_consumer_def rewind_consumer_def consumer_clear_def Let_def split: sum.splits)

lemma shared_result_lifecycle_witness:
  "\<exists>st1 sr. shared_result_new ((\<lambda>_. None)(3 \<mapsto> result_state_init)) \<lparr>res_state = Some 3\<rparr> 8 =
       Inr (False, st1, sr) \<and>
     (\<exists>st2. promise_set_from_function st1 \<lparr>rp_producer = Some 3, rp_consumer = None\<rparr> (Inr (7::nat)) =
        Inr (Notify_shared 8, st2, \<lparr>rp_producer = None, rp_consumer = None\<rparr>))"
  using shared_result_lifecycle [of "(\<lambda>_. None)(3 \<mapsto> result_state_init)" 3 8 "Inr (7::nat)" "\<lambda>_. sh_init"]
  by auto

end
