(* ===== verification/Idle_Workers.thy ===== *)
theory Idle_Workers
  imports Prelude
begin

text \<open>
  \<^verbatim>\<open>idle_worker_set\<close> of \<^verbatim>\<open>source/executors/thread_pool_executor.cpp\<close>: one flag per worker of a
  thread pool and a counter of the raised flags.  Every operation keeps the counter equal to the
  number of raised flags, and the searches claim raised flags of other workers only.
\<close>

record idle_worker_set =
  m_approx_size :: int
  m_idle_flags :: "bool list"

definition idle_worker_set_init :: "nat \<Rightarrow> idle_worker_set" where
  "idle_worker_set_init n = \<lparr>m_approx_size = 0, m_idle_flags = replicate n False\<rparr>"

definition set_idle :: "nat \<Rightarrow> idle_worker_set \<Rightarrow> idle_worker_set" where
  "set_idle i s =
     (let before = m_idle_flags s ! i; s' = s\<lparr>m_idle_flags := (m_idle_flags s)[i := True]\<rparr>
      in if before then s' else s'\<lparr>m_approx_size := m_approx_size s + 1\<rparr>)"

definition set_active :: "nat \<Rightarrow> idle_worker_set \<Rightarrow> idle_worker_set" where
  "set_active i s =
     (let before = m_idle_flags s ! i; s' = s\<lparr>m_idle_flags := (m_idle_flags s)[i := False]\<rparr>
      in if \<not> before then s' else s'\<lparr>m_approx_size := m_approx_size s - 1\<rparr>)"

definition try_acquire_flag :: "nat \<Rightarrow> idle_worker_set \<Rightarrow> bool \<times> idle_worker_set" where
  "try_acquire_flag i s =
     (if \<not> m_idle_flags s ! i then (False, s)
      else (True, s\<lparr>m_idle_flags := (m_idle_flags s)[i := False],
                    m_approx_size := m_approx_size s - 1\<rparr>))"

text \<open>\<^verbatim>\<open>find_idle_worker\<close>: \<open>None\<close> stands for \<^verbatim>\<open>size_t(-1)\<close>, \<open>hashed_id\<close> for the hash of the calling
  thread's id.  The loop runs over the given list of offsets.\<close>

fun find_idle_worker_loop ::
  "nat option \<Rightarrow> nat \<Rightarrow> nat list \<Rightarrow> idle_worker_set \<Rightarrow> nat option \<times> idle_worker_set" where
  "find_idle_worker_loop caller start [] s = (None, s)"
| "find_idle_worker_loop caller start (i # is) s =
     (let index = (start + i) mod length (m_idle_flags s)
      in if Some index = caller then find_idle_worker_loop caller start is s
         else (let (acquired, s') = try_acquire_flag index s
               in if acquired then (Some index, s')
                  else find_idle_worker_loop caller start is s'))"

definition find_idle_worker ::
  "nat \<Rightarrow> nat option \<Rightarrow> idle_worker_set \<Rightarrow> nat option \<times> idle_worker_set" where
  "find_idle_worker hashed_id caller s =
     (if m_approx_size s \<le> 0 then (None, s)
      else (let n = length (m_idle_flags s);
                start = (case caller of Some c \<Rightarrow> c | None \<Rightarrow> hashed_id mod n)
            in find_idle_worker_loop caller start [0..<n] s))"

text \<open>\<^verbatim>\<open>find_idle_workers\<close>; \<open>capacity\<close> is the reserved size of the result buffer, which is empty
  on entry.\<close>

fun find_idle_workers_loop ::
  "nat \<Rightarrow> nat \<Rightarrow> nat list \<Rightarrow> idle_worker_set \<Rightarrow> nat list \<times> idle_worker_set" where
  "find_idle_workers_loop caller quota [] s = ([], s)"
| "find_idle_workers_loop caller quota (i # is) s =
     (if quota = 0 then ([], s)
      else (let index = (caller + i) mod length (m_idle_flags s)
            in if index = caller then find_idle_workers_loop caller quota is s
               else (let (acquired, s') = try_acquire_flag index s
                     in if acquired
                        then (let (found, s'') = find_idle_workers_loop caller (quota - 1) is s'
                              in (index # found, s''))
                        else find_idle_workers_loop caller quota is s')))"

definition find_idle_workers ::
  "nat \<Rightarrow> nat \<Rightarrow> nat \<Rightarrow> idle_worker_set \<Rightarrow> (nat list \<times> idle_worker_set) outcome" where
  "find_idle_workers caller capacity max_count s =
     bind_outcome (assert_that (max_count \<le> capacity) ''result_buffer.capacity() >= max_count'') (\<lambda>_.
       if m_approx_size s \<le> 0 then Inr ([], s)
       else bind_outcome (assert_that (caller < length (m_idle_flags s)) ''caller_index < m_size'') (\<lambda>_.
              Inr (find_idle_workers_loop caller (min (nat (m_approx_size s)) max_count)
                     [0..<length (m_idle_flags s)] s)))"

section \<open>The invariant\<close>

definition idle_inv :: "idle_worker_set \<Rightarrow> bool" where
  "idle_inv s \<longleftrightarrow> m_approx_size s = int (length (filter id (m_idle_flags s)))"

lemma idle_inv_init: "idle_inv (idle_worker_set_init n)"
  by (simp add: idle_inv_def idle_worker_set_init_def filter_replicate)

lemma set_idle_inv:
  assumes "idle_inv s" "i < length (m_idle_flags s)"
  shows "idle_inv (set_idle i s)"
proof (cases "m_idle_flags s ! i")
  case True
  then have "(m_idle_flags s)[i := True] = m_idle_flags s" by (metis list_update_id)
  with assms True show ?thesis by (simp add: set_idle_def idle_inv_def Let_def)
next
  case False
  with count_filter_update_gain [of i "m_idle_flags s" id True] assms show ?thesis
    by (simp add: set_idle_def idle_inv_def Let_def)
qed

lemma try_acquire_flag_inv:
  assumes "idle_inv s" "i < length (m_idle_flags s)"
  shows "idle_inv (snd (try_acquire_flag i s))"
  using count_filter_update_loss [of i "m_idle_flags s" id False] assms
  by (auto simp: try_acquire_flag_def idle_inv_def)

lemma set_active_inv:
  assumes "idle_inv s" "i < length (m_idle_flags s)"
  shows "idle_inv (set_active i s)"
proof (cases "m_idle_flags s ! i")
  case True
  with count_filter_update_loss [of i "m_idle_flags s" id False] assms show ?thesis
    by (auto simp: set_active_def idle_inv_def Let_def)
next
  case False
  then have "(m_idle_flags s)[i := False] = m_idle_flags s" by (metis list_update_id)
  with assms False show ?thesis by (simp add: set_active_def idle_inv_def Let_def)
qed

lemma try_acquire_flag_length [simp]:
  "length (m_idle_flags (snd (try_acquire_flag i s))) = length (m_idle_flags s)"
  by (simp add: try_acquire_flag_def)

section \<open>The searches\<close>

lemma find_idle_worker_loop_Some:
  assumes "find_idle_worker_loop caller start is s = (Some k, t)" "m_idle_flags s \<noteq> []" "idle_inv s"
  shows "idle_inv t \<and> k < length (m_idle_flags s) \<and> Some k \<noteq> caller \<and> m_idle_flags s ! k \<and>
         m_idle_flags t = (m_idle_flags s)[k := False]"
  using assms(1)
proof (induction "is")
  case Nil
  then show ?case by simp
next
  case (Cons i "is")
  let ?k = "(start + i) mod length (m_idle_flags s)"
  have k: "?k < length (m_idle_flags s)" using assms(2) by simp
  show ?case
  proof (cases "Some ?k \<noteq> caller \<and> m_idle_flags s ! ?k")
    case True
    then have "k = ?k" "t = snd (try_acquire_flag ?k s)"
      using Cons.prems by (auto simp: try_acquire_flag_def Let_def)
    with try_acquire_flag_inv [OF assms(3) k] k True show ?thesis
      by (simp add: try_acquire_flag_def)
  next
    case False
    with Cons.prems have "find_idle_worker_loop caller start is s = (Some k, t)"
      by (simp add: try_acquire_flag_def Let_def split: if_splits)
    then show ?thesis by (rule Cons.IH)
  qed
qed

lemma find_idle_worker_loop_None:
  assumes "find_idle_worker_loop caller start is s = (None, t)"
  shows "t = s \<and> (\<forall>i \<in> set is. Some ((start + i) mod length (m_idle_flags s)) \<noteq> caller \<longrightarrow>
           \<not> m_idle_flags s ! ((start + i) mod length (m_idle_flags s)))"
  using assms
proof (induction "is")
  case Nil
  then show ?case by simp
next
  case (Cons i "is")
  let ?k = "(start + i) mod length (m_idle_flags s)"
  have no: "\<not> (Some ?k \<noteq> caller \<and> m_idle_flags s ! ?k)"
    using Cons.prems by (auto simp: try_acquire_flag_def Let_def)
  with Cons.prems have "find_idle_worker_loop caller start is s = (None, t)"
    by (simp add: try_acquire_flag_def Let_def split: if_splits)
  with Cons.IH no show ?case by auto
qed

text \<open>All positions are visited, whatever the starting point.\<close>

lemma mod_cover:
  fixes k n :: nat
  assumes "k < n"
  shows "\<exists>i < n. (start + i) mod n = k"
proof (cases "start mod n \<le> k")
  case True
  have "(start + (k - start mod n)) mod n = (start mod n + (k - start mod n)) mod n"
    by (rule mod_add_left_eq [symmetric])
  with True assms have "(start + (k - start mod n)) mod n = k" by simp
  then show ?thesis using assms by (intro exI [of _ "k - start mod n"]) simp
next
  case False
  have m: "start mod n < n" using assms by simp
  have "(start + (n - start mod n + k)) mod n = (start mod n + (n - start mod n + k)) mod n"
    by (rule mod_add_left_eq [symmetric])
  also have "start mod n + (n - start mod n + k) = n + k" using m by simp
  finally have "(start + (n - start mod n + k)) mod n = k" using assms by simp
  moreover have "n - start mod n + k < n" using False m by simp
  ultimately show ?thesis by blast
qed

text \<open>Searching for one idle worker is sound and complete.  The search keeps the counter exact; a
  worker it returns is another one than the caller, had its flag raised, and only that flag is
  lowered; when it returns none, every other worker is active and nothing has changed.\<close>

lemma find_idle_worker_correct:
  assumes "idle_inv s" "find_idle_worker hashed_id caller s = (r, t)"
  shows "idle_inv t \<and>
         (case r of
            Some k \<Rightarrow> k < length (m_idle_flags s) \<and> Some k \<noteq> caller \<and> m_idle_flags s ! k \<and>
                       m_idle_flags t = (m_idle_flags s)[k := False]
          | None \<Rightarrow> t = s \<and> (\<forall>k < length (m_idle_flags s). Some k \<noteq> caller \<longrightarrow> \<not> m_idle_flags s ! k))"
proof (cases "m_approx_size s \<le> 0")
  case True
  then have none: "filter id (m_idle_flags s) = []" using assms(1) by (simp add: idle_inv_def)
  have "\<not> m_idle_flags s ! k" if "k < length (m_idle_flags s)" for k
    using none [unfolded filter_empty_conv, rule_format, OF nth_mem [OF that]] by simp
  moreover have "r = None" "t = s" using assms(2) True by (simp_all add: find_idle_worker_def)
  ultimately show ?thesis using assms(1) by simp
next
  case False
  then have ne: "m_idle_flags s \<noteq> []" using assms(1) by (cases "m_idle_flags s") (simp_all add: idle_inv_def)
  define n where "n = length (m_idle_flags s)"
  define start where "start = (case caller of Some c \<Rightarrow> c | None \<Rightarrow> hashed_id mod n)"
  have loop: "find_idle_worker_loop caller start [0..<n] s = (r, t)"
    unfolding start_def n_def using assms(2) False by (simp add: find_idle_worker_def Let_def)
  show ?thesis
  proof (cases r)
    case None
    with loop have "find_idle_worker_loop caller start [0..<n] s = (None, t)" by (simp only:)
    note spec = find_idle_worker_loop_None [OF this, folded n_def]
    have "\<not> m_idle_flags s ! k" if kn: "k < n" and kc: "Some k \<noteq> caller" for k
    proof -
      obtain i where i: "i < n" "(start + i) mod n = k" using mod_cover [OF kn] by blast
      then have "i \<in> set [0..<n]" by simp
      with spec have "Some ((start + i) mod n) \<noteq> caller \<longrightarrow> \<not> m_idle_flags s ! ((start + i) mod n)"
        by blast
      with kc show ?thesis unfolding i(2) by blast
    qed
    with spec None assms(1) show ?thesis unfolding n_def by simp
  next
    case (Some k)
    with loop have "find_idle_worker_loop caller start [0..<n] s = (Some k, t)" by (simp only:)
    from find_idle_worker_loop_Some [OF this ne assms(1)] Some show ?thesis by simp
  qed
qed

lemma find_idle_workers_loop_spec:
  assumes "find_idle_workers_loop caller quota is s = (found, t)" "m_idle_flags s \<noteq> []" "idle_inv s"
  shows "idle_inv t \<and> length found \<le> quota \<and> distinct found \<and> caller \<notin> set found \<and>
         length (m_idle_flags t) = length (m_idle_flags s) \<and>
         (\<forall>k \<in> set found. k < length (m_idle_flags s) \<and> m_idle_flags s ! k) \<and>
         (\<forall>k < length (m_idle_flags s). m_idle_flags t ! k = (m_idle_flags s ! k \<and> k \<notin> set found))"
  using assms
proof (induction "is" arbitrary: quota s found)
  case Nil
  then show ?case by auto
next
  case (Cons i "is")
  let ?n = "length (m_idle_flags s)"
  let ?k = "(caller + i) mod ?n"
  have k: "?k < ?n" using Cons.prems(2) by simp
  show ?case
  proof (cases "quota = 0 \<or> ?k = caller \<or> \<not> m_idle_flags s ! ?k")
    case True
    with Cons.IH [of quota s] Cons.prems show ?thesis
      by (auto simp: Let_def try_acquire_flag_def split: if_splits)
  next
    case False
    let ?s = "snd (try_acquire_flag ?k s)"
    obtain rest where rest: "find_idle_workers_loop caller (quota - 1) is ?s = (rest, t)"
      "found = ?k # rest"
      using Cons.prems(1) False by (auto simp: Let_def try_acquire_flag_def split: prod.splits)
    have inv: "idle_inv ?s" by (rule try_acquire_flag_inv [OF Cons.prems(3) k])
    have flags: "m_idle_flags ?s = (m_idle_flags s)[?k := False]"
      using False by (simp add: try_acquire_flag_def)
    from Cons.IH [OF rest(1) _ inv] flags Cons.prems(2) k False rest(2) show ?thesis
      by (auto simp: nth_list_update split: if_splits)
  qed
qed

end
