(* ===== verification/Thread_Pool.thy ===== *)
theory Thread_Pool
  imports Idle_Workers Messages "HOL-Library.Multiset"
begin

text \<open>
  The thread pool of \<^verbatim>\<open>source/executors/thread_pool_executor.cpp\<close>: workers with a private and a
  public queue, the routing of tasks, the splitting of a bulk of tasks over the workers and the
  donation of tasks to idle workers.  Operations are functions on the pool; how a worker and
  its enqueuers interleave is the subject of \<open>Pool_Protocol\<close>.  Tasks are identified by numbers.
\<close>

section \<open>Workers\<close>

type_synonym task_id = nat

record pool_worker =
  tw_private :: "task_id list"
  tw_public :: "task_id list"
  tw_atomic_abort :: bool
  tw_abort :: bool
  tw_idle :: bool
  tw_found_or_abort :: bool
  tw_semaphore :: nat
  tw_threads_started :: nat

definition pool_worker_init :: pool_worker where
  "pool_worker_init =
     \<lparr>tw_private = [], tw_public = [], tw_atomic_abort = False, tw_abort = False, tw_idle = True,
      tw_found_or_abort = False, tw_semaphore = 0, tw_threads_started = 0\<rparr>"

definition throw_runtime_shutdown_exception :: "string \<Rightarrow> 'a outcome" where
  "throw_runtime_shutdown_exception executor_name =
     Inl (Runtime_shutdown (executor_name @ k_executor_shutdown_err_msg))"

definition make_executor_worker_name :: "string \<Rightarrow> string" where
  "make_executor_worker_name executor_name = executor_name @ '' worker''"

text \<open>The semaphore is a \<^verbatim>\<open>binary_semaphore\<close>: releasing it at its maximum is undefined.\<close>

definition ensure_worker_active :: "bool \<Rightarrow> pool_worker \<Rightarrow> pool_worker outcome" where
  "ensure_worker_active first_enqueuer w =
     (if \<not> tw_idle w
      then (if first_enqueuer
            then (if tw_semaphore w = 0 then Inr (w\<lparr>tw_semaphore := 1\<rparr>)
                  else Inl (Undefined_behaviour ''binary_semaphore released above its maximum''))
            else Inr w)
      else Inr (w\<lparr>tw_threads_started := Suc (tw_threads_started w), tw_idle := False\<rparr>))"

text \<open>The overloads for one task, a span and a range of iterators differ in the tasks only.\<close>

definition enqueue_foreign :: "string \<Rightarrow> task_id list \<Rightarrow> pool_worker \<Rightarrow> pool_worker outcome" where
  "enqueue_foreign pool_name tasks w =
     (if tw_abort w then throw_runtime_shutdown_exception pool_name
      else ensure_worker_active (tw_public w = [])
             (w\<lparr>tw_found_or_abort := True, tw_public := tw_public w @ tasks\<rparr>))"

definition enqueue_local :: "string \<Rightarrow> task_id list \<Rightarrow> pool_worker \<Rightarrow> pool_worker outcome" where
  "enqueue_local pool_name tasks w =
     (if tw_atomic_abort w then throw_runtime_shutdown_exception pool_name
      else Inr (w\<lparr>tw_private := tw_private w @ tasks\<rparr>))"

definition appears_empty :: "pool_worker \<Rightarrow> bool" where
  "appears_empty w \<longleftrightarrow> tw_private w = [] \<and> \<not> tw_found_or_abort w"

text \<open>A worker that takes tasks from outside: it is not aborted, and a release would not exceed the
  semaphore.\<close>

definition accepting :: "pool_worker \<Rightarrow> bool" where
  "accepting w \<longleftrightarrow> \<not> tw_abort w \<and> (\<not> tw_idle w \<and> tw_public w = [] \<longrightarrow> tw_semaphore w = 0)"

lemma enqueue_foreign_accepting:
  assumes "accepting w"
  shows "\<exists>w'. enqueue_foreign name ts w = Inr w' \<and> tw_public w' = tw_public w @ ts \<and>
           tw_private w' = tw_private w \<and> \<not> tw_idle w' \<and> tw_abort w' = tw_abort w \<and>
           tw_found_or_abort w'"
  using assms by (auto simp: enqueue_foreign_def accepting_def ensure_worker_active_def)

section \<open>The pool\<close>

record thread_pool =
  tp_name :: string
  tp_workers :: "pool_worker list"
  tp_cursor :: nat
  tp_idle_set :: idle_worker_set
  tp_abort :: bool

definition thread_pool_new :: "string \<Rightarrow> nat \<Rightarrow> thread_pool" where
  "thread_pool_new pool_name pool_size =
     \<lparr>tp_name = pool_name, tp_workers = replicate pool_size pool_worker_init, tp_cursor = 0,
      tp_idle_set = fold set_idle [0..<pool_size] (idle_worker_set_init pool_size),
      tp_abort = False\<rparr>"

definition worker_update ::
  "thread_pool \<Rightarrow> nat \<Rightarrow> (pool_worker \<Rightarrow> pool_worker outcome) \<Rightarrow> thread_pool outcome" where
  "worker_update p i f =
     bind_outcome (f (tp_workers p ! i)) (\<lambda>w. Inr (p\<lparr>tp_workers := (tp_workers p)[i := w]\<rparr>))"

text \<open>What a thread knows about itself: the worker it runs (pool and position) and its hashed id.\<close>

record thread_data =
  this_worker :: "(addr \<times> nat) option"
  this_thread_index :: "nat option"
  this_thread_hashed_id :: nat

definition round_robin :: "nat \<Rightarrow> nat \<Rightarrow> nat \<times> nat" where
  "round_robin cursor n = (cursor mod n, (cursor + 1) mod 2 ^ 64)"

text \<open>\<^verbatim>\<open>enqueue\<close> of one task on the pool at \<open>a\<close>; the worker of the calling thread may belong to
  another pool of the process.\<close>

definition pool_enqueue ::
  "(addr \<Rightarrow> thread_pool) \<Rightarrow> addr \<Rightarrow> thread_data \<Rightarrow> task_id \<Rightarrow> (addr \<Rightarrow> thread_pool) outcome" where
  "pool_enqueue pools a td task =
     (let p = pools a;
          local = (\<lambda>(b, i). bind_outcome
            (worker_update (pools b) i (enqueue_local (tp_name (pools b)) [task]))
            (\<lambda>q. Inr (pools(b := q))));
          foreign = (\<lambda>q i. bind_outcome (worker_update q i (enqueue_foreign (tp_name p) [task]))
            (\<lambda>q'. Inr (pools(a := q'))))
      in case this_worker td of
           Some (b, i) \<Rightarrow>
             if appears_empty (tp_workers (pools b) ! i) then local (b, i)
             else (case find_idle_worker (this_thread_hashed_id td) (this_thread_index td) (tp_idle_set p) of
                     (Some k, idle) \<Rightarrow> foreign (p\<lparr>tp_idle_set := idle\<rparr>) k
                   | (None, idle) \<Rightarrow> local (b, i))
         | None \<Rightarrow>
             (case find_idle_worker (this_thread_hashed_id td) (this_thread_index td) (tp_idle_set p) of
                (Some k, idle) \<Rightarrow> foreign (p\<lparr>tp_idle_set := idle\<rparr>) k
              | (None, idle) \<Rightarrow>
                  (let (next_worker, cursor) = round_robin (tp_cursor p) (length (tp_workers p))
                   in foreign (p\<lparr>tp_idle_set := idle, tp_cursor := cursor\<rparr>) next_worker)))"

text \<open>The loop that deals out a bulk: \<open>begin\<close>, \<open>end\<close> and \<open>extra\<close> are the loop's variables.\<close>

fun bulk_loop ::
  "nat \<Rightarrow> task_id list \<Rightarrow> nat list \<Rightarrow> nat \<times> nat \<times> nat \<Rightarrow> thread_pool \<Rightarrow> thread_pool outcome" where
  "bulk_loop donation tasks [] bex p = Inr p"
| "bulk_loop donation tasks (i # is) (b, e, x) p =
     bind_outcome (assert_that (b < length tasks) ''begin < task_count'') (\<lambda>_.
       let (e, x) = (if x \<noteq> 0 then (e + 1, x - 1) else (e, x)) in
       bind_outcome (assert_that (e \<le> length tasks) ''end <= task_count'') (\<lambda>_.
         bind_outcome (worker_update p i (enqueue_foreign (tp_name p) (take (e - b) (drop b tasks)))) (\<lambda>p'.
           bulk_loop donation tasks is (e, e + donation, x) p')))"

text \<open>\<^verbatim>\<open>enqueue\<close> of a span by a thread that is no pool worker and brings at least one task per
  worker; the other branches are \<open>pool_enqueue\<close> for each task and \<open>enqueue_local\<close>.\<close>

definition pool_enqueue_bulk :: "thread_pool \<Rightarrow> task_id list \<Rightarrow> thread_pool outcome" where
  "pool_enqueue_bulk p tasks =
     (let n = length (tp_workers p); donation = length tasks div n;
          extra = length tasks - donation * n
      in bulk_loop donation tasks [0..<n] (0, donation, extra) p)"

fun pool_enqueue_each ::
  "(addr \<Rightarrow> thread_pool) \<Rightarrow> addr \<Rightarrow> thread_data \<Rightarrow> task_id list \<Rightarrow> (addr \<Rightarrow> thread_pool) outcome" where
  "pool_enqueue_each pools a td [] = Inr pools"
| "pool_enqueue_each pools a td (t # ts) =
     bind_outcome (pool_enqueue pools a td t) (\<lambda>pools'. pool_enqueue_each pools' a td ts)"

definition pool_enqueue_span ::
  "(addr \<Rightarrow> thread_pool) \<Rightarrow> addr \<Rightarrow> thread_data \<Rightarrow> task_id list \<Rightarrow> (addr \<Rightarrow> thread_pool) outcome" where
  "pool_enqueue_span pools a td tasks =
     (case this_worker td of
        Some (b, i) \<Rightarrow>
          bind_outcome (worker_update (pools b) i (enqueue_local (tp_name (pools b)) tasks))
            (\<lambda>q. Inr (pools(b := q)))
      | None \<Rightarrow>
          if length tasks < length (tp_workers (pools a)) then pool_enqueue_each pools a td tasks
          else bind_outcome (pool_enqueue_bulk (pools a) tasks) (\<lambda>q. Inr (pools(a := q))))"

section \<open>Balancing\<close>

text \<open>The donation loop.  The private queue holds \<open>None\<close> where a task was moved out.\<close>

fun balance_loop ::
  "nat \<Rightarrow> nat \<Rightarrow> nat list \<Rightarrow> task_id option list \<times> nat \<times> nat \<times> nat \<Rightarrow> thread_pool \<Rightarrow>
     (task_id option list \<times> nat \<times> thread_pool) outcome" where
  "balance_loop me donation [] (q, b, e, x) p = Inr (q, b, p)"
| "balance_loop me donation (k # ks) (q, b, e, x) p =
     bind_outcome (assert_that (k \<noteq> me) ''idle_worker_index != m_index'') (\<lambda>_.
     bind_outcome (assert_that (k < length (tp_workers p)) ''idle_worker_index < m_pool_size'') (\<lambda>_.
     bind_outcome (assert_that (b < length q) ''begin < task_count'') (\<lambda>_.
       let (e, x) = (if x \<noteq> 0 then (e + 1, x - 1) else (e, x)) in
       bind_outcome (assert_that (e \<le> length q) ''end <= task_count'') (\<lambda>_.
         let donated = map the (take (e - b) (drop b q));
             q' = take b q @ replicate (e - b) None @ drop e q in
         bind_outcome (worker_update p k (enqueue_foreign (tp_name p) donated)) (\<lambda>p'.
           balance_loop me donation ks (q', e, e + donation, x) p')))))"

definition balance_work :: "nat \<Rightarrow> thread_pool \<Rightarrow> thread_pool outcome" where
  "balance_work me p =
     (let queue = tw_private (tp_workers p ! me); task_count = length queue;
          pool_size = length (tp_workers p);
          max_idle_worker_count = min (pool_size - 1) (task_count - 1)
      in if task_count < 2 then Inr p
         else if max_idle_worker_count = 0 then Inr p
         else bind_outcome (find_idle_workers me pool_size max_idle_worker_count (tp_idle_set p))
           (\<lambda>(found, idle).
              let p1 = p\<lparr>tp_idle_set := idle\<rparr>; idle_count = length found in
              if idle_count = 0 then Inr p1
              else bind_outcome (assert_that (idle_count \<le> task_count) ''idle_count <= task_count'') (\<lambda>_.
                let total = idle_count + 1; donation = task_count div total;
                    extra = task_count - donation * total in
                bind_outcome (balance_loop me donation found (map Some queue, 0, donation, extra) p1)
                  (\<lambda>(q, b, p2).
                     bind_outcome (assert_that (length q = task_count) ''m_private_queue.size() == task_count'') (\<lambda>_.
                     bind_outcome (assert_that (list_all (\<lambda>t. t = None) (take b q)) ''!static_cast<bool>(task)'') (\<lambda>_.
                     bind_outcome (assert_that (list_all (\<lambda>t. t \<noteq> None) (drop b q)) ''static_cast<bool>(task)'') (\<lambda>_.
                       let rest = map the (drop b q) in
                       bind_outcome (assert_that (rest \<noteq> []) ''!m_private_queue.empty()'') (\<lambda>_.
                         worker_update p2 me (\<lambda>w. Inr (w\<lparr>tw_private := rest\<rparr>))))))))))"

section \<open>Dealing out a bulk\<close>

text \<open>What a bulk does to the workers at the positions \<open>is\<close>: each gets its part, the others keep
  what they have.\<close>

definition dealt :: "thread_pool \<Rightarrow> thread_pool \<Rightarrow> nat list \<Rightarrow> task_id list list \<Rightarrow> bool" where
  "dealt p p' is parts \<longleftrightarrow>
     length parts = length is \<and> tp_name p' = tp_name p \<and> tp_idle_set p' = tp_idle_set p \<and>
     length (tp_workers p') = length (tp_workers p) \<and>
     (\<forall>j < length is. tw_public (tp_workers p' ! (is ! j)) = tw_public (tp_workers p ! (is ! j)) @ parts ! j \<and>
        tw_private (tp_workers p' ! (is ! j)) = tw_private (tp_workers p ! (is ! j)) \<and>
        \<not> tw_idle (tp_workers p' ! (is ! j))) \<and>
     (\<forall>k. k \<notin> set is \<longrightarrow> tp_workers p' ! k = tp_workers p ! k)"

lemma dealt_Nil: "dealt p p [] []"
  by (simp add: dealt_def)

lemma dealt_Cons:
  assumes "dealt p1 p2 is parts" "i \<notin> set is" "i < length (tp_workers p)"
    and "p1 = p\<lparr>tp_workers := (tp_workers p)[i := w]\<rparr>"
    and "tw_public w = tw_public (tp_workers p ! i) @ part" "tw_private w = tw_private (tp_workers p ! i)"
    and "\<not> tw_idle w"
  shows "dealt p p2 (i # is) (part # parts)"
proof -
  have i: "tp_workers p2 ! i = w" using assms(1-4) by (auto simp: dealt_def)
  have "tp_workers p1 ! (is ! j) = tp_workers p ! (is ! j)" if "j < length is" for j
  proof -
    have "is ! j \<noteq> i" using that assms(2) nth_mem by metis
    with assms(4) show ?thesis by simp
  qed
  with assms i show ?thesis
    by (auto simp: dealt_def nth_Cons split: nat.splits)
qed

text \<open>The worker at the head of the loop gets its slice.\<close>

lemma worker_update_accepting:
  assumes "accepting (tp_workers p ! i)"
  shows "\<exists>w. worker_update p i (enqueue_foreign name ts) = Inr (p\<lparr>tp_workers := (tp_workers p)[i := w]\<rparr>) \<and>
           tw_public w = tw_public (tp_workers p ! i) @ ts \<and>
           tw_private w = tw_private (tp_workers p ! i) \<and> \<not> tw_idle w"
  using enqueue_foreign_accepting [OF assms, of name ts] by (auto simp: worker_update_def)

lemma bulk_loop_spec:
  assumes "distinct is" "\<forall>i \<in> set is. i < length (tp_workers p) \<and> accepting (tp_workers p ! i)"
    and "0 < d" "e = b + d" "b + length is * d + x = length tasks" "x \<le> length is"
  shows "\<exists>p' parts. bulk_loop d tasks is (b, e, x) p = Inr p' \<and> dealt p p' is parts \<and>
           concat parts = drop b tasks \<and>
           (\<forall>j < length is. length (parts ! j) = d + (if j < x then 1 else 0))"
  using assms
proof (induction "is" arbitrary: b e x p)
  case Nil
  then show ?case by (auto intro: dealt_Nil)
next
  case (Cons i "is")
  define e' where "e' = (if x \<noteq> 0 then e + 1 else e)"
  define x' where "x' = (if x \<noteq> 0 then x - 1 else x)"
  define part where "part = take (e' - b) (drop b tasks)"
  have e': "b < e'" "e' + length is * d + x' = length tasks" "x' \<le> length is"
    using Cons.prems by (auto simp: e'_def x'_def)
  then have le: "e' \<le> length tasks" "b < length tasks" by auto
  have len: "length part = d + (if 0 < x then 1 else 0)"
    using le e'(1) Cons.prems(4) by (auto simp: part_def e'_def)
  have split: "drop b tasks = part @ drop e' tasks"
    using e'(1) by (metis append_take_drop_id drop_drop le_add_diff_inverse2 less_imp_le part_def)
  obtain w where w: "worker_update p i (enqueue_foreign (tp_name p) part) =
      Inr (p\<lparr>tp_workers := (tp_workers p)[i := w]\<rparr>)"
    "tw_public w = tw_public (tp_workers p ! i) @ part"
    "tw_private w = tw_private (tp_workers p ! i)" "\<not> tw_idle w"
    using worker_update_accepting Cons.prems(2) by (metis list.set_intros(1))
  let ?p = "p\<lparr>tp_workers := (tp_workers p)[i := w]\<rparr>"
  have acc: "\<forall>k \<in> set is. k < length (tp_workers ?p) \<and> accepting (tp_workers ?p ! k)"
    using Cons.prems(1,2) by (auto simp: nth_list_update)
  obtain p' parts where rec: "bulk_loop d tasks is (e', e' + d, x') ?p = Inr p'"
    "dealt ?p p' is parts" "concat parts = drop e' tasks"
    "\<forall>j < length is. length (parts ! j) = d + (if j < x' then 1 else 0)"
    using Cons.IH [of ?p "e' + d" e' x'] Cons.prems(1,3) acc e' by auto
  have step: "bulk_loop d tasks (i # is) (b, e, x) p = Inr p'"
    using le w(1) rec(1) by (simp add: e'_def x'_def part_def Let_def split: if_splits)
  have d: "dealt p p' (i # is) (part # parts)"
    using dealt_Cons [OF rec(2) _ _ refl w(2-4)] Cons.prems(1,2) by auto
  have sizes: "length ((part # parts) ! j) = d + (if j < x then 1 else 0)" if "j < length (i # is)" for j
    using that len rec(4) by (cases j) (auto simp: x'_def)
  have "concat (part # parts) = drop b tasks" using rec(3) split by simp
  with step d sizes show ?case by blast
qed

text \<open>C15: a bulk is dealt out completely and evenly.  When at least as many tasks as workers come
  from outside the pool and the workers accept tasks, no assertion fails; the workers get
  consecutive slices that together are the bulk, in order, and whose sizes differ by at most
  one, so that every worker gets a task; nothing else in the queues changes.\<close>

theorem bulk_enqueue_partition:
  assumes "0 < length (tp_workers p)" "length (tp_workers p) \<le> length tasks"
    and "\<forall>w \<in> set (tp_workers p). accepting w"
  shows "\<exists>p' parts. pool_enqueue_bulk p tasks = Inr p' \<and>
           dealt p p' [0..<length (tp_workers p)] parts \<and> concat parts = tasks \<and>
           (\<forall>part \<in> set parts. length part = length tasks div length (tp_workers p) \<or>
                                length part = length tasks div length (tp_workers p) + 1)"
proof -
  let ?n = "length (tp_workers p)"
  let ?d = "length tasks div ?n"
  let ?x = "length tasks - ?d * ?n"
  have x: "?x = length tasks mod ?n" by (rule minus_div_mult_eq_mod)
  have d: "0 < ?d" using assms(1,2) by (simp add: div_greater_zero_iff)
  have e: "?d = 0 + ?d" by simp
  have sum: "0 + length [0..<?n] * ?d + ?x = length tasks"
    using div_mult_mod_eq [of "length tasks" ?n] by (simp add: x mult.commute)
  have le: "?x \<le> length [0..<?n]" using assms(1) unfolding x by (simp add: less_imp_le)
  have acc: "\<forall>i \<in> set [0..<?n]. i < ?n \<and> accepting (tp_workers p ! i)" using assms(3) by simp
  obtain p' parts where
    r: "bulk_loop ?d tasks [0..<?n] (0, ?d, ?x) p = Inr p'" "dealt p p' [0..<?n] parts"
       "concat parts = drop 0 tasks"
       "\<forall>j < length [0..<?n]. length (parts ! j) = ?d + (if j < ?x then 1 else 0)"
    using bulk_loop_spec [OF distinct_upt acc d e sum le] by blast
  have "length part = ?d \<or> length part = ?d + 1" if pt: "part \<in> set parts" for part
  proof -
    obtain j where "j < length parts" "part = parts ! j" using pt by (auto simp: in_set_conv_nth)
    moreover from this have "j < length [0..<?n]" using r(2) by (simp add: dealt_def)
    ultimately show ?thesis using r(4) by simp
  qed
  then have "\<forall>part \<in> set parts. length part = ?d \<or> length part = ?d + 1" by blast
  moreover have "pool_enqueue_bulk p tasks = Inr p'" using r(1) by (simp add: pool_enqueue_bulk_def Let_def)
  ultimately show ?thesis using r(2) r(3) [unfolded drop_0] by blast
qed


theorem bulk_enqueue_partition_witness:
  "\<exists>p' parts. pool_enqueue_bulk (thread_pool_new ''pool'' 2) [10, 11, 12] = Inr p' \<and>
     concat parts = [10, 11, 12 :: nat] \<and> (\<forall>part \<in> set parts. length part = Suc 0 \<or> length part = Suc (Suc 0))"
proof -
  let ?p = "thread_pool_new ''pool'' 2"
  have "accepting pool_worker_init" by (simp add: accepting_def pool_worker_init_def)
  then have acc: "\<forall>w \<in> set (tp_workers ?p). accepting w" and n: "length (tp_workers ?p) = 2"
    by (simp_all add: thread_pool_new_def)
  have "length [10, 11, 12 :: nat] div 2 = 1" by simp
  with bulk_enqueue_partition [OF _ _ acc, of "[10, 11, 12]", unfolded n] show ?thesis by auto
qed

section \<open>Donating tasks to idle workers\<close>

lemma balance_loop_spec:
  assumes "distinct ks" "\<forall>k \<in> set ks. k < length (tp_workers p) \<and> k \<noteq> me \<and> accepting (tp_workers p ! k)"
    and "0 < d" "e = b + d" "length rest = (length ks + 1) * d + x" "x \<le> length ks"
  shows "\<exists>b' p' parts rest'.
           balance_loop me d ks (replicate b None @ map Some rest, b, e, x) p =
             Inr (replicate b' None @ map Some rest', b', p') \<and>
           b' + length rest' = b + length rest \<and>
           dealt p p' ks parts \<and> concat parts @ rest' = rest \<and> length rest' = d \<and>
           (\<forall>j < length ks. length (parts ! j) = d + (if j < x then 1 else 0))"
  using assms
proof (induction ks arbitrary: b e x p rest)
  case Nil
  then show ?case
    by (intro exI [of _ b] exI [of _ p] exI [of _ "[]"] exI [of _ rest]) (simp add: dealt_Nil)
next
  case (Cons k ks)
  define n where "n = d + (if x \<noteq> 0 then 1 else 0)"
  define x' where "x' = (if x \<noteq> 0 then x - 1 else x)"
  define part where "part = take n rest"
  define rest1 where "rest1 = drop n rest"
  have n: "0 < n" "length rest = n + (length ks + 1) * d + x'" "x' \<le> length ks"
    using Cons.prems(3,5,6) by (auto simp: n_def x'_def)
  have len: "length part = n" "rest = part @ rest1" "length rest1 = (length ks + 1) * d + x'"
    using n by (simp_all add: part_def rest1_def)
  let ?q = "replicate b None @ map Some rest"
  have q: "map the (take n (map Some rest)) = part"
    "replicate b None @ replicate n None @ drop n (map Some rest) =
       replicate (b + n) None @ map Some rest1"
    by (simp_all add: rest1_def part_def take_map drop_map replicate_add o_def)
  obtain w where w: "worker_update p k (enqueue_foreign (tp_name p) part) =
      Inr (p\<lparr>tp_workers := (tp_workers p)[k := w]\<rparr>)"
    "tw_public w = tw_public (tp_workers p ! k) @ part"
    "tw_private w = tw_private (tp_workers p ! k)" "\<not> tw_idle w"
    using worker_update_accepting Cons.prems(2) by (metis list.set_intros(1))
  let ?p = "p\<lparr>tp_workers := (tp_workers p)[k := w]\<rparr>"
  have acc: "\<forall>i \<in> set ks. i < length (tp_workers ?p) \<and> i \<noteq> me \<and> accepting (tp_workers ?p ! i)"
    using Cons.prems(1,2) by (auto simp: nth_list_update)
  obtain b' p' parts rest' where rec:
    "balance_loop me d ks (replicate (b + n) None @ map Some rest1, b + n, b + n + d, x') ?p =
       Inr (replicate b' None @ map Some rest', b', p')"
    "b' + length rest' = b + n + length rest1"
    "dealt ?p p' ks parts" "concat parts @ rest' = rest1" "length rest' = d"
    "\<forall>j < length ks. length (parts ! j) = d + (if j < x' then 1 else 0)"
    using Cons.IH [of ?p "b + n + d" "b + n" rest1 x'] Cons.prems(1,3) acc len(3) n(3) by auto
  have ex: "(if x \<noteq> 0 then (e + 1, x - 1) else (e, x)) = (b + n, x')"
    using Cons.prems(4) by (simp add: n_def x'_def)
  have "balance_loop me d (k # ks) (?q, b, e, x) p =
      balance_loop me d ks (replicate (b + n) None @ map Some rest1, b + n, b + n + d, x') ?p"
    unfolding balance_loop.simps ex using Cons.prems(2) n(1,2) q w(1) by simp
  moreover have "dealt p p' (k # ks) (part # parts)"
    using dealt_Cons [OF rec(3) _ _ refl w(2-4)] Cons.prems(1,2) by auto
  moreover have "\<forall>j < length (k # ks). length ((part # parts) ! j) = d + (if j < x then 1 else 0)"
    using len(1) rec(6) by (auto simp: nth_Cons x'_def n_def split: nat.splits)
  moreover have "concat (part # parts) @ rest' = rest" using rec(4) len(2) by simp
  moreover have "b' + length rest' = b + length rest" using rec(2) len by simp
  ultimately show ?case
    by (intro exI [of _ b'] exI [of _ p'] exI [of _ "part # parts"] exI [of _ rest'] conjI)
      (simp_all only: rec)
qed

text \<open>The result of balancing: consecutive parts of the queue go to idle workers, at least one task
  stays, and the parts are as even as they can be.\<close>

section \<open>The tasks of a pool\<close>

definition pool_tasks :: "thread_pool \<Rightarrow> task_id multiset" where
  "pool_tasks p = sum_list (map (\<lambda>w. mset (tw_private w) + mset (tw_public w)) (tp_workers p))"

lemma pool_tasks_update:
  assumes "i < length (tp_workers p)"
    and "mset (tw_private w) + mset (tw_public w) =
         mset (tw_private (tp_workers p ! i)) + mset (tw_public (tp_workers p ! i)) + m"
    and "tp_workers q = (tp_workers p)[i := w]"
  shows "pool_tasks q = pool_tasks p + m"
proof -
  let ?f = "\<lambda>w. mset (tw_private w) + mset (tw_public w)"
  have "sum_list (map ?f ((tp_workers p)[i := w])) + ?f (tp_workers p ! i) =
      sum_list (map ?f (tp_workers p)) + ?f w"
    using assms(1)
  proof (induction "tp_workers p" arbitrary: p i)
    case Nil
    then show ?case by simp
  next
    case (Cons v vs)
    show ?case
    proof (cases i)
      case 0
      with Cons.hyps(2) [symmetric] show ?thesis by (simp add: ac_simps)
    next
      case (Suc j)
      have "sum_list (map ?f (vs[j := w])) + ?f (vs ! j) = sum_list (map ?f vs) + ?f w"
        using Cons.hyps(1) [of "p\<lparr>tp_workers := vs\<rparr>" j] Cons.hyps(2) [symmetric] Cons.prems Suc by simp
      with Cons.hyps(2) [symmetric] Suc show ?thesis by (simp add: ac_simps)
    qed
  qed
  with assms(2,3) show ?thesis by (simp add: pool_tasks_def ac_simps)
qed

lemma pool_tasks_sum:
  "pool_tasks p = (\<Sum>i<length (tp_workers p). mset (tw_private (tp_workers p ! i)) + mset (tw_public (tp_workers p ! i)))"
  by (simp add: pool_tasks_def sum_list_sum_nth atLeast0LessThan)

lemma dealt_tasks:
  assumes "dealt p p' is parts" "distinct is" "\<forall>k \<in> set is. k < length (tp_workers p)"
  shows "pool_tasks p' = pool_tasks p + mset (concat parts)"
proof -
  let ?F = "\<lambda>p i. mset (tw_private (tp_workers p ! i)) + mset (tw_public (tp_workers p ! i))"
  let ?A = "{..<length (tp_workers p)}"
  have sub: "set is \<subseteq> ?A" using assms(3) by auto
  note bij = sum.reindex_bij_betw [OF bij_betw_nth [OF assms(2) refl refl]]
  have "sum (?F p') (set is) = (\<Sum>j<length is. ?F p' (is ! j))" by (rule bij [symmetric])
  also have "\<dots> = (\<Sum>j<length is. ?F p (is ! j) + mset (parts ! j))"
    using assms(1) by (intro sum.cong) (auto simp: dealt_def)
  also have "\<dots> = sum (?F p) (set is) + (\<Sum>j<length is. mset (parts ! j))"
    using sum.distrib [of "\<lambda>j. ?F p (is ! j)" "\<lambda>j. mset (parts ! j)" "{..<length is}"] bij [of "?F p"]
    by (simp only:)
  also have "(\<Sum>j<length is. mset (parts ! j)) = mset (concat parts)"
    using assms(1) by (simp add: dealt_def mset_concat sum_list_sum_nth atLeast0LessThan)
  finally have dealt: "sum (?F p') (set is) = sum (?F p) (set is) + mset (concat parts)" .
  have rest: "sum (?F p') (?A - set is) = sum (?F p) (?A - set is)"
    using assms(1) by (intro sum.cong) (auto simp: dealt_def)
  have "pool_tasks p' = sum (?F p') (?A - set is) + sum (?F p') (set is)"
    using assms(1) sum.subset_diff [OF sub, of "?F p'"] by (simp add: pool_tasks_sum dealt_def)
  also have "\<dots> = sum (?F p) (?A - set is) + sum (?F p) (set is) + mset (concat parts)"
    by (simp only: rest dealt ac_simps)
  also have "\<dots> = pool_tasks p + mset (concat parts)"
    using sum.subset_diff [OF sub, of "?F p"] by (simp add: pool_tasks_sum)
  finally show ?thesis .
qed

definition balanced :: "nat \<Rightarrow> thread_pool \<Rightarrow> thread_pool \<Rightarrow> nat list \<Rightarrow> task_id list list \<Rightarrow> bool" where
  "balanced me p p' found parts \<longleftrightarrow>
     (let queue = tw_private (tp_workers p ! me); rest = tw_private (tp_workers p' ! me) in
      length (tp_workers p') = length (tp_workers p) \<and>
      concat parts @ rest = queue \<and> (queue \<noteq> [] \<longrightarrow> rest \<noteq> []) \<and>
      (\<forall>part \<in> set parts. length rest \<le> length part \<and> length part \<le> length rest + 1) \<and>
      length parts = length found \<and> distinct found \<and> me \<notin> set found \<and>
      (\<forall>k \<in> set found. k < length (tp_workers p) \<and> m_idle_flags (tp_idle_set p) ! k) \<and>
      (\<forall>j < length found. tw_public (tp_workers p' ! (found ! j)) =
           tw_public (tp_workers p ! (found ! j)) @ parts ! j \<and> \<not> tw_idle (tp_workers p' ! (found ! j))) \<and>
      (tp_workers p' ! me)\<lparr>tw_private := queue\<rparr> = tp_workers p ! me \<and>
      (\<forall>k. k \<noteq> me \<longrightarrow> k \<notin> set found \<longrightarrow> tp_workers p' ! k = tp_workers p ! k) \<and>
      pool_tasks p' = pool_tasks p \<and> idle_inv (tp_idle_set p') \<and>
      length (m_idle_flags (tp_idle_set p')) = length (m_idle_flags (tp_idle_set p)) \<and>
      (\<forall>k < length (tp_workers p). m_idle_flags (tp_idle_set p') ! k =
           (m_idle_flags (tp_idle_set p) ! k \<and> k \<notin> set found)))"

lemma balanced_none:
  assumes "idle_inv idle" "length (m_idle_flags idle) = length (m_idle_flags (tp_idle_set p))"
    and "\<forall>k < length (tp_workers p). m_idle_flags idle ! k = m_idle_flags (tp_idle_set p) ! k"
  shows "balanced me p (p\<lparr>tp_idle_set := idle\<rparr>) [] []"
  using assms by (simp add: balanced_def pool_tasks_def)

lemma donation_arith:
  fixes n m :: nat
  assumes "0 < m" "m \<le> n - 1" "2 \<le> n"
  shows "0 < n div (m + 1)" "n = (m + 1) * (n div (m + 1)) + (n - n div (m + 1) * (m + 1))"
    "n - n div (m + 1) * (m + 1) \<le> m"
proof -
  show "0 < n div (m + 1)" using assms by (simp add: div_greater_zero_iff)
  have x: "n - n div (m + 1) * (m + 1) = n mod (m + 1)" by (rule minus_div_mult_eq_mod)
  show "n = (m + 1) * (n div (m + 1)) + (n - n div (m + 1) * (m + 1))"
    unfolding x by (rule mult_div_mod_eq [symmetric])
  show "n - n div (m + 1) * (m + 1) \<le> m"
    unfolding x using mod_less_divisor [of "m + 1" n] by (simp add: less_Suc_eq_le)
qed

lemma find_idle_workers_found:
  assumes "find_idle_workers me capacity mx s = Inr (found, t)" "m_idle_flags s \<noteq> []" "idle_inv s"
  shows "idle_inv t \<and> length found \<le> mx \<and> distinct found \<and> me \<notin> set found \<and>
         length (m_idle_flags t) = length (m_idle_flags s) \<and>
         (\<forall>k \<in> set found. k < length (m_idle_flags s) \<and> m_idle_flags s ! k) \<and>
         (\<forall>k < length (m_idle_flags s). m_idle_flags t ! k = (m_idle_flags s ! k \<and> k \<notin> set found))"
proof (cases "m_approx_size s \<le> 0")
  case True
  with assms have "found = []" "t = s"
    by (auto simp: find_idle_workers_def bind_outcome_Inr_iff)
  with assms(3) show ?thesis by simp
next
  case False
  with assms(1) have "find_idle_workers_loop me (min (nat (m_approx_size s)) mx)
      [0..<length (m_idle_flags s)] s = (found, t)"
    by (auto simp: find_idle_workers_def bind_outcome_Inr_iff)
  from find_idle_workers_loop_spec [OF this assms(2,3)] show ?thesis by auto
qed

lemma balance_work_donates:
  assumes "me < length (tp_workers p)" "length (tw_private (tp_workers p ! me)) = n" "2 \<le> n"
    and "found \<noteq> []" "length found \<le> n - 1" "distinct found" "me \<notin> set found"
    and "\<forall>k \<in> set found. k < length (tp_workers p) \<and> accepting (tp_workers p ! k)"
    and "d = n div (length found + 1)" "x = n - d * (length found + 1)"
  shows "\<exists>b p' parts rest.
     balance_loop me d found (map Some (tw_private (tp_workers p ! me)), 0, d, x) p =
       Inr (replicate b None @ map Some rest, b, p') \<and> b + length rest = n \<and>
     dealt p p' found parts \<and> concat parts @ rest = tw_private (tp_workers p ! me) \<and> rest \<noteq> [] \<and>
     (\<forall>part \<in> set parts. length rest \<le> length part \<and> length part \<le> length rest + 1)"
proof -
  let ?q = "tw_private (tp_workers p ! me)"
  have m: "0 < length found" using assms(4) by simp
  note ar = donation_arith [OF m assms(5,3), folded assms(9), folded assms(10)]
  have acc: "\<forall>k \<in> set found. k < length (tp_workers p) \<and> k \<noteq> me \<and> accepting (tp_workers p ! k)"
    using assms(7,8) by auto
  have len: "length ?q = (length found + 1) * d + x" using assms(2) ar(2) by simp
  have e: "d = 0 + d" by simp
  obtain b p' parts rest where r:
    "balance_loop me d found (replicate 0 None @ map Some ?q, 0, d, x) p =
       Inr (replicate b None @ map Some rest, b, p')"
    "b + length rest = 0 + length ?q" "dealt p p' found parts" "concat parts @ rest = ?q"
    "length rest = d" "\<forall>j < length found. length (parts ! j) = d + (if j < x then 1 else 0)"
    using balance_loop_spec [OF assms(6) acc ar(1) e len ar(3)] by blast
  have "\<forall>part \<in> set parts. length rest \<le> length part \<and> length part \<le> length rest + 1"
    using r(3,5,6) by (auto simp: in_set_conv_nth dealt_def)
  moreover have "rest \<noteq> []" using r(5) ar(1) by auto
  moreover have "b + length rest = n" using r(2) assms(2) by simp
  ultimately show ?thesis using r(1,3,4) by auto
qed

lemma balanced_tasks:
  assumes "dealt (p\<lparr>tp_idle_set := idle\<rparr>) p2 found parts" "concat parts @ rest = tw_private (tp_workers p ! me)"
    and "distinct found" "\<forall>k \<in> set found. k < length (tp_workers p)" "me < length (tp_workers p)" "me \<notin> set found"
  shows "pool_tasks (p2\<lparr>tp_workers := (tp_workers p2)[me := (tp_workers p2 ! me)\<lparr>tw_private := rest\<rparr>]\<rparr>) = pool_tasks p"
proof -
  let ?p' = "p2\<lparr>tp_workers := (tp_workers p2)[me := (tp_workers p2 ! me)\<lparr>tw_private := rest\<rparr>]\<rparr>"
  have me: "tp_workers p2 ! me = tp_workers p ! me" "me < length (tp_workers p2)"
    using assms(1,5,6) by (auto simp: dealt_def)
  have "pool_tasks p2 = pool_tasks (p\<lparr>tp_idle_set := idle\<rparr>) + mset (concat parts)"
    using assms(1,3,4) by (intro dealt_tasks [of _ _ found]) auto
  moreover have "pool_tasks p2 = pool_tasks ?p' + mset (concat parts)"
    using me assms(2) [symmetric] list_update_id [of "tp_workers p2" me]
    by (intro pool_tasks_update [of me _ "tp_workers p2 ! me"]) auto
  ultimately show ?thesis by (simp add: pool_tasks_def)
qed

lemma balance_work_balanced:
  assumes "me < length (tp_workers p)" "idle_inv (tp_idle_set p)"
    and "length (m_idle_flags (tp_idle_set p)) = length (tp_workers p)"
    and "\<forall>k < length (tp_workers p). m_idle_flags (tp_idle_set p) ! k \<and> k \<noteq> me \<longrightarrow>
           accepting (tp_workers p ! k)"
  shows "\<exists>p' found parts. balance_work me p = Inr p' \<and> balanced me p p' found parts"
proof -
  let ?q = "tw_private (tp_workers p ! me)"
  let ?n = "length ?q" and ?N = "length (tp_workers p)"
  define c where "c = min (?N - 1) (?n - 1)"
  have same: "p\<lparr>tp_idle_set := tp_idle_set p\<rparr> = p" by simp
  show ?thesis
  proof (cases "?n < 2 \<or> c = 0")
    case True
    then have "balance_work me p = Inr p"
      by (auto simp: balance_work_def Let_def c_def [symmetric] simp del: One_nat_def)
    with balanced_none [OF assms(2), of p me] same show ?thesis by auto
  next
    case False
    have cap: "c \<le> ?N" "c \<le> ?n - 1" by (auto simp: c_def)
    have "\<exists>found idle. find_idle_workers me ?N c (tp_idle_set p) = Inr (found, idle)"
      using assms(1,3) cap by (auto simp: find_idle_workers_def)
    then obtain found idle where f: "find_idle_workers me ?N c (tp_idle_set p) = Inr (found, idle)"
      by blast
    have ne: "m_idle_flags (tp_idle_set p) \<noteq> []" using assms(1,3) by auto
    note fd = find_idle_workers_found [OF f ne assms(2)]
    let ?p1 = "p\<lparr>tp_idle_set := idle\<rparr>"
    show ?thesis
    proof (cases "found = []")
      case True
      then have "balance_work me p = Inr ?p1" using f False by (simp add: balance_work_def Let_def c_def [symmetric] del: One_nat_def)
      moreover have "balanced me p ?p1 [] []" using fd True assms(3) by (intro balanced_none) auto
      ultimately show ?thesis by blast
    next
      case nonempty: False
      define d where "d = ?n div (length found + 1)"
      define x where "x = ?n - d * (length found + 1)"
      have acc: "\<forall>k \<in> set found. k < length (tp_workers ?p1) \<and> accepting (tp_workers ?p1 ! k)"
        using fd assms(3,4) by auto
      obtain b p2 parts rest where r:
        "balance_loop me d found (map Some ?q, 0, d, x) ?p1 =
           Inr (replicate b None @ map Some rest, b, p2)" "b + length rest = ?n"
        "dealt ?p1 p2 found parts" "concat parts @ rest = ?q" "rest \<noteq> []"
        "\<forall>part \<in> set parts. length rest \<le> length part \<and> length part \<le> length rest + 1"
        using balance_work_donates [of me ?p1 ?n found d x] assms(1) False nonempty fd acc cap
        by (auto simp: d_def x_def)
      let ?w = "(tp_workers p2 ! me)\<lparr>tw_private := rest\<rparr>"
      let ?p' = "p2\<lparr>tp_workers := (tp_workers p2)[me := ?w]\<rparr>"
      have le: "length found \<le> ?n" using fd False cap by auto
      have bn: "b < ?n" using r(2,5) by (cases rest) auto
      have "balance_work me p = Inr ?p'"
        using f False nonempty le r(1,2,5) bn
        by (simp add: balance_work_def Let_def worker_update_def list_all_iff o_def
            c_def [symmetric] d_def [symmetric] x_def [symmetric] del: One_nat_def mult_Suc_right add_Suc_right)
      moreover have "balanced me p ?p' found parts"
        using r(3-6) fd assms(1,3) balanced_tasks [OF r(3,4)]
        by (auto simp: balanced_def dealt_def Let_def nth_list_update)
      ultimately show ?thesis by blast
    qed
  qed
qed


definition balance_demo :: thread_pool where
  "balance_demo =
     (thread_pool_new ''pool'' 3)\<lparr>tp_workers :=
        [pool_worker_init\<lparr>tw_private := [1, 2, 3, 4, 5], tw_idle := False\<rparr>, pool_worker_init,
         pool_worker_init],
      tp_idle_set := \<lparr>m_approx_size = 2, m_idle_flags = [False, True, True]\<rparr>\<rparr>"


lemma balance_demo_result:
  "map_sum id (\<lambda>p. map (\<lambda>w. (tw_private w, tw_public w)) (tp_workers p)) (balance_work 0 balance_demo) =
     Inr [([5], []), ([], [1, 2]), ([], [3, 4])]"
  by code_simp

section \<open>Routing a single task\<close>

lemma pool_local_adds:
  assumes "i < length (tp_workers p)" "\<not> tw_atomic_abort (tp_workers p ! i)"
  shows "\<exists>q. worker_update p i (enqueue_local name [t]) = Inr q \<and> pool_tasks q = pool_tasks p + {#t#}"
proof -
  let ?w = "(tp_workers p ! i)\<lparr>tw_private := tw_private (tp_workers p ! i) @ [t]\<rparr>"
  have "worker_update p i (enqueue_local name [t]) = Inr (p\<lparr>tp_workers := (tp_workers p)[i := ?w]\<rparr>)"
    using assms(2) by (simp add: worker_update_def enqueue_local_def)
  moreover have "pool_tasks (p\<lparr>tp_workers := (tp_workers p)[i := ?w]\<rparr>) = pool_tasks p + {#t#}"
    by (rule pool_tasks_update [OF assms(1)]) simp_all
  ultimately show ?thesis by blast
qed

lemma pool_foreign_adds:
  assumes "i < length (tp_workers p)" "accepting (tp_workers p ! i)"
  shows "\<exists>q. worker_update (p\<lparr>tp_idle_set := s, tp_cursor := c\<rparr>) i (enqueue_foreign name [t]) = Inr q \<and>
           pool_tasks q = pool_tasks p + {#t#}"
proof -
  obtain w where w: "enqueue_foreign name [t] (tp_workers p ! i) = Inr w"
    "tw_public w = tw_public (tp_workers p ! i) @ [t]" "tw_private w = tw_private (tp_workers p ! i)"
    using enqueue_foreign_accepting [OF assms(2)] by blast
  then have "pool_tasks (p\<lparr>tp_idle_set := s, tp_cursor := c, tp_workers := (tp_workers p)[i := w]\<rparr>) =
      pool_tasks p + {#t#}"
    by (intro pool_tasks_update [OF assms(1)]) simp_all
  with w(1) show ?thesis by (simp add: worker_update_def)
qed

text \<open>A task enqueued on a running pool is queued exactly once on that pool.  Whether the caller
  is a worker of the pool or not, the call succeeds, adds exactly that task to the queues of the
  pool's workers, and touches no other pool.\<close>

lemma pool_enqueue_adds_task:
  assumes "0 < length (tp_workers (pools a))" "idle_inv (tp_idle_set (pools a))"
    and "length (m_idle_flags (tp_idle_set (pools a))) = length (tp_workers (pools a))"
    and "\<forall>w \<in> set (tp_workers (pools a)). accepting w \<and> \<not> tw_atomic_abort w"
    and "\<forall>b i. this_worker td = Some (b, i) \<longrightarrow> b = a \<and> i < length (tp_workers (pools a))"
  shows "\<exists>q. pool_enqueue pools a td t = Inr (pools(a := q)) \<and> pool_tasks q = pool_tasks (pools a) + {#t#}"
proof -
  let ?p = "pools a"
  obtain k idle where f:
    "find_idle_worker (this_thread_hashed_id td) (this_thread_index td) (tp_idle_set ?p) = (k, idle)"
    by fastforce
  have k: "i < length (tp_workers ?p)" if "k = Some i" for i
    using find_idle_worker_correct [OF assms(2) f] assms(3) that by simp
  have acc: "accepting (tp_workers ?p ! i)" "\<not> tw_atomic_abort (tp_workers ?p ! i)"
    if "i < length (tp_workers ?p)" for i
    using assms(4) that by auto
  have loc: "\<exists>q. worker_update ?p i (enqueue_local (tp_name ?p) [t]) = Inr q \<and>
      pool_tasks q = pool_tasks ?p + {#t#}" if "i < length (tp_workers ?p)" for i
    using pool_local_adds [OF that] acc that by blast
  have fgn: "\<exists>q. worker_update (?p\<lparr>tp_idle_set := idle, tp_cursor := c\<rparr>) i (enqueue_foreign (tp_name ?p) [t]) =
      Inr q \<and> pool_tasks q = pool_tasks ?p + {#t#}" if "i < length (tp_workers ?p)" for i c
    using pool_foreign_adds [OF that] acc that by blast
  have fgn0: "\<exists>q. worker_update (?p\<lparr>tp_idle_set := idle\<rparr>) i (enqueue_foreign (tp_name ?p) [t]) =
      Inr q \<and> pool_tasks q = pool_tasks ?p + {#t#}" if "i < length (tp_workers ?p)" for i
    using fgn [OF that, of "tp_cursor ?p"] by simp
  have rr: "tp_cursor ?p mod length (tp_workers ?p) < length (tp_workers ?p)" using assms(1) by simp
  show ?thesis
  proof (cases "this_worker td")
    case None
    show ?thesis
    proof (cases k)
      case (Some i)
      with fgn0 [OF k [OF Some]] None f show ?thesis
        by (auto simp: pool_enqueue_def Let_def)
    next
      case no: None
      with fgn [OF rr, of "(tp_cursor ?p + 1) mod 2 ^ 64"] None f show ?thesis
        by (auto simp: pool_enqueue_def round_robin_def Let_def)
    qed
  next
    case (Some bi)
    obtain i where i: "bi = (a, i)" "i < length (tp_workers ?p)" using assms(5) Some by (cases bi) auto
    show ?thesis
    proof (cases "appears_empty (tp_workers ?p ! i) \<or> k = None")
      case True
      with loc [OF i(2)] Some i f show ?thesis by (auto simp: pool_enqueue_def Let_def)
    next
      case False
      then obtain j where j: "k = Some j" by blast
      with fgn0 [OF k [OF j]] Some i f False show ?thesis
        by (auto simp: pool_enqueue_def Let_def)
    qed
  qed
qed

definition external_thread :: thread_data where
  "external_thread = \<lparr>this_worker = None, this_thread_index = None, this_thread_hashed_id = 5\<rparr>"

lemma new_pool_idle: "idle_inv (tp_idle_set (thread_pool_new name 2))"
  "length (m_idle_flags (tp_idle_set (thread_pool_new name 2))) = 2"
  by (simp_all add: thread_pool_new_def idle_worker_set_init_def set_idle_def idle_inv_def
      upt_rec Let_def numeral_2_eq_2)

lemma pool_enqueue_adds_task_witness:
  "\<exists>q. pool_enqueue (\<lambda>_. thread_pool_new ''pool'' 2) 0 external_thread 7 =
         Inr ((\<lambda>_. thread_pool_new ''pool'' 2)(0 := q)) \<and>
       pool_tasks q = pool_tasks (thread_pool_new ''pool'' 2) + {#7#}"
  using new_pool_idle
  by (intro pool_enqueue_adds_task)
    (auto simp: thread_pool_new_def external_thread_def accepting_def pool_worker_init_def)

text \<open>The pool of the calling thread wins over the pool that was addressed.  A worker of one pool
  that has nothing queued and enqueues a task on another pool puts the task into its own private
  queue: the addressed pool stays as it is.\<close>

lemma pool_enqueue_wrong_pool:
  assumes "this_worker td = Some (b, i)" "b \<noteq> a" "i < length (tp_workers (pools b))"
    and "appears_empty (tp_workers (pools b) ! i)" "\<not> tw_atomic_abort (tp_workers (pools b) ! i)"
  shows "\<exists>pools'. pool_enqueue pools a td t = Inr pools' \<and> pools' a = pools a \<and>
           pool_tasks (pools' b) = pool_tasks (pools b) + {#t#}"
  using pool_local_adds [OF assms(3,5), of "tp_name (pools b)" t] assms
  by (auto simp: pool_enqueue_def Let_def)

lemma pool_enqueue_wrong_pool_witness:
  "\<exists>pools'. pool_enqueue (\<lambda>_. thread_pool_new ''pool'' 1) 0
       \<lparr>this_worker = Some (1, 0), this_thread_index = Some 0, this_thread_hashed_id = 5\<rparr> 7 = Inr pools' \<and>
     pools' 0 = thread_pool_new ''pool'' 1 \<and>
     pool_tasks (pools' 1) = pool_tasks (thread_pool_new ''pool'' 1) + {#7#}"
  using pool_enqueue_wrong_pool [of "\<lparr>this_worker = Some (1, 0), this_thread_index = Some 0,
      this_thread_hashed_id = 5\<rparr>" 1 0 0 "\<lambda>_. thread_pool_new ''pool'' 1" 7]
  by (simp add: thread_pool_new_def appears_empty_def pool_worker_init_def)

end
