(* ===== verification/Pool_Drain.thy ===== *)
theory Pool_Drain
  imports Thread_Pool
begin

text \<open>
  Running and stopping a worker of \<^verbatim>\<open>source/executors/thread_pool_executor.cpp\<close>: the loop that drains
  the private queue (\<^verbatim>\<open>drain_queue_impl\<close>), the step that moves the public queue into it
  (\<^verbatim>\<open>drain_queue\<close> after \<^verbatim>\<open>wait_for_task\<close> has returned true), and \<^verbatim>\<open>shutdown\<close>.  What a task does when it
  runs is the parameter \<open>run\<close>.  The loop need not end (a task may enqueue itself again), so it
  takes fuel; \<open>None\<close> stands for a loop that is still running.
\<close>

section \<open>Operations\<close>

definition my_worker :: "nat \<Rightarrow> thread_pool \<Rightarrow> pool_worker" where
  "my_worker me p = tp_workers p ! me"

definition set_worker :: "nat \<Rightarrow> pool_worker \<Rightarrow> thread_pool \<Rightarrow> thread_pool" where
  "set_worker me w p = p\<lparr>tp_workers := (tp_workers p)[me := w]\<rparr>"

text \<open>The result holds the answer of \<^verbatim>\<open>drain_queue_impl\<close> and the tasks run, in order.\<close>

fun drain_queue_impl ::
  "nat \<Rightarrow> (task_id \<Rightarrow> thread_pool \<Rightarrow> thread_pool outcome) \<Rightarrow> nat \<Rightarrow> thread_pool \<Rightarrow>
     (bool \<times> task_id list \<times> thread_pool) outcome option" where
  "drain_queue_impl 0 run me p = None"
| "drain_queue_impl (Suc fuel) run me p =
     (if tw_private (my_worker me p) = [] then Some (Inr (True, [], p))
      else case balance_work me p of
        Inl e \<Rightarrow> Some (Inl e)
      | Inr p1 \<Rightarrow>
          let w = my_worker me p1 in
          if tw_atomic_abort w then Some (Inr (False, [], set_worker me (w\<lparr>tw_idle := True\<rparr>) p1))
          else if tw_private w = [] then Some (Inl (Assertion_failed ''!m_private_queue.empty()''))
          else let task = last (tw_private w);
                   p2 = set_worker me (w\<lparr>tw_private := butlast (tw_private w)\<rparr>) p1 in
            (case run task p2 of
               Inl e \<Rightarrow> Some (Inl e)
             | Inr p3 \<Rightarrow> map_option (map_sum id (\<lambda>(r, ran, q). (r, task # ran, q)))
                             (drain_queue_impl fuel run me p3)))"

text \<open>\<^verbatim>\<open>drain_queue\<close> from the point where \<^verbatim>\<open>wait_for_task\<close> has returned true with the lock held.\<close>

definition drain_queue ::
  "nat \<Rightarrow> (task_id \<Rightarrow> thread_pool \<Rightarrow> thread_pool outcome) \<Rightarrow> nat \<Rightarrow> thread_pool \<Rightarrow>
     (bool \<times> task_id list \<times> thread_pool) outcome option" where
  "drain_queue fuel run me p =
     (let w = (my_worker me p)\<lparr>tw_found_or_abort := False\<rparr> in
      if tw_public w = [] \<and> \<not> tw_abort w then Some (Inl (Assertion_failed ''!m_public_queue.empty() || m_abort''))
      else if tw_abort w then Some (Inr (False, [], set_worker me (w\<lparr>tw_idle := True\<rparr>) p))
      else if tw_private w \<noteq> [] then Some (Inl (Assertion_failed ''m_private_queue.empty()''))
      else drain_queue_impl fuel run me
             (set_worker me (w\<lparr>tw_private := tw_public w, tw_public := tw_private w\<rparr>) p))"

text \<open>The first half of \<^verbatim>\<open>shutdown\<close> of a worker, up to the join, and the second half after it.\<close>

definition worker_shutdown_begin :: "pool_worker \<Rightarrow> pool_worker outcome" where
  "worker_shutdown_begin w =
     (if tw_atomic_abort w then Inl (Assertion_failed ''!m_atomic_abort'')
      else if tw_semaphore w = 0
           then Inr (w\<lparr>tw_atomic_abort := True, tw_abort := True, tw_found_or_abort := True, tw_semaphore := 1\<rparr>)
           else Inl (Undefined_behaviour ''binary_semaphore released above its maximum''))"

definition worker_shutdown_end :: "pool_worker \<Rightarrow> pool_worker" where
  "worker_shutdown_end w = w\<lparr>tw_public := [], tw_private := []\<rparr>"

text \<open>\<open>joined\<close> is what the worker's own thread does between the two halves, before it is joined.\<close>

definition worker_shutdown :: "(pool_worker \<Rightarrow> pool_worker) \<Rightarrow> pool_worker \<Rightarrow> pool_worker outcome" where
  "worker_shutdown joined w =
     bind_outcome (worker_shutdown_begin w) (\<lambda>w'. Inr (worker_shutdown_end (joined w')))"

fun shutdown_workers ::
  "(pool_worker \<Rightarrow> pool_worker) \<Rightarrow> pool_worker list \<Rightarrow> pool_worker list outcome" where
  "shutdown_workers joined [] = Inr []"
| "shutdown_workers joined (w # ws) =
     bind_outcome (worker_shutdown joined w) (\<lambda>w'.
       bind_outcome (shutdown_workers joined ws) (\<lambda>ws'. Inr (w' # ws')))"

definition pool_shutdown :: "(pool_worker \<Rightarrow> pool_worker) \<Rightarrow> thread_pool \<Rightarrow> thread_pool outcome" where
  "pool_shutdown joined p =
     (if tp_abort p then Inr p
      else bind_outcome (shutdown_workers joined (tp_workers p))
             (\<lambda>ws. Inr (p\<lparr>tp_abort := True, tp_workers := ws\<rparr>)))"

definition pool_shutdown_requested :: "thread_pool \<Rightarrow> bool" where
  "pool_shutdown_requested p = tp_abort p"

definition pool_max_concurrency_level :: "thread_pool \<Rightarrow> nat" where
  "pool_max_concurrency_level p = length (tp_workers p)"

text \<open>The destructor of the executor is \<^verbatim>\<open>shutdown\<close> followed by the destructors of the workers.\<close>

definition worker_destructor :: "pool_worker \<Rightarrow> unit outcome" where
  "worker_destructor w = assert_that (tw_idle w) ''m_idle''"

section \<open>A worker drains its queue\<close>

definition pool_ok :: "nat \<Rightarrow> thread_pool \<Rightarrow> bool" where
  "pool_ok me p \<longleftrightarrow>
     me < length (tp_workers p) \<and> idle_inv (tp_idle_set p) \<and>
     length (m_idle_flags (tp_idle_set p)) = length (tp_workers p) \<and>
     (\<forall>k < length (tp_workers p). m_idle_flags (tp_idle_set p) ! k \<and> k \<noteq> me \<longrightarrow> accepting (tp_workers p ! k))"

lemma balance_work_keeps:
  assumes "pool_ok me p"
  shows "\<exists>p' given. balance_work me p = Inr p' \<and> pool_ok me p' \<and> pool_tasks p' = pool_tasks p \<and>
           tw_private (my_worker me p) = given @ tw_private (my_worker me p') \<and>
           (tw_private (my_worker me p) \<noteq> [] \<longrightarrow> tw_private (my_worker me p') \<noteq> []) \<and>
           tw_atomic_abort (my_worker me p') = tw_atomic_abort (my_worker me p)"
proof -
  obtain p' found parts where b: "balance_work me p = Inr p'" "balanced me p p' found parts"
    using balance_work_balanced [of me p] assms unfolding pool_ok_def by blast
  then have "tw_atomic_abort ((tp_workers p' ! me)\<lparr>tw_private := tw_private (tp_workers p ! me)\<rparr>) =
      tw_atomic_abort (tp_workers p ! me)"
    by (simp only: balanced_def Let_def)
  then have "tw_atomic_abort (my_worker me p') = tw_atomic_abort (my_worker me p)"
    by (simp add: my_worker_def)
  moreover have "pool_ok me p'" using assms b(2) unfolding pool_ok_def balanced_def Let_def by auto
  moreover have "pool_tasks p' = pool_tasks p"
    and "tw_private (my_worker me p) = concat parts @ tw_private (my_worker me p')"
    and "tw_private (my_worker me p) \<noteq> [] \<longrightarrow> tw_private (my_worker me p') \<noteq> []"
    using b(2) unfolding balanced_def Let_def my_worker_def by simp_all
  ultimately show ?thesis using b(1) by blast
qed

text \<open>A task that enqueues the tasks \<open>spawn t\<close> on the worker that runs it.\<close>

definition run_spawning :: "(task_id \<Rightarrow> task_id list) \<Rightarrow> nat \<Rightarrow> task_id \<Rightarrow> thread_pool \<Rightarrow> thread_pool outcome" where
  "run_spawning spawn me t p = worker_update p me (enqueue_local (tp_name p) (spawn t))"

lemma set_worker_simps [simp]:
  "length (tp_workers (set_worker me w p)) = length (tp_workers p)"
  "tp_idle_set (set_worker me w p) = tp_idle_set p"
  "me < length (tp_workers p) \<Longrightarrow> my_worker me (set_worker me w p) = w"
  "k \<noteq> me \<Longrightarrow> tp_workers (set_worker me w p) ! k = tp_workers p ! k"
  "set_worker me v (set_worker me w p) = set_worker me v p"
  by (simp_all add: set_worker_def my_worker_def)

lemma pool_ok_set_worker [simp]: "pool_ok me (set_worker me w p) = pool_ok me p"
  by (auto simp: pool_ok_def)

lemma pool_tasks_set_worker:
  assumes "me < length (tp_workers p)"
    and "mset (tw_private w) + mset (tw_public w) + m =
         mset (tw_private (my_worker me p)) + mset (tw_public (my_worker me p)) + n"
  shows "pool_tasks (set_worker me w p) + m = pool_tasks p + n"
proof -
  let ?f = "\<lambda>w. mset (tw_private w) + mset (tw_public w)"
  have eq: "pool_tasks q = (\<Sum>i\<in>{..<length (tp_workers q)} - {me}. ?f (tp_workers q ! i)) + ?f (my_worker me q)"
    if "me < length (tp_workers q)" for q
    using that sum.remove [of "{..<length (tp_workers q)}" me "\<lambda>i. ?f (tp_workers q ! i)"]
    by (simp add: pool_tasks_sum my_worker_def ac_simps)
  have rest: "(\<Sum>i\<in>{..<length (tp_workers p)} - {me}. ?f (tp_workers (set_worker me w p) ! i)) =
      (\<Sum>i\<in>{..<length (tp_workers p)} - {me}. ?f (tp_workers p ! i))"
    by (intro sum.cong) auto
  have "pool_tasks (set_worker me w p) =
      (\<Sum>i\<in>{..<length (tp_workers p)} - {me}. ?f (tp_workers p ! i)) + ?f w"
    using eq [of "set_worker me w p"] assms(1) rest by simp
  with eq [OF assms(1)] assms(2) show ?thesis by (simp add: ac_simps)
qed

lemma drain_step:
  fixes spawn :: "task_id \<Rightarrow> task_id list"
  assumes ok: "pool_ok me p" and ab: "\<not> tw_atomic_abort (my_worker me p)"
    and q: "tw_private (my_worker me p) = q @ [t]"
    and p'_def: "p' = set_worker me ((my_worker me p)\<lparr>tw_private := q @ spawn t\<rparr>) p"
  shows "run_spawning spawn me t (set_worker me ((my_worker me p)\<lparr>tw_private := q\<rparr>) p) = Inr p'"
    and "pool_ok me p'" "\<not> tw_atomic_abort (my_worker me p')" "tw_private (my_worker me p') = q @ spawn t"
    and "pool_tasks p' + {#t#} = pool_tasks p + mset (spawn t)"
proof -
  have me: "me < length (tp_workers p)" using ok by (simp add: pool_ok_def)
  then show "run_spawning spawn me t (set_worker me ((my_worker me p)\<lparr>tw_private := q\<rparr>) p) = Inr p'"
    using ab by (simp add: run_spawning_def worker_update_def enqueue_local_def p'_def set_worker_def my_worker_def)
  show "pool_ok me p'" "\<not> tw_atomic_abort (my_worker me p')" "tw_private (my_worker me p') = q @ spawn t"
    using ok ab me by (simp_all add: p'_def)
  show "pool_tasks p' + {#t#} = pool_tasks p + mset (spawn t)"
    unfolding p'_def using me q by (intro pool_tasks_set_worker) simp_all
qed

text \<open>C17: draining ends and loses nothing.  When the tasks that a task enqueues are together smaller
  than the task itself, in any measure, a worker that is not told to stop empties its private
  queue within as many rounds as the queue measures.  Every task that was in the pool or was
  enqueued on the way has then either been run exactly once or is still queued, at another worker.\<close>

theorem drain_queue_terminates:
  assumes "pool_ok me p" "\<not> tw_atomic_abort (my_worker me p)"
    and "\<forall>t. sum_list (map weight (spawn t)) < (weight t :: nat)"
    and "sum_list (map weight (tw_private (my_worker me p))) < fuel"
  shows "\<exists>ran p'. drain_queue_impl fuel (run_spawning spawn me) me p = Some (Inr (True, ran, p')) \<and>
           tw_private (my_worker me p') = [] \<and>
           mset ran + pool_tasks p' = pool_tasks p + mset (concat (map spawn ran))"
  using assms(1,2,4)
proof (induction fuel arbitrary: p)
  case 0
  then show ?case by simp
next
  case (Suc fuel)
  show ?case
  proof (cases "tw_private (my_worker me p) = []")
    case True
    then show ?thesis by simp
  next
    case False
    obtain p1 given where b: "balance_work me p = Inr p1" "pool_ok me p1" "pool_tasks p1 = pool_tasks p"
        "tw_private (my_worker me p) = given @ tw_private (my_worker me p1)"
        "tw_private (my_worker me p1) \<noteq> []" "\<not> tw_atomic_abort (my_worker me p1)"
      using balance_work_keeps [OF Suc.prems(1)] Suc.prems(2) False by auto
    obtain q t where q: "tw_private (my_worker me p1) = q @ [t]" using b(5) by (cases rule: rev_cases) auto
    note step = drain_step [OF b(2,6) q refl, of spawn]
    let ?p' = "set_worker me ((my_worker me p1)\<lparr>tw_private := q @ spawn t\<rparr>) p1"
    have "sum_list (map weight (tw_private (my_worker me ?p'))) < fuel"
      using Suc.prems(3) b(4) q step(4) assms(3) [rule_format, of t] by simp
    from Suc.IH [OF step(2,3) this] obtain ran p2 where r:
      "drain_queue_impl fuel (run_spawning spawn me) me ?p' = Some (Inr (True, ran, p2))"
      "tw_private (my_worker me p2) = []"
      "mset ran + pool_tasks p2 = pool_tasks ?p' + mset (concat (map spawn ran))" by blast
    have "drain_queue_impl (Suc fuel) (run_spawning spawn me) me p = Some (Inr (True, t # ran, p2))"
      using False b(1,6) q step(1) r(1) by (simp add: Let_def)
    moreover have "mset (t # ran) + pool_tasks p2 = pool_tasks p + mset (concat (map spawn (t # ran)))"
      using r(3) step(5) b(3) by (simp add: ac_simps)
    ultimately show ?thesis using r(2) by blast
  qed
qed

definition drain_demo :: thread_pool where
  "drain_demo = (thread_pool_new ''pool'' 1)\<lparr>
     tp_workers := [pool_worker_init\<lparr>tw_private := [1, 2], tw_idle := False\<rparr>],
     tp_idle_set := \<lparr>m_approx_size = 0, m_idle_flags = [False]\<rparr>\<rparr>"

theorem drain_queue_terminates_witness:
  "\<exists>ran p'. drain_queue_impl 6 (run_spawning (\<lambda>t. if t = 0 then [] else [t - 1]) 0) 0 drain_demo =
       Some (Inr (True, ran, p')) \<and>
     tw_private (my_worker 0 p') = [] \<and>
     mset ran + pool_tasks p' =
       pool_tasks drain_demo + mset (concat (map (\<lambda>t. if t = 0 then [] else [t - 1]) ran))"
  by (rule drain_queue_terminates [of 0 drain_demo Suc "\<lambda>t. if t = 0 then [] else [t - 1]" 6])
    (auto simp: pool_ok_def drain_demo_def my_worker_def pool_worker_init_def idle_inv_def)

text \<open>Without donations the newest task runs first.\<close>

lemma drain_demo_order:
  "map_option (map_sum id (fst \<circ> snd)) (drain_queue_impl 6 (run_spawning (\<lambda>t. if t = 0 then [] else [t - 1]) 0) 0
     drain_demo) = Some (Inr [2, 1, 0, 1, 0])"
  by code_simp

section \<open>Shutdown\<close>

definition stopped :: "pool_worker \<Rightarrow> bool" where
  "stopped w \<longleftrightarrow> tw_atomic_abort w \<and> tw_abort w \<and> tw_public w = [] \<and> tw_private w = []"

text \<open>What a worker thread may do to its worker before it is joined: the flags that stop it stay set.\<close>

definition joins :: "(pool_worker \<Rightarrow> pool_worker) \<Rightarrow> bool" where
  "joins joined \<longleftrightarrow> (\<forall>w. tw_atomic_abort (joined w) = tw_atomic_abort w \<and> tw_abort (joined w) = tw_abort w)"

lemma shutdown_workers_stopped:
  assumes "joins joined" "\<forall>w \<in> set ws. \<not> tw_atomic_abort w \<and> tw_semaphore w = 0"
  shows "\<exists>ws'. shutdown_workers joined ws = Inr ws' \<and> length ws' = length ws \<and> (\<forall>w \<in> set ws'. stopped w)"
  using assms(2)
proof (induction ws)
  case (Cons w ws)
  then show ?case
    using assms(1)
    by (auto simp: worker_shutdown_def worker_shutdown_begin_def worker_shutdown_end_def stopped_def joins_def)
qed simp

text \<open>After shutdown a pool accepts nothing and holds nothing.  Shutting down a pool whose
  semaphores are at zero succeeds and empties every queue; from then on enqueuing one task on it
  throws \<^verbatim>\<open>errors::runtime_shutdown\<close> with the pool's name, for workers and for other threads;
  and shutting down again does nothing.\<close>

lemma pool_shutdown_stops:
  assumes "joins joined" "\<not> tp_abort p" "0 < length (tp_workers p)"
    and "\<forall>w \<in> set (tp_workers p). \<not> tw_atomic_abort w \<and> tw_semaphore w = 0"
    and "idle_inv (tp_idle_set p)" "length (m_idle_flags (tp_idle_set p)) = length (tp_workers p)"
    and "\<forall>b i. this_worker td = Some (b, i) \<longrightarrow> b = a \<and> i < length (tp_workers p)"
  shows "\<exists>p'. pool_shutdown joined p = Inr p' \<and> pool_shutdown_requested p' \<and> pool_tasks p' = {#} \<and>
           pool_enqueue (pools(a := p')) a td t =
             Inl (Runtime_shutdown (tp_name p @ k_executor_shutdown_err_msg)) \<and>
           pool_shutdown joined p' = Inr p'"
proof -
  obtain ws where ws: "shutdown_workers joined (tp_workers p) = Inr ws" "length ws = length (tp_workers p)"
      "\<forall>w \<in> set ws. stopped w"
    using shutdown_workers_stopped [OF assms(1,4)] by blast
  let ?p = "p\<lparr>tp_abort := True, tp_workers := ws\<rparr>"
  have st: "stopped (ws ! i)" if "i < length (tp_workers p)" for i using ws(2,3) that by simp
  have tasks: "pool_tasks ?p = {#}" using st ws(2) by (simp add: pool_tasks_sum stopped_def)
  obtain k idle where f:
    "find_idle_worker (this_thread_hashed_id td) (this_thread_index td) (tp_idle_set p) = (k, idle)"
    by fastforce
  have k: "i < length (tp_workers p)" if "k = Some i" for i
    using find_idle_worker_correct [OF assms(5) f] assms(6) that by simp
  have "pool_enqueue (pools(a := ?p)) a td t = Inl (Runtime_shutdown (tp_name p @ k_executor_shutdown_err_msg))"
    using f k st st [of "tp_cursor p mod length ws"] assms(3,7) ws(2)
    by (auto simp: pool_enqueue_def Let_def round_robin_def worker_update_def enqueue_local_def
        enqueue_foreign_def stopped_def throw_runtime_shutdown_exception_def split: option.splits)
  with tasks ws(1) assms(2) show ?thesis by (auto simp: pool_shutdown_def pool_shutdown_requested_def)
qed

lemma pool_shutdown_stops_witness:
  "\<exists>p'. pool_shutdown id (thread_pool_new ''pool'' 2) = Inr p' \<and> pool_shutdown_requested p' \<and>
     pool_tasks p' = {#} \<and>
     pool_enqueue ((\<lambda>_. thread_pool_new ''pool'' 2)(0 := p')) 0 external_thread 7 =
       Inl (Runtime_shutdown (tp_name (thread_pool_new ''pool'' 2) @ k_executor_shutdown_err_msg)) \<and>
     pool_shutdown id p' = Inr p'"
  using new_pool_idle
  by (intro pool_shutdown_stops)
    (auto simp: thread_pool_new_def external_thread_def pool_worker_init_def joins_def)

end
