(* ===== verification/Pool_Protocol.thy ===== *)
theory Pool_Protocol
  imports Thread_Pool
begin

text \<open>
  One worker of the thread pool against any number of enqueuing threads and one thread that shuts
  it down: \<^verbatim>\<open>enqueue_foreign\<close>, \<^verbatim>\<open>ensure_worker_active\<close>, \<^verbatim>\<open>wait_for_task\<close>, \<^verbatim>\<open>drain_queue\<close> and \<^verbatim>\<open>shutdown\<close> of
  \<^verbatim>\<open>source/executors/thread_pool_executor.cpp\<close>, cut where the code releases the worker's lock or
  touches the semaphore or an atomic flag outside it.  The semaphore counts; a release at the
  maximum of a \<^verbatim>\<open>binary_semaphore\<close> is recorded in \<open>wp_overflow\<close>.
\<close>

section \<open>The system\<close>

datatype worker_pc =
    W_none     \<comment> \<open>no thread, or a thread that has left the work loop\<close>
  | W_start    \<comment> \<open>before the lock of \<^verbatim>\<open>drain_queue\<close>\<close>
  | W_wait     \<comment> \<open>at \<^verbatim>\<open>try_acquire_until\<close>\<close>
  | W_woken    \<comment> \<open>acquired, before the test of \<^verbatim>\<open>m_task_found_or_abort\<close>\<close>
  | W_relock   \<comment> \<open>before the second lock\<close>
  | W_timeout  \<comment> \<open>the deadline has passed, before the lock after the loop\<close>
  | W_run      \<comment> \<open>in \<^verbatim>\<open>drain_queue_impl\<close>\<close>

datatype stop_pc = S_none | S_locked | S_flagged | S_joining

record worker_sys =
  wp_queue :: "task_id list"
  wp_idle :: bool
  wp_abort :: bool
  wp_found :: bool
  wp_sem :: nat
  wp_overflow :: bool
  wp_pending :: nat
  wp_pc :: worker_pc
  wp_stop :: stop_pc
  wp_taken :: "task_id list"
  wp_enqueued :: "task_id list"

definition worker_sys_init :: worker_sys where
  "worker_sys_init =
     \<lparr>wp_queue = [], wp_idle = True, wp_abort = False, wp_found = False, wp_sem = 0, wp_overflow = False,
      wp_pending = 0, wp_pc = W_none, wp_stop = S_none, wp_taken = [], wp_enqueued = []\<rparr>"

datatype worker_event =
    Enqueue task_id   \<comment> \<open>the critical section of an enqueuer\<close>
  | Release           \<comment> \<open>a first enqueuer releases the semaphore\<close>
  | Work              \<comment> \<open>the worker's next step\<close>
  | Deadline          \<comment> \<open>\<^verbatim>\<open>try_acquire_until\<close> fails and the clock has passed the deadline\<close>
  | Stop              \<comment> \<open>the next step of \<^verbatim>\<open>shutdown\<close>\<close>

definition release_semaphore :: "worker_sys \<Rightarrow> worker_sys" where
  "release_semaphore s = s\<lparr>wp_overflow := wp_overflow s \<or> 1 \<le> wp_sem s, wp_sem := Suc (wp_sem s)\<rparr>"

text \<open>The critical section of \<^verbatim>\<open>enqueue_foreign\<close> up to the unlock in \<^verbatim>\<open>ensure_worker_active\<close>.\<close>

definition enqueue_section :: "task_id \<Rightarrow> worker_sys \<Rightarrow> worker_sys option" where
  "enqueue_section t s =
     (if wp_abort s then None
      else let first = (wp_queue s = []);
               s1 = s\<lparr>wp_found := True, wp_queue := wp_queue s @ [t], wp_enqueued := wp_enqueued s @ [t]\<rparr>
           in if \<not> wp_idle s then Some (s1\<lparr>wp_pending := wp_pending s + (if first then 1 else 0)\<rparr>)
              else Some (s1\<lparr>wp_pc := W_start, wp_idle := False\<rparr>))"

text \<open>The end of \<^verbatim>\<open>drain_queue\<close> under the lock: stop, or move the public queue into the private one.\<close>

definition take_section :: "worker_sys \<Rightarrow> worker_sys" where
  "take_section s =
     (if wp_abort s then s\<lparr>wp_found := False, wp_idle := True, wp_pc := W_none\<rparr>
      else s\<lparr>wp_found := False, wp_taken := wp_taken s @ wp_queue s, wp_queue := [], wp_pc := W_run\<rparr>)"

definition work_step :: "worker_sys \<Rightarrow> worker_sys option" where
  "work_step s =
     (case wp_pc s of
        W_none \<Rightarrow> None
      | W_start \<Rightarrow> Some (if wp_queue s \<noteq> [] \<or> wp_abort s then take_section s else s\<lparr>wp_pc := W_wait\<rparr>)
      | W_wait \<Rightarrow> if wp_sem s = 0 then None else Some (s\<lparr>wp_sem := wp_sem s - 1, wp_pc := W_woken\<rparr>)
      | W_woken \<Rightarrow> Some (s\<lparr>wp_pc := if wp_found s then W_relock else W_wait\<rparr>)
      | W_relock \<Rightarrow>
          Some (if wp_queue s = [] \<and> \<not> wp_abort s then s\<lparr>wp_pc := W_wait\<rparr>
                else if wp_abort s then s\<lparr>wp_idle := True, wp_pc := W_none\<rparr>
                else take_section s)
      | W_timeout \<Rightarrow> Some (s\<lparr>wp_idle := True, wp_pc := W_none\<rparr>)
      | W_run \<Rightarrow> Some (if wp_abort s then s\<lparr>wp_idle := True, wp_pc := W_none\<rparr> else s\<lparr>wp_pc := W_start\<rparr>))"

definition stop_step :: "worker_sys \<Rightarrow> worker_sys option" where
  "stop_step s =
     (case wp_stop s of
        S_none \<Rightarrow> Some (s\<lparr>wp_abort := True, wp_stop := S_locked\<rparr>)
      | S_locked \<Rightarrow> Some (s\<lparr>wp_found := True, wp_stop := S_flagged\<rparr>)
      | S_flagged \<Rightarrow> Some ((release_semaphore s)\<lparr>wp_stop := S_joining\<rparr>)
      | S_joining \<Rightarrow> None)"

fun worker_exec :: "worker_event \<Rightarrow> worker_sys \<Rightarrow> worker_sys option" where
  "worker_exec (Enqueue t) s = enqueue_section t s"
| "worker_exec Release s =
     (if wp_pending s = 0 then None else Some ((release_semaphore s)\<lparr>wp_pending := wp_pending s - 1\<rparr>))"
| "worker_exec Work s = work_step s"
| "worker_exec Deadline s = (if wp_pc s = W_wait then Some (s\<lparr>wp_pc := W_timeout\<rparr>) else None)"
| "worker_exec Stop s = stop_step s"

fun worker_run :: "worker_event list \<Rightarrow> worker_sys \<Rightarrow> worker_sys option" where
  "worker_run [] s = Some s"
| "worker_run (e # es) s = Option.bind (worker_exec e s) (worker_run es)"

text \<open>\<open>allowed\<close> restricts the events of a history, so that histories with and without
  deadlines or shutdown are covered by one definition.\<close>

inductive worker_reachable :: "(worker_event \<Rightarrow> bool) \<Rightarrow> worker_sys \<Rightarrow> bool" for allowed where
  init: "worker_reachable allowed worker_sys_init"
| step: "worker_reachable allowed s \<Longrightarrow> allowed e \<Longrightarrow> worker_exec e s = Some s' \<Longrightarrow> worker_reachable allowed s'"

section \<open>Invariants\<close>

lemmas worker_step_defs =
  enqueue_section_def take_section_def work_step_def stop_step_def release_semaphore_def

definition worker_basic :: "worker_sys \<Rightarrow> bool" where
  "worker_basic s \<longleftrightarrow>
     wp_taken s @ wp_queue s = wp_enqueued s \<and> (wp_idle s \<longleftrightarrow> wp_pc s = W_none) \<and>
     (wp_abort s \<longleftrightarrow> wp_stop s \<noteq> S_none) \<and>
     (wp_stop s = S_flagged \<or> wp_stop s = S_joining \<longrightarrow> wp_pc s \<noteq> W_none \<longrightarrow> wp_found s) \<and>
     (wp_stop s = S_joining \<and> wp_pc s = W_wait \<longrightarrow> 0 < wp_sem s)"

lemma take_section_basic:
  assumes "worker_basic s" "wp_pc s \<noteq> W_none"
  shows "worker_basic (take_section s)"
  using assms by (simp add: worker_basic_def take_section_def)

lemma worker_basic_updates:
  assumes "worker_basic s" "wp_pc s \<noteq> W_none"
  shows "\<not> wp_abort s \<Longrightarrow> worker_basic (s\<lparr>wp_pc := W_start\<rparr>)"
    "\<not> wp_abort s \<or> \<not> wp_found s \<Longrightarrow> worker_basic (s\<lparr>wp_pc := W_wait\<rparr>)"
    "worker_basic (s\<lparr>wp_pc := W_relock\<rparr>)"
    "worker_basic (s\<lparr>wp_sem := wp_sem s - 1, wp_pc := W_woken\<rparr>)"
    "worker_basic (s\<lparr>wp_idle := True, wp_pc := W_none\<rparr>)"
    "worker_basic (s\<lparr>wp_pc := W_timeout\<rparr>)"
  using assms by (auto simp: worker_basic_def)

lemma work_step_basic:
  assumes "worker_basic s" "work_step s = Some s'"
  shows "worker_basic s'"
proof -
  have pc: "wp_pc s \<noteq> W_none" using assms(2) by (auto simp: work_step_def)
  note up = take_section_basic [OF assms(1) pc] worker_basic_updates [OF assms(1) pc]
  show ?thesis
    using assms(2) pc up unfolding work_step_def
    by (cases "wp_pc s") (simp_all only: worker_pc.simps option.simps simp_thms not_False_eq_True de_Morgan_disj de_Morgan_conj split: if_splits)
qed

lemma enqueue_section_eq:
  "enqueue_section t s =
     (if wp_abort s then None
      else if wp_idle s
           then Some (s\<lparr>wp_found := True, wp_queue := wp_queue s @ [t], wp_enqueued := wp_enqueued s @ [t],
                        wp_pc := W_start, wp_idle := False\<rparr>)
           else Some (s\<lparr>wp_found := True, wp_queue := wp_queue s @ [t], wp_enqueued := wp_enqueued s @ [t],
                        wp_pending := wp_pending s + (if wp_queue s = [] then 1 else 0)\<rparr>))"
  by (simp add: enqueue_section_def Let_def)

lemma enqueue_section_basic:
  assumes "worker_basic s" "enqueue_section t s = Some s'"
  shows "worker_basic s'"
proof -
  let ?s = "s\<lparr>wp_found := True, wp_queue := wp_queue s @ [t], wp_enqueued := wp_enqueued s @ [t]\<rparr>"
  have "\<not> wp_abort s \<Longrightarrow> \<not> wp_idle s \<Longrightarrow> worker_basic (?s\<lparr>wp_pending := n\<rparr>)"
    "\<not> wp_abort s \<Longrightarrow> wp_idle s \<Longrightarrow> worker_basic (?s\<lparr>wp_pc := W_start, wp_idle := False\<rparr>)" for n
    using assms(1) by (simp_all add: worker_basic_def flip: append_assoc)
  then show ?thesis
    using assms(2) enqueue_section_eq [of t s] by (cases "wp_abort s"; cases "wp_idle s") (simp_all, blast)
qed

lemma stop_step_basic:
  assumes "worker_basic s" "stop_step s = Some s'"
  shows "worker_basic s'"
proof -
  have "wp_stop s = S_none \<Longrightarrow> worker_basic (s\<lparr>wp_abort := True, wp_stop := S_locked\<rparr>)"
    "wp_stop s = S_locked \<Longrightarrow> worker_basic (s\<lparr>wp_found := True, wp_stop := S_flagged\<rparr>)"
    "wp_stop s = S_flagged \<Longrightarrow> worker_basic ((release_semaphore s)\<lparr>wp_stop := S_joining\<rparr>)"
    using assms(1) by (simp_all add: worker_basic_def release_semaphore_def)
  then show ?thesis
    using assms(2) unfolding stop_step_def
    by (cases "wp_stop s") (simp_all only: stop_pc.simps option.simps simp_thms)
qed

lemma worker_basic_step:
  assumes "worker_basic s" "worker_exec e s = Some s'"
  shows "worker_basic s'"
proof (cases e)
  case (Enqueue t)
  with assms enqueue_section_basic show ?thesis by simp
next
  case Release
  have "worker_basic ((release_semaphore s)\<lparr>wp_pending := wp_pending s - 1\<rparr>)"
    using assms(1) by (simp add: worker_basic_def release_semaphore_def)
  with Release assms(2) show ?thesis by (simp only: worker_exec.simps option.simps split: if_splits)
next
  case Work
  with assms work_step_basic show ?thesis by simp
next
  case Deadline
  with assms worker_basic_updates(6) [OF assms(1)] show ?thesis
    by (simp only: worker_exec.simps option.simps worker_pc.simps simp_thms not_False_eq_True split: if_splits)
next
  case Stop
  with assms stop_step_basic show ?thesis by simp
qed

lemma worker_basic_reachable: "worker_reachable allowed s \<Longrightarrow> worker_basic s"
proof (induction rule: worker_reachable.induct)
  case init
  show ?case by (simp add: worker_basic_def worker_sys_init_def)
next
  case (step s e s')
  then show ?case by (blast intro: worker_basic_step)
qed

text \<open>While nothing times out and nobody stops the worker, a queued task keeps it awake.\<close>

definition untimed :: "worker_event \<Rightarrow> bool" where
  "untimed e \<longleftrightarrow> e \<noteq> Deadline \<and> e \<noteq> Stop"

definition worker_awake :: "worker_sys \<Rightarrow> bool" where
  "worker_awake s \<longleftrightarrow>
     worker_basic s \<and> \<not> wp_abort s \<and> wp_pc s \<noteq> W_timeout \<and>
     (wp_queue s \<noteq> [] \<longrightarrow> wp_found s \<and> \<not> wp_idle s \<and>
        (wp_pc s = W_wait \<longrightarrow> 0 < wp_sem s + wp_pending s))"

lemma worker_awake_updates:
  assumes "worker_awake s" "wp_pc s \<noteq> W_none"
  shows "worker_awake (s\<lparr>wp_pc := W_start\<rparr>)"
    "wp_queue s = [] \<or> \<not> wp_found s \<Longrightarrow> worker_awake (s\<lparr>wp_pc := W_wait\<rparr>)"
    "worker_awake (s\<lparr>wp_pc := W_relock\<rparr>)"
    "worker_awake (s\<lparr>wp_sem := wp_sem s - 1, wp_pc := W_woken\<rparr>)"
    "worker_awake (take_section s)"
  using assms by (auto simp: worker_awake_def worker_basic_def take_section_def)

lemma work_step_awake:
  assumes "worker_awake s" "work_step s = Some s'"
  shows "worker_awake s'"
proof -
  have pc: "wp_pc s \<noteq> W_none" "wp_pc s \<noteq> W_timeout" "\<not> wp_abort s"
    using assms by (auto simp: work_step_def worker_awake_def)
  note up = worker_awake_updates [OF assms(1) pc(1)]
  show ?thesis
    using assms(2) pc up unfolding work_step_def
    by (cases "wp_pc s") (simp_all only: worker_pc.simps option.simps simp_thms not_False_eq_True
        de_Morgan_disj de_Morgan_conj split: if_splits)
qed

lemma worker_awake_step:
  assumes "worker_awake s" "untimed e" "worker_exec e s = Some s'"
  shows "worker_awake s'"
proof (cases e)
  case (Enqueue t)
  let ?s = "s\<lparr>wp_found := True, wp_queue := wp_queue s @ [t], wp_enqueued := wp_enqueued s @ [t]\<rparr>"
  have "\<not> wp_idle s \<Longrightarrow> worker_awake (?s\<lparr>wp_pending := wp_pending s + (if wp_queue s = [] then 1 else 0)\<rparr>)"
    "wp_idle s \<Longrightarrow> worker_awake (?s\<lparr>wp_pc := W_start, wp_idle := False\<rparr>)"
    using assms(1) by (auto simp: worker_awake_def worker_basic_def simp flip: append_assoc)
  then show ?thesis
    using assms(1,3) Enqueue enqueue_section_eq [of t s]
    by (cases "wp_abort s"; cases "wp_idle s") simp_all
next
  case Release
  have "worker_awake ((release_semaphore s)\<lparr>wp_pending := wp_pending s - 1\<rparr>)" if "wp_pending s \<noteq> 0"
    using assms(1) that by (auto simp: worker_awake_def worker_basic_def release_semaphore_def)
  with Release assms(3) show ?thesis by (simp only: worker_exec.simps option.simps simp_thms not_False_eq_True split: if_splits)
next
  case Work
  with assms work_step_awake show ?thesis by simp
qed (use assms(2) in \<open>simp_all add: untimed_def\<close>)

lemma worker_awake_reachable: "worker_reachable untimed s \<Longrightarrow> worker_awake s"
proof (induction rule: worker_reachable.induct)
  case init
  show ?case by (simp add: worker_awake_def worker_basic_def worker_sys_init_def)
next
  case (step s e s')
  then show ?case by (blast intro: worker_awake_step)
qed

section \<open>No task is lost while the worker waits without a deadline\<close>

lemma worker_finishes:
  assumes "worker_awake s"
  shows "\<exists>es s'. length es \<le> 4 \<and> set es \<subseteq> {Release, Work} \<and> worker_run es s = Some s' \<and>
           wp_queue s' = [] \<and> wp_taken s' = wp_enqueued s"
proof (cases "wp_queue s = []")
  case True
  then show ?thesis using assms by (intro exI [of _ "[]"] exI [of _ s]) (simp add: worker_awake_def worker_basic_def)
next
  case False
  note st = assms [unfolded worker_awake_def worker_basic_def] False
  define es where "es =
    (case wp_pc s of W_run \<Rightarrow> [Work, Work] | W_woken \<Rightarrow> [Work, Work]
     | W_wait \<Rightarrow> (if wp_sem s = 0 then [Release] else []) @ [Work, Work, Work] | _ \<Rightarrow> [Work])"
  have "\<exists>s'. worker_run es s = Some s' \<and> wp_queue s' = [] \<and> wp_taken s' = wp_enqueued s"
    using st by (cases "wp_pc s") (auto simp: es_def work_step_def take_section_def release_semaphore_def)
  moreover have "length es \<le> 4" "set es \<subseteq> {Release, Work}"
    by (auto simp: es_def split: worker_pc.splits)
  ultimately show ?thesis by blast
qed

text \<open>C18: no wake-up is lost.  Whatever enqueuers and the worker have done, as long as no deadline has
  expired and nobody has asked the worker to stop, at most four further steps of the worker and
  of an enqueuer that still has to release the semaphore empty the public queue; the worker has
  then taken every task enqueued so far, each once and in the order of enqueuing.\<close>

theorem worker_no_lost_wakeup:
  assumes "worker_reachable untimed s"
  shows "\<exists>es s'. length es \<le> 4 \<and> set es \<subseteq> {Release, Work} \<and> worker_run es s = Some s' \<and>
           wp_queue s' = [] \<and> wp_taken s' = wp_enqueued s"
  using worker_finishes [OF worker_awake_reachable [OF assms]] .

lemma worker_run_reachable:
  assumes "worker_reachable allowed s" "worker_run es s = Some s'" "list_all allowed es"
  shows "worker_reachable allowed s'"
  using assms
proof (induction es arbitrary: s)
  case (Cons e es)
  then show ?case by (auto simp: Option.bind_eq_Some_conv intro: worker_reachable.step)
qed simp

definition second_task :: "worker_event list" where
  "second_task = [Enqueue 1, Work, Enqueue 2, Work, Work, Enqueue 3]"

theorem worker_no_lost_wakeup_witness:
  "\<exists>es s'. length es \<le> 4 \<and> set es \<subseteq> {Release, Work} \<and>
     worker_run es (the (worker_run second_task worker_sys_init)) = Some s' \<and>
     wp_queue s' = [] \<and> wp_taken s' = wp_enqueued (the (worker_run second_task worker_sys_init))"
  by (rule worker_no_lost_wakeup, rule worker_run_reachable [OF worker_reachable.init, of second_task])
    (simp_all add: second_task_def untimed_def worker_step_defs worker_sys_init_def Let_def)

text \<open>C19: two defects of the hand-over.  When the deadline of an idle worker expires just before a task
  is enqueued for it, the worker leaves with the task in its queue, nothing is pending and no
  thread runs: the task waits until somebody enqueues another one.  And without any deadline,
  tasks enqueued while the worker runs can release the semaphore twice without an acquire in
  between, above the maximum of a \<^verbatim>\<open>binary_semaphore\<close>.\<close>

theorem worker_handover_defects:
  "(\<exists>s. worker_reachable (\<lambda>e. e \<noteq> Stop) s \<and> wp_queue s = [2] \<and> wp_taken s = [1] \<and> wp_idle s \<and>
        worker_exec Work s = None \<and> worker_exec Release s = None \<and> worker_exec Deadline s = None) \<and>
   (\<exists>s. worker_reachable untimed s \<and> wp_overflow s \<and> 1 < wp_sem s)"
proof (intro conjI)
  let ?es = "[Enqueue 1, Work, Work, Work, Deadline, Enqueue 2, Release, Work]"
  have "\<exists>s. worker_run ?es worker_sys_init = Some s \<and> wp_queue s = [2] \<and> wp_taken s = [1] \<and> wp_idle s \<and>
      worker_exec Work s = None \<and> worker_exec Release s = None \<and> worker_exec Deadline s = None"
    by (simp add: worker_step_defs worker_sys_init_def Let_def)
  moreover have ok: "list_all (\<lambda>e. e \<noteq> Stop) ?es" by simp
  ultimately show "\<exists>s. worker_reachable (\<lambda>e. e \<noteq> Stop) s \<and> wp_queue s = [2] \<and> wp_taken s = [1] \<and> wp_idle s \<and>
        worker_exec Work s = None \<and> worker_exec Release s = None \<and> worker_exec Deadline s = None"
    using worker_run_reachable [OF worker_reachable.init _ ok] by blast
next
  let ?es = "[Enqueue 1, Work, Enqueue 2, Release, Work, Work, Enqueue 3, Release]"
  have "\<exists>s. worker_run ?es worker_sys_init = Some s \<and> wp_overflow s \<and> 1 < wp_sem s"
    by (simp add: worker_step_defs worker_sys_init_def Let_def)
  then show "\<exists>s. worker_reachable untimed s \<and> wp_overflow s \<and> 1 < wp_sem s"
    using worker_run_reachable [OF worker_reachable.init, of ?es _ untimed] by (auto simp: untimed_def)
qed

section \<open>Shutdown always gets through\<close>

text \<open>C20: the join of a shutdown returns.  In every reachable state in which \<^verbatim>\<open>shutdown\<close> has reached its
  join, whatever deadlines have expired, the worker leaves its loop within three steps of its
  own, and it marks itself idle, as the destructor of the worker asserts.\<close>

theorem worker_shutdown_joins:
  assumes "worker_reachable allowed s" "wp_stop s = S_joining"
  shows "\<exists>n s'. n \<le> 3 \<and> worker_run (replicate n Work) s = Some s' \<and> wp_pc s' = W_none \<and> wp_idle s'"
proof -
  note st = worker_basic_reachable [OF assms(1), unfolded worker_basic_def] assms(2)
  define n :: nat where "n = (case wp_pc s of W_none \<Rightarrow> 0 | W_wait \<Rightarrow> 3 | W_woken \<Rightarrow> 2 | _ \<Rightarrow> 1)"
  have "\<exists>s'. worker_run (replicate n Work) s = Some s' \<and> wp_pc s' = W_none \<and> wp_idle s'"
    using st by (cases "wp_pc s") (auto simp: n_def work_step_def take_section_def numeral_eq_Suc)
  moreover have "n \<le> 3" by (simp add: n_def split: worker_pc.splits)
  ultimately show ?thesis by blast
qed

definition stopped_waiting :: "worker_event list" where
  "stopped_waiting = [Enqueue 1, Work, Work, Work, Stop, Stop, Stop]"

theorem worker_shutdown_joins_witness:
  "\<exists>n s'. n \<le> 3 \<and> worker_run (replicate n Work) (the (worker_run stopped_waiting worker_sys_init)) = Some s' \<and>
     wp_pc s' = W_none \<and> wp_idle s'"
  by (rule worker_shutdown_joins [of "\<lambda>_. True"],
      rule worker_run_reachable [OF worker_reachable.init, of stopped_waiting])
    (simp_all add: stopped_waiting_def worker_step_defs worker_sys_init_def Let_def)

end
