(* ===== verification/Manual_Executor.thy ===== *)
theory Manual_Executor
  imports Thread_Pool
begin

text \<open>
  \<^verbatim>\<open>manual_executor\<close> (\<^verbatim>\<open>source/executors/manual_executor.cpp\<close>, \<^verbatim>\<open>executors/manual_executor.h\<close>): a queue whose
  tasks run only in threads that call one of its looping methods.  What happens between two
  acquisitions of the lock is a parameter: \<open>run t\<close> is the effect of task \<open>t\<close> (and of other
  threads while it runs) on the executor, \<open>wait n\<close> what other threads do until the \<open>n\<close>-th wait on
  the condition variable returns, \<open>clock n\<close> the \<open>n\<close>-th reading of the system clock in
  milliseconds.
\<close>

section \<open>Operations\<close>

record manual_executor =
  me_tasks :: "task_id list"
  me_abort :: bool
  me_atomic_abort :: bool

definition k_manual_executor_name :: string where
  "k_manual_executor_name = ''concurrencpp::manual_executor''"

definition manual_executor_new :: manual_executor where
  "manual_executor_new = \<lparr>me_tasks = [], me_abort = False, me_atomic_abort = False\<rparr>"

type_synonym manual_run = "task_id \<Rightarrow> manual_executor \<Rightarrow> manual_executor outcome"

definition manual_enqueue :: "task_id \<Rightarrow> manual_executor \<Rightarrow> manual_executor outcome" where
  "manual_enqueue t m =
     (if me_abort m then throw_runtime_shutdown_exception k_manual_executor_name
      else Inr (m\<lparr>me_tasks := me_tasks m @ [t]\<rparr>))"

definition manual_enqueue_span :: "task_id list \<Rightarrow> manual_executor \<Rightarrow> manual_executor outcome" where
  "manual_enqueue_span ts m =
     (if me_abort m then throw_runtime_shutdown_exception k_manual_executor_name
      else Inr (m\<lparr>me_tasks := me_tasks m @ ts\<rparr>))"

definition manual_size :: "manual_executor \<Rightarrow> nat" where
  "manual_size m = length (me_tasks m)"

definition manual_empty :: "manual_executor \<Rightarrow> bool" where
  "manual_empty m \<longleftrightarrow> manual_size m = 0"

definition manual_shutdown_requested :: "manual_executor \<Rightarrow> bool" where
  "manual_shutdown_requested m = me_atomic_abort m"

definition throw_if_shutdown :: "'a \<Rightarrow> manual_executor \<Rightarrow> ('a \<times> manual_executor) outcome" where
  "throw_if_shutdown r m =
     (if manual_shutdown_requested m then throw_runtime_shutdown_exception k_manual_executor_name
      else Inr (r, m))"

text \<open>The loop of \<^verbatim>\<open>loop_impl\<close>, over the number of tasks that may still be run.\<close>

fun loop_tasks :: "manual_run \<Rightarrow> nat \<Rightarrow> manual_executor \<Rightarrow> (task_id list \<times> manual_executor) outcome" where
  "loop_tasks run 0 m = Inr ([], m)"
| "loop_tasks run (Suc n) m =
     (if me_abort m then Inr ([], m)
      else case me_tasks m of
        [] \<Rightarrow> Inr ([], m)
      | t # ts \<Rightarrow> bind_outcome (run t (m\<lparr>me_tasks := ts\<rparr>)) (\<lambda>m1.
          bind_outcome (loop_tasks run n m1) (\<lambda>(ran, m2). Inr (t # ran, m2))))"

text \<open>The results carry the list of the tasks run; the source returns its length.\<close>

definition loop_impl :: "manual_run \<Rightarrow> nat \<Rightarrow> manual_executor \<Rightarrow> (task_id list \<times> manual_executor) outcome" where
  "loop_impl run max_count m =
     (if max_count = 0 then Inr ([], m)
      else bind_outcome (loop_tasks run max_count m) (\<lambda>(ran, m1). throw_if_shutdown ran m1))"

fun loop_until_tasks ::
  "manual_run \<Rightarrow> (nat \<Rightarrow> int) \<Rightarrow> (nat \<Rightarrow> manual_executor \<Rightarrow> manual_executor) \<Rightarrow> int \<Rightarrow> nat \<Rightarrow> nat \<Rightarrow>
     manual_executor \<Rightarrow> (task_id list \<times> manual_executor) outcome" where
  "loop_until_tasks run clock wait deadline 0 n m = Inr ([], m)"
| "loop_until_tasks run clock wait deadline (Suc k) n m =
     (if clock n \<ge> deadline then Inr ([], m)
      else let m1 = wait n m; found_task = (me_tasks m1 \<noteq> [] \<or> me_abort m1) in
        if me_abort m1 then Inr ([], m1)
        else if \<not> found_task then Inr ([], m1)
        else case me_tasks m1 of
          [] \<Rightarrow> Inl (Assertion_failed ''!m_tasks.empty()'')
        | t # ts \<Rightarrow> bind_outcome (run t (m1\<lparr>me_tasks := ts\<rparr>)) (\<lambda>m2.
            bind_outcome (loop_until_tasks run clock wait deadline k (Suc n) m2)
              (\<lambda>(ran, m3). Inr (t # ran, m3))))"

definition loop_until_impl ::
  "manual_run \<Rightarrow> (nat \<Rightarrow> int) \<Rightarrow> (nat \<Rightarrow> manual_executor \<Rightarrow> manual_executor) \<Rightarrow> int \<Rightarrow> nat \<Rightarrow>
     manual_executor \<Rightarrow> (task_id list \<times> manual_executor) outcome" where
  "loop_until_impl run clock wait deadline max_count m =
     (if max_count = 0 then Inr ([], m)
      else bind_outcome (loop_until_tasks run clock wait (deadline + 1) max_count 0 m)
             (\<lambda>(ran, m1). throw_if_shutdown ran m1))"

text \<open>\<^verbatim>\<open>wait_for_tasks_impl\<close>: \<open>wait\<close> gives the executor at the return of the wait, or \<open>None\<close> when the
  predicate never becomes true and the call blocks for ever.\<close>

definition wait_for_tasks_impl ::
  "(manual_executor \<Rightarrow> manual_executor option) \<Rightarrow> nat \<Rightarrow> manual_executor \<Rightarrow> manual_executor outcome option" where
  "wait_for_tasks_impl wait cnt m =
     (if cnt = 0
      then Some (if manual_shutdown_requested m then throw_runtime_shutdown_exception k_manual_executor_name
                 else Inr m)
      else map_option (\<lambda>m1.
             if me_abort m1 then throw_runtime_shutdown_exception k_manual_executor_name
             else bind_outcome (assert_that (cnt \<le> length (me_tasks m1)) ''m_tasks.size() >= count'')
                    (\<lambda>_. Inr m1))
           (wait m))"

definition wait_for_tasks_timed ::
  "(manual_executor \<Rightarrow> manual_executor) \<Rightarrow> nat \<Rightarrow> manual_executor \<Rightarrow> (nat \<times> manual_executor) outcome" where
  "wait_for_tasks_timed wait cnt m =
     (let m1 = wait m in
      if me_abort m1 then throw_runtime_shutdown_exception k_manual_executor_name
      else Inr (length (me_tasks m1), m1))"

definition loop_once :: "manual_run \<Rightarrow> manual_executor \<Rightarrow> (bool \<times> manual_executor) outcome" where
  "loop_once run m = bind_outcome (loop_impl run 1 m) (\<lambda>(ran, m1). Inr (length ran \<noteq> 0, m1))"

definition manual_loop :: "manual_run \<Rightarrow> nat \<Rightarrow> manual_executor \<Rightarrow> (task_id list \<times> manual_executor) outcome" where
  "manual_loop run max_count m = loop_impl run max_count m"

text \<open>The timed methods; \<open>now\<close> is the clock reading of \<^verbatim>\<open>time_point_from_now\<close>.\<close>

definition loop_for ::
  "manual_run \<Rightarrow> (nat \<Rightarrow> int) \<Rightarrow> (nat \<Rightarrow> manual_executor \<Rightarrow> manual_executor) \<Rightarrow> int \<Rightarrow> int \<Rightarrow> nat \<Rightarrow>
     manual_executor \<Rightarrow> (task_id list \<times> manual_executor) outcome" where
  "loop_for run clock wait now max_waiting_time max_count m =
     (if max_count = 0 then Inr ([], m)
      else if max_waiting_time = 0 then loop_impl run max_count m
      else loop_until_impl run clock wait (now + max_waiting_time) max_count m)"

definition loop_once_for ::
  "manual_run \<Rightarrow> (nat \<Rightarrow> int) \<Rightarrow> (nat \<Rightarrow> manual_executor \<Rightarrow> manual_executor) \<Rightarrow> int \<Rightarrow> int \<Rightarrow>
     manual_executor \<Rightarrow> (bool \<times> manual_executor) outcome" where
  "loop_once_for run clock wait now max_waiting_time m =
     (if max_waiting_time = 0 then loop_once run m
      else bind_outcome (loop_until_impl run clock wait (now + max_waiting_time) 1 m)
             (\<lambda>(ran, m1). Inr (length ran \<noteq> 0, m1)))"

text \<open>\<^verbatim>\<open>to_system_time_point\<close> shifts a time point by the difference of the two clocks.\<close>

definition to_system_time_point :: "int \<Rightarrow> int \<Rightarrow> int \<Rightarrow> int" where
  "to_system_time_point src_now dst_now time_point = dst_now + (time_point - src_now)"

definition loop_until ::
  "manual_run \<Rightarrow> (nat \<Rightarrow> int) \<Rightarrow> (nat \<Rightarrow> manual_executor \<Rightarrow> manual_executor) \<Rightarrow> int \<Rightarrow> int \<Rightarrow> int \<Rightarrow> nat \<Rightarrow>
     manual_executor \<Rightarrow> (task_id list \<times> manual_executor) outcome" where
  "loop_until run clock wait src_now dst_now timeout_time max_count m =
     loop_until_impl run clock wait (to_system_time_point src_now dst_now timeout_time) max_count m"

definition wait_for_task_for ::
  "(manual_executor \<Rightarrow> manual_executor) \<Rightarrow> manual_executor \<Rightarrow> (bool \<times> manual_executor) outcome" where
  "wait_for_task_for wait m =
     bind_outcome (wait_for_tasks_timed wait 1 m) (\<lambda>(n, m1). Inr (n = 1, m1))"

definition manual_clear :: "manual_executor \<Rightarrow> (nat \<times> manual_executor) outcome" where
  "manual_clear m =
     (if me_abort m then throw_runtime_shutdown_exception k_manual_executor_name
      else Inr (length (me_tasks m), m\<lparr>me_tasks := []\<rparr>))"

definition manual_shutdown :: "manual_executor \<Rightarrow> manual_executor" where
  "manual_shutdown m =
     (if me_atomic_abort m then m else \<lparr>me_tasks = [], me_abort = True, me_atomic_abort = True\<rparr>)"

section \<open>Looping\<close>

text \<open>Tasks that do nothing to the executor but enqueue further tasks.\<close>

definition run_enqueuing :: "(task_id \<Rightarrow> task_id list) \<Rightarrow> manual_run" where
  "run_enqueuing spawn t m = manual_enqueue_span (spawn t) m"

lemma loop_tasks_fifo:
  assumes "\<not> me_abort m"
  shows "\<exists>ran m'. loop_tasks (run_enqueuing spawn) n m = Inr (ran, m') \<and>
           ran @ me_tasks m' = me_tasks m @ concat (map spawn ran) \<and>
           length ran \<le> n \<and> (length ran < n \<longrightarrow> me_tasks m' = []) \<and>
           me_abort m' = me_abort m \<and> me_atomic_abort m' = me_atomic_abort m"
  using assms
proof (induction n arbitrary: m)
  case 0
  then show ?case by simp
next
  case (Suc n)
  show ?case
  proof (cases "me_tasks m")
    case Nil
    with Suc.prems show ?thesis by simp
  next
    case (Cons t ts)
    let ?m = "m\<lparr>me_tasks := ts @ spawn t\<rparr>"
    obtain ran m' where r: "loop_tasks (run_enqueuing spawn) n ?m = Inr (ran, m')"
      "ran @ me_tasks m' = (ts @ spawn t) @ concat (map spawn ran)" "length ran \<le> n"
      "length ran < n \<longrightarrow> me_tasks m' = []" "me_abort m' = me_abort m" "me_atomic_abort m' = me_atomic_abort m"
      using Suc.IH [of ?m] Suc.prems by auto
    have "loop_tasks (run_enqueuing spawn) (Suc n) m = Inr (t # ran, m')"
      using Cons Suc.prems r(1) by (simp add: run_enqueuing_def manual_enqueue_span_def)
    with Cons r(2-6) show ?thesis by simp
  qed
qed

text \<open>Looping runs the queue in order.  However many tasks the tasks themselves enqueue, \<^verbatim>\<open>loop\<close> ends
  after at most \<^verbatim>\<open>max_count\<close> tasks; the tasks run, followed by what is left in the queue, are the
  queue at the start followed by the tasks enqueued on the way, in that order; and fewer than
  \<^verbatim>\<open>max_count\<close> tasks are run only when the queue is empty at the end.\<close>

lemma manual_loop_fifo:
  assumes "\<not> me_abort m" "\<not> me_atomic_abort m"
  shows "\<exists>ran m'. manual_loop (run_enqueuing spawn) max_count m = Inr (ran, m') \<and>
           ran @ me_tasks m' = me_tasks m @ concat (map spawn ran) \<and>
           length ran \<le> max_count \<and> (length ran < max_count \<longrightarrow> manual_empty m')"
proof (cases "max_count = 0")
  case True
  then show ?thesis by (simp add: manual_loop_def loop_impl_def)
next
  case False
  with loop_tasks_fifo [OF assms(1), of spawn max_count] assms(2) show ?thesis
    by (auto simp: manual_loop_def loop_impl_def throw_if_shutdown_def manual_shutdown_requested_def
        manual_empty_def manual_size_def)
qed

lemma manual_loop_fifo_witness:
  "\<exists>ran m'. manual_loop (run_enqueuing (\<lambda>t. if t = 0 then [] else [t - 1])) 4
       (manual_executor_new\<lparr>me_tasks := [2, 1]\<rparr>) = Inr (ran, m') \<and>
     ran @ me_tasks m' = [2, 1] @ concat (map (\<lambda>t. if t = 0 then [] else [t - 1]) ran) \<and>
     length ran \<le> 4 \<and> (length ran < 4 \<longrightarrow> manual_empty m')"
  using manual_loop_fifo [of "manual_executor_new\<lparr>me_tasks := [2, 1]\<rparr>" "\<lambda>t. if t = 0 then [] else [t - 1]" 4]
  by (simp add: manual_executor_new_def)

text \<open>The timed loop ends too: it runs at most as many tasks as it is asked to, from the front.\<close>

lemma loop_until_tasks_bound:
  assumes "loop_until_tasks run clock wait deadline k n m = Inr (xs, m')"
  shows "length xs \<le> k \<and> (\<forall>i < length xs. clock (n + i) < deadline)"
  using assms
proof (induction k arbitrary: n m xs)
  case 0
  then show ?case by simp
next
  case (Suc k)
  show ?case
  proof (cases xs)
    case (Cons t rest)
    with Suc.prems obtain m2 where m2: "clock n < deadline"
      "loop_until_tasks run clock wait deadline k (Suc n) m2 = Inr (rest, m')"
      by (auto simp: Let_def bind_outcome_Inr_iff split: if_splits list.splits)
    from Suc.IH [OF m2(2)] m2(1) Cons show ?thesis by (auto simp: less_Suc_eq_0_disj)
  qed simp
qed

section \<open>Shutdown and errors\<close>

definition manual_inv :: "manual_executor \<Rightarrow> bool" where
  "manual_inv m \<longleftrightarrow> (me_abort m \<longleftrightarrow> me_atomic_abort m) \<and> (me_abort m \<longrightarrow> me_tasks m = [])"

lemma manual_inv_ops:
  "manual_inv manual_executor_new"
  "manual_inv m \<Longrightarrow> manual_enqueue t m = Inr m' \<Longrightarrow> manual_inv m'"
  "manual_inv m \<Longrightarrow> manual_enqueue_span ts m = Inr m' \<Longrightarrow> manual_inv m'"
  "manual_inv m \<Longrightarrow> manual_clear m = Inr (n, m') \<Longrightarrow> manual_inv m'"
  "manual_inv m \<Longrightarrow> manual_inv (manual_shutdown m)"
  by (auto simp: manual_inv_def manual_executor_new_def manual_enqueue_def manual_enqueue_span_def
      manual_clear_def manual_shutdown_def throw_runtime_shutdown_exception_def split: if_splits)

definition manual_shutdown_error :: exn where
  "manual_shutdown_error = Runtime_shutdown (k_manual_executor_name @ k_executor_shutdown_err_msg)"

lemmas manual_error_defs = manual_shutdown_error_def manual_shutdown_def throw_runtime_shutdown_exception_def
  manual_enqueue_def manual_enqueue_span_def manual_clear_def loop_impl_def throw_if_shutdown_def
  manual_shutdown_requested_def loop_once_def manual_loop_def wait_for_tasks_impl_def wait_for_tasks_timed_def

lemma loop_tasks_aborted: "me_abort m \<Longrightarrow> loop_tasks run n m = Inr ([], m)"
  by (cases n) simp_all

text \<open>A manual executor that was shut down holds nothing and refuses everything.  Enqueuing, looping,
  clearing and waiting throw \<^verbatim>\<open>errors::runtime_shutdown\<close>, whatever the waits do; only a loop
  over zero tasks returns zero; shutting down again does nothing.\<close>

lemma manual_shutdown_refuses:
  assumes "manual_inv m" "m' = manual_shutdown m"
    and "me_abort (wait m')" "0 < n" "wait' m' = Some m'"
  shows "me_tasks m' = [] \<and> manual_shutdown m' = m' \<and>
         manual_enqueue t m' = Inl manual_shutdown_error \<and>
         manual_enqueue_span ts m' = Inl manual_shutdown_error \<and>
         manual_clear m' = Inl manual_shutdown_error \<and>
         manual_loop run n m' = Inl manual_shutdown_error \<and>
         manual_loop run 0 m' = Inr ([], m') \<and>
         loop_once run m' = Inl manual_shutdown_error \<and>
         wait_for_tasks_impl wait' k m' = Some (Inl manual_shutdown_error) \<and>
         wait_for_tasks_timed wait k m' = Inl manual_shutdown_error"
proof -
  have m': "me_abort m'" "me_atomic_abort m'" "me_tasks m' = []"
    using assms(1,2) by (auto simp: manual_inv_def manual_shutdown_def)
  then show ?thesis
    using assms(3-5) by (simp add: manual_error_defs loop_tasks_aborted)
qed

lemma manual_shutdown_refuses_witness:
  "manual_enqueue 1 (manual_shutdown (manual_executor_new\<lparr>me_tasks := [7]\<rparr>)) = Inl manual_shutdown_error \<and>
   wait_for_tasks_timed id 2 (manual_shutdown (manual_executor_new\<lparr>me_tasks := [7]\<rparr>)) = Inl manual_shutdown_error"
  using manual_shutdown_refuses [of "manual_executor_new\<lparr>me_tasks := [7]\<rparr>" _ id 1 Some 1 "[]" "\<lambda>_. Inr" 2]
  by (simp add: manual_inv_def manual_executor_new_def manual_shutdown_def)

text \<open>Two methods do not do what they promise.  \<^verbatim>\<open>wait_for_task_for\<close> answers false although tasks are
  available whenever there is not exactly one; and \<^verbatim>\<open>loop_until\<close> with a time point that has passed
  runs nothing although tasks are queued, unlike \<^verbatim>\<open>loop\<close>.\<close>

lemma manual_timed_defects:
  assumes "\<not> me_abort m" "\<not> me_atomic_abort m" "2 \<le> length (me_tasks m)"
    and "clock 0 > to_system_time_point src_now dst_now timeout_time"
  shows "wait_for_task_for id m = Inr (False, m) \<and>
         loop_until run clock wait src_now dst_now timeout_time max_count m = Inr ([], m) \<and>
         (\<exists>m'. manual_loop (run_enqueuing (\<lambda>_. [])) 1 m = Inr ([hd (me_tasks m)], m'))"
proof (intro conjI)
  show "wait_for_task_for id m = Inr (False, m)"
    using assms(1,3) by (simp add: wait_for_task_for_def wait_for_tasks_timed_def)
  have "loop_until_tasks run clock wait (to_system_time_point src_now dst_now timeout_time + 1) max_count 0 m =
      Inr ([], m)"
    using assms(4) by (cases max_count) simp_all
  then show "loop_until run clock wait src_now dst_now timeout_time max_count m = Inr ([], m)"
    using assms(2) by (simp add: loop_until_def loop_until_impl_def throw_if_shutdown_def manual_shutdown_requested_def)
  show "\<exists>m'. manual_loop (run_enqueuing (\<lambda>_. [])) 1 m = Inr ([hd (me_tasks m)], m')"
    using assms(1-3) by (cases "me_tasks m")
      (simp_all add: manual_loop_def loop_impl_def run_enqueuing_def manual_enqueue_span_def
        throw_if_shutdown_def manual_shutdown_requested_def)
qed

lemma manual_timed_defects_witness:
  "wait_for_task_for id (manual_executor_new\<lparr>me_tasks := [7, 8]\<rparr>) =
     Inr (False, manual_executor_new\<lparr>me_tasks := [7, 8]\<rparr>)"
  using manual_timed_defects [of "manual_executor_new\<lparr>me_tasks := [7, 8]\<rparr>" 0 0 "-5" "\<lambda>_. 0" "\<lambda>_. Inr" "\<lambda>_. id" 1]
  by (simp add: manual_executor_new_def to_system_time_point_def)

end
