(* ===== verification/Worker_Thread.thy ===== *)
theory Worker_Thread
  imports Thread_Pool
begin

text \<open>
  \<^verbatim>\<open>worker_thread_executor\<close> (\<^verbatim>\<open>source/executors/worker_thread_executor.cpp\<close>): one thread with a private
  queue, fed through a public queue.  The thread, any number of enqueuers, the tasks that enqueue
  on their own executor and one shutdown are interleaved at the lock, the semaphore and the
  atomic flags.  The system is shown to implement a queue that runs its tasks from the front.
\<close>

section \<open>The system\<close>

datatype thread_pc =
    T_none     \<comment> \<open>the thread has not been started\<close>
  | T_lock     \<comment> \<open>before the lock of \<^verbatim>\<open>drain_queue\<close>\<close>
  | T_wait     \<comment> \<open>at \<^verbatim>\<open>m_semaphore.acquire()\<close>\<close>
  | T_relock   \<comment> \<open>before the lock after it\<close>
  | T_run      \<comment> \<open>in \<^verbatim>\<open>drain_queue_impl\<close>\<close>
  | T_end      \<comment> \<open>\<^verbatim>\<open>work_loop\<close> has returned\<close>

datatype halt_pc = H_none | H_requested | H_aborted | H_flagged | H_joining | H_end

record wt_sys =
  wt_private :: "task_id list"
  wt_public :: "task_id list"
  wt_abort :: bool
  wt_private_abort :: bool
  wt_sem :: nat
  wt_pending :: nat
  wt_pc :: thread_pc
  wt_halt :: halt_pc
  wt_done :: "task_id list"

definition wt_init :: wt_sys where
  "wt_init = \<lparr>wt_private = [], wt_public = [], wt_abort = False, wt_private_abort = False, wt_sem = 0,
     wt_pending = 0, wt_pc = T_none, wt_halt = H_none, wt_done = []\<rparr>"

datatype wt_event =
    Foreign "task_id list"   \<comment> \<open>the critical section of an enqueuer; one task or a span\<close>
  | Local "task_id list"     \<comment> \<open>the running task enqueues on its own executor\<close>
  | Signal                   \<comment> \<open>a first enqueuer releases the semaphore\<close>
  | Turn                     \<comment> \<open>the next step of the worker thread\<close>
  | Halt                     \<comment> \<open>the next step of \<^verbatim>\<open>shutdown\<close>\<close>

text \<open>\<open>None\<close>: the call throws \<^verbatim>\<open>errors::runtime_shutdown\<close> and changes nothing.\<close>

definition wt_enqueue_foreign :: "task_id list \<Rightarrow> wt_sys \<Rightarrow> wt_sys option" where
  "wt_enqueue_foreign ts s =
     (if wt_abort s then None
      else let s1 = s\<lparr>wt_public := wt_public s @ ts\<rparr> in
        if wt_pc s = T_none then Some (s1\<lparr>wt_pc := T_lock\<rparr>)
        else Some (s1\<lparr>wt_pending := wt_pending s + (if wt_public s = [] then 1 else 0)\<rparr>))"

definition wt_enqueue_local :: "task_id list \<Rightarrow> wt_sys \<Rightarrow> wt_sys option" where
  "wt_enqueue_local ts s =
     (if wt_pc s = T_run \<and> \<not> wt_private_abort s then Some (s\<lparr>wt_private := wt_private s @ ts\<rparr>) else None)"

text \<open>The rest of \<^verbatim>\<open>drain_queue\<close> under the lock.\<close>

definition wt_take :: "wt_sys \<Rightarrow> wt_sys" where
  "wt_take s =
     (if wt_abort s then s\<lparr>wt_pc := T_end\<rparr>
      else s\<lparr>wt_private := wt_public s, wt_public := wt_private s, wt_pc := T_run\<rparr>)"

definition wt_turn :: "wt_sys \<Rightarrow> wt_sys option" where
  "wt_turn s =
     (case wt_pc s of
        T_lock \<Rightarrow> Some (if wt_public s \<noteq> [] \<or> wt_abort s then wt_take s else s\<lparr>wt_pc := T_wait\<rparr>)
      | T_wait \<Rightarrow> (if wt_sem s = 0 then None else Some (s\<lparr>wt_sem := wt_sem s - 1, wt_pc := T_relock\<rparr>))
      | T_relock \<Rightarrow> Some (if wt_public s \<noteq> [] \<or> wt_abort s then wt_take s else s\<lparr>wt_pc := T_wait\<rparr>)
      | T_run \<Rightarrow>
          Some (case wt_private s of
              [] \<Rightarrow> s\<lparr>wt_pc := T_lock\<rparr>
            | t # ts \<Rightarrow>
                (if wt_private_abort s then s\<lparr>wt_private := ts, wt_pc := T_end\<rparr>
                 else s\<lparr>wt_private := ts, wt_done := wt_done s @ [t]\<rparr>))
      | _ \<Rightarrow> None)"

text \<open>\<^verbatim>\<open>shutdown\<close>: the exchange of \<^verbatim>\<open>m_atomic_abort\<close>, the critical section, the store of the private flag,
  the release, the join with the clearing of both queues.\<close>

definition wt_halt_step :: "wt_sys \<Rightarrow> wt_sys option" where
  "wt_halt_step s =
     (case wt_halt s of
        H_none \<Rightarrow> Some (s\<lparr>wt_halt := H_requested\<rparr>)
      | H_requested \<Rightarrow> Some (s\<lparr>wt_abort := True, wt_halt := H_aborted\<rparr>)
      | H_aborted \<Rightarrow> Some (s\<lparr>wt_private_abort := True, wt_halt := H_flagged\<rparr>)
      | H_flagged \<Rightarrow> Some (s\<lparr>wt_sem := Suc (wt_sem s), wt_halt := H_joining\<rparr>)
      | H_joining \<Rightarrow> (if wt_pc s = T_none \<or> wt_pc s = T_end
                      then Some (s\<lparr>wt_private := [], wt_public := [], wt_halt := H_end\<rparr>) else None)
      | H_end \<Rightarrow> None)"

fun wt_exec :: "wt_event \<Rightarrow> wt_sys \<Rightarrow> wt_sys option" where
  "wt_exec (Foreign ts) s = (if ts = [] then None else wt_enqueue_foreign ts s)"
| "wt_exec (Local ts) s = wt_enqueue_local ts s"
| "wt_exec Signal s =
     (if wt_pending s = 0 then None
      else Some (s\<lparr>wt_pending := wt_pending s - 1, wt_sem := Suc (wt_sem s)\<rparr>))"
| "wt_exec Turn s = wt_turn s"
| "wt_exec Halt s = wt_halt_step s"

inductive wt_reachable :: "wt_sys \<Rightarrow> bool" where
  wt_start: "wt_reachable wt_init"
| wt_step: "wt_reachable s \<Longrightarrow> wt_exec e s = Some s' \<Longrightarrow> wt_reachable s'"

fun wt_run :: "wt_event list \<Rightarrow> wt_sys \<Rightarrow> wt_sys option" where
  "wt_run [] s = Some s"
| "wt_run (e # es) s = Option.bind (wt_exec e s) (wt_run es)"

section \<open>The invariant\<close>

definition wt_inv :: "wt_sys \<Rightarrow> bool" where
  "wt_inv s \<longleftrightarrow>
     (wt_pc s \<noteq> T_run \<and> wt_pc s \<noteq> T_end \<longrightarrow> wt_private s = []) \<and>
     (wt_pc s = T_none \<longrightarrow> wt_public s = []) \<and>
     (wt_abort s \<longleftrightarrow> wt_halt s \<noteq> H_none \<and> wt_halt s \<noteq> H_requested) \<and>
     (wt_private_abort s \<longleftrightarrow> wt_halt s \<in> {H_flagged, H_joining, H_end}) \<and>
     (wt_pc s = T_end \<longrightarrow> wt_abort s) \<and>
     (wt_halt s = H_end \<longrightarrow> wt_pc s = T_none \<or> wt_pc s = T_end) \<and>
     (wt_pc s = T_wait \<and> wt_public s \<noteq> [] \<longrightarrow> 0 < wt_sem s + wt_pending s) \<and>
     (wt_pc s = T_wait \<and> wt_halt s = H_joining \<longrightarrow> 0 < wt_sem s)"

lemma wt_take_inv: "wt_inv s \<Longrightarrow> wt_pc s = T_lock \<or> wt_pc s = T_relock \<Longrightarrow> wt_inv (wt_take s)"
  by (auto simp: wt_inv_def wt_take_def)

lemma wt_wait_inv:
  assumes "wt_inv s" "wt_pc s = T_lock \<or> wt_pc s = T_relock" "wt_public s = []" "\<not> wt_abort s"
  shows "wt_inv (s\<lparr>wt_pc := T_wait\<rparr>)"
  using assms by (auto simp: wt_inv_def)

lemma wt_turn_inv:
  assumes "wt_inv s" "wt_turn s = Some s'"
  shows "wt_inv s'"
proof (cases "wt_pc s")
  case T_wait
  have "wt_inv (s\<lparr>wt_sem := wt_sem s - 1, wt_pc := T_relock\<rparr>)"
    using assms(1) T_wait by (simp add: wt_inv_def)
  with assms(2) T_wait show ?thesis by (cases "wt_sem s = 0") (simp_all add: wt_turn_def)
next
  case T_run
  have "wt_inv (s\<lparr>wt_pc := T_lock\<rparr>)" if "wt_private s = []"
    using assms(1) T_run that by (simp add: wt_inv_def)
  moreover have "wt_inv (s\<lparr>wt_private := ts, wt_pc := T_end\<rparr>)" if "wt_private_abort s" for ts
    using assms(1) T_run that by (auto simp: wt_inv_def)
  moreover have "wt_inv (s\<lparr>wt_private := ts, wt_done := ds\<rparr>)" for ts ds
    using assms(1) T_run by (simp add: wt_inv_def)
  ultimately show ?thesis
    using assms(2) T_run by (cases "wt_private s"; cases "wt_private_abort s") (auto simp: wt_turn_def)
next
  case T_lock
  with assms wt_take_inv wt_wait_inv show ?thesis
    by (cases "wt_public s \<noteq> [] \<or> wt_abort s") (auto simp: wt_turn_def)
next
  case T_relock
  with assms wt_take_inv wt_wait_inv show ?thesis
    by (cases "wt_public s \<noteq> [] \<or> wt_abort s") (auto simp: wt_turn_def)
qed (use assms(2) in \<open>simp_all add: wt_turn_def\<close>)

lemma wt_halt_inv:
  assumes "wt_inv s" "wt_halt_step s = Some s'"
  shows "wt_inv s'"
proof (cases "wt_halt s")
  case H_none
  have "wt_inv (s\<lparr>wt_halt := H_requested\<rparr>)" using assms(1) H_none by (auto simp: wt_inv_def)
  with assms(2) H_none show ?thesis by (simp add: wt_halt_step_def)
next
  case H_requested
  have "wt_inv (s\<lparr>wt_abort := True, wt_halt := H_aborted\<rparr>)" using assms(1) H_requested by (simp add: wt_inv_def)
  with assms(2) H_requested show ?thesis by (simp add: wt_halt_step_def)
next
  case H_aborted
  have "wt_inv (s\<lparr>wt_private_abort := True, wt_halt := H_flagged\<rparr>)" using assms(1) H_aborted by (simp add: wt_inv_def)
  with assms(2) H_aborted show ?thesis by (simp add: wt_halt_step_def)
next
  case H_flagged
  have "wt_inv (s\<lparr>wt_sem := Suc (wt_sem s), wt_halt := H_joining\<rparr>)" using assms(1) H_flagged by (simp add: wt_inv_def)
  with assms(2) H_flagged show ?thesis by (simp add: wt_halt_step_def)
next
  case H_joining
  have "wt_inv (s\<lparr>wt_private := [], wt_public := [], wt_halt := H_end\<rparr>)" if "wt_pc s = T_none \<or> wt_pc s = T_end"
    using assms(1) H_joining that by (auto simp: wt_inv_def)
  with assms(2) H_joining show ?thesis
    by (cases "wt_pc s = T_none \<or> wt_pc s = T_end") (auto simp: wt_halt_step_def)
qed (use assms(2) in \<open>simp add: wt_halt_step_def\<close>)

lemma wt_exec_inv:
  assumes "wt_inv s" "wt_exec e s = Some s'"
  shows "wt_inv s'"
proof (cases e)
  case (Foreign ts)
  have "wt_inv (s\<lparr>wt_public := wt_public s @ ts, wt_pc := T_lock\<rparr>)" if "wt_pc s = T_none" "\<not> wt_abort s"
    using assms(1) that by (auto simp: wt_inv_def)
  moreover have "wt_inv (s\<lparr>wt_public := wt_public s @ ts,
      wt_pending := wt_pending s + (if wt_public s = [] then 1 else 0)\<rparr>)" if "wt_pc s \<noteq> T_none"
    using assms(1) that by (auto simp: wt_inv_def)
  ultimately show ?thesis
    using assms(2) Foreign
    by (cases "ts = []"; cases "wt_abort s"; cases "wt_pc s = T_none") (auto simp: wt_enqueue_foreign_def Let_def)
next
  case (Local ts)
  have "wt_inv (s\<lparr>wt_private := wt_private s @ ts\<rparr>)" if "wt_pc s = T_run"
    using assms(1) that by (simp add: wt_inv_def)
  with assms(2) Local show ?thesis
    by (cases "wt_pc s = T_run \<and> \<not> wt_private_abort s") (auto simp: wt_enqueue_local_def)
next
  case Signal
  have "wt_inv (s\<lparr>wt_pending := wt_pending s - 1, wt_sem := Suc (wt_sem s)\<rparr>)"
    using assms(1) by (auto simp: wt_inv_def)
  with assms(2) Signal show ?thesis by (cases "wt_pending s = 0") simp_all
next
  case Turn
  with assms wt_turn_inv show ?thesis by simp
next
  case Halt
  with assms wt_halt_inv show ?thesis by simp
qed

lemma wt_reachable_inv: "wt_reachable s \<Longrightarrow> wt_inv s"
proof (induction rule: wt_reachable.induct)
  case wt_start
  show ?case by (simp add: wt_inv_def wt_init_def)
next
  case (wt_step s e s')
  then show ?case by (blast intro: wt_exec_inv)
qed

section \<open>A queue that runs its tasks from the front\<close>

record queue_spec =
  sp_waiting :: "task_id list"
  sp_done :: "task_id list"
  sp_stopped :: bool

text \<open>What the executor promises: tasks from outside go to the back, tasks that a running task enqueues
  go before tasks that have not been looked at yet, tasks run from the front, and only a stopped
  executor drops tasks.\<close>

inductive queue_step :: "queue_spec \<Rightarrow> queue_spec \<Rightarrow> bool" where
  accept: "\<not> sp_stopped q \<Longrightarrow> queue_step q (q\<lparr>sp_waiting := sp_waiting q @ ts\<rparr>)"
| accept_local: "sp_waiting q = xs @ ys \<Longrightarrow> queue_step q (q\<lparr>sp_waiting := xs @ ts @ ys\<rparr>)"
| execute: "sp_waiting q = t # ts \<Longrightarrow> queue_step q (q\<lparr>sp_waiting := ts, sp_done := sp_done q @ [t]\<rparr>)"
| stop: "queue_step q (q\<lparr>sp_stopped := True\<rparr>)"
| discard: "sp_stopped q \<Longrightarrow> queue_step q (q\<lparr>sp_waiting := drop n (sp_waiting q)\<rparr>)"

definition wt_abs :: "wt_sys \<Rightarrow> queue_spec" where
  "wt_abs s = \<lparr>sp_waiting = wt_private s @ wt_public s, sp_done = wt_done s, sp_stopped = wt_abort s\<rparr>"

lemma wt_turn_refines:
  assumes "wt_inv s" "wt_turn s = Some s'"
  shows "queue_step\<^sup>*\<^sup>* (wt_abs s) (wt_abs s')"
proof (cases "wt_pc s = T_run")
  case False
  then have "wt_private s = [] \<or> wt_pc s = T_end" using assms(1) by (auto simp: wt_inv_def)
  then have "wt_turn s = None \<or> map_option wt_abs (wt_turn s) = Some (wt_abs s)"
    using False by (cases "wt_pc s") (auto simp: wt_turn_def wt_abs_def wt_take_def)
  with assms(2) show ?thesis by simp
next
  case True
  show ?thesis
  proof (cases "wt_private s")
    case Nil
    with True assms(2) have "wt_abs s' = wt_abs s" by (auto simp: wt_turn_def wt_abs_def)
    then show ?thesis by simp
  next
    case (Cons t ts)
    have w: "sp_waiting (wt_abs s) = t # ts @ wt_public s" using Cons by (simp add: wt_abs_def)
    show ?thesis
    proof (cases "wt_private_abort s")
      case True
      then have "wt_halt s \<in> {H_flagged, H_joining, H_end}" using assms(1) unfolding wt_inv_def by blast
      then have "wt_halt s \<noteq> H_none" "wt_halt s \<noteq> H_requested" by auto
      then have "wt_abort s" using assms(1) unfolding wt_inv_def by blast
      then have "sp_stopped (wt_abs s)" by (simp add: wt_abs_def)
      moreover have "wt_abs s' = (wt_abs s)\<lparr>sp_waiting := drop 1 (sp_waiting (wt_abs s))\<rparr>"
        using Cons True \<open>wt_pc s = T_run\<close> assms(2) by (auto simp: wt_turn_def wt_abs_def)
      ultimately show ?thesis using queue_step.discard [of "wt_abs s" 1] by auto
    next
      case False
      then have "wt_abs s' = (wt_abs s)\<lparr>sp_waiting := ts @ wt_public s, sp_done := sp_done (wt_abs s) @ [t]\<rparr>"
        using Cons \<open>wt_pc s = T_run\<close> assms(2) by (auto simp: wt_turn_def wt_abs_def)
      then show ?thesis using queue_step.execute [OF w] by auto
    qed
  qed
qed

lemma wt_halt_refines:
  assumes "wt_inv s" "wt_halt_step s = Some s'"
  shows "queue_step\<^sup>*\<^sup>* (wt_abs s) (wt_abs s')"
proof (cases "wt_halt s")
  case H_requested
  with assms(2) have "s' = s\<lparr>wt_abort := True, wt_halt := H_aborted\<rparr>" by (simp add: wt_halt_step_def)
  then have "wt_abs s' = (wt_abs s)\<lparr>sp_stopped := True\<rparr>" by (simp add: wt_abs_def)
  then show ?thesis using queue_step.stop [of "wt_abs s"] by auto
next
  case H_joining
  with assms(2) have "s' = s\<lparr>wt_private := [], wt_public := [], wt_halt := H_end\<rparr>"
    by (simp add: wt_halt_step_def split: if_splits)
  then have "wt_abs s' = (wt_abs s)\<lparr>sp_waiting := drop (length (sp_waiting (wt_abs s))) (sp_waiting (wt_abs s))\<rparr>"
    by (simp add: wt_abs_def)
  moreover have "sp_stopped (wt_abs s)" using assms(1) H_joining by (simp add: wt_abs_def wt_inv_def)
  ultimately show ?thesis
    using queue_step.discard [of "wt_abs s" "length (sp_waiting (wt_abs s))"] by auto
qed (use assms(2) in \<open>auto simp: wt_halt_step_def wt_abs_def\<close>)

lemma wt_exec_refines:
  assumes "wt_inv s" "wt_exec e s = Some s'"
  shows "queue_step\<^sup>*\<^sup>* (wt_abs s) (wt_abs s')"
proof (cases e)
  case (Foreign ts)
  then have "\<not> sp_stopped (wt_abs s)" "wt_abs s' = (wt_abs s)\<lparr>sp_waiting := sp_waiting (wt_abs s) @ ts\<rparr>"
    using assms(2) by (auto simp: wt_enqueue_foreign_def wt_abs_def Let_def split: if_splits)
  then show ?thesis using queue_step.accept [of "wt_abs s" ts] by auto
next
  case (Local ts)
  then have "wt_abs s' = (wt_abs s)\<lparr>sp_waiting := wt_private s @ ts @ wt_public s\<rparr>"
    using assms(2) by (auto simp: wt_enqueue_local_def wt_abs_def split: if_splits)
  moreover have "sp_waiting (wt_abs s) = wt_private s @ wt_public s" by (simp add: wt_abs_def)
  ultimately show ?thesis using queue_step.accept_local [of "wt_abs s" "wt_private s" "wt_public s" ts] by auto
next
  case Signal
  with assms(2) have "wt_abs s' = wt_abs s" by (auto simp: wt_abs_def split: if_splits)
  then show ?thesis by simp
next
  case Turn
  with assms wt_turn_refines show ?thesis by simp
next
  case Halt
  with assms wt_halt_refines show ?thesis by simp
qed


lemma wt_run_reachable: "wt_reachable s \<Longrightarrow> wt_run es s = Some s' \<Longrightarrow> wt_reachable s'"
proof (induction es arbitrary: s)
  case (Cons e es)
  then show ?case by (auto simp: Option.bind_eq_Some_conv intro: wt_reachable.wt_step)
qed simp

definition wt_demo :: "wt_event list" where
  "wt_demo = [Foreign [1, 2], Turn, Turn, Foreign [4], Local [3], Turn, Turn]"

lemmas wt_exec_defs = wt_enqueue_foreign_def wt_enqueue_local_def wt_take_def wt_turn_def wt_halt_step_def


section \<open>Progress\<close>

text \<open>A waiting task is always on its way to the thread.\<close>

lemma wt_no_lost_wakeup:
  assumes "wt_reachable s" "wt_public s \<noteq> []" "wt_pc s \<noteq> T_run" "\<not> wt_abort s"
  shows "\<exists>es s'. length es \<le> 3 \<and> set es \<subseteq> {Signal, Turn} \<and> wt_run es s = Some s' \<and>
           wt_private s' = wt_public s \<and> wt_public s' = [] \<and> wt_pc s' = T_run"
proof -
  note st = wt_reachable_inv [OF assms(1), unfolded wt_inv_def] assms(2-4)
  define es where "es =
    (if wt_pc s = T_wait then (if wt_sem s = 0 then [Signal] else []) @ [Turn, Turn] else [Turn])"
  have "\<exists>s'. wt_run es s = Some s' \<and> wt_private s' = wt_public s \<and> wt_public s' = [] \<and> wt_pc s' = T_run"
    using st by (cases "wt_pc s") (auto simp: es_def wt_turn_def wt_take_def)
  moreover have "length es \<le> 3" "set es \<subseteq> {Signal, Turn}" by (auto simp: es_def)
  ultimately show ?thesis by blast
qed

text \<open>The join of a shutdown returns after at most two steps of the thread.\<close>

lemma wt_shutdown_joins:
  assumes "wt_reachable s" "wt_halt s = H_joining"
  shows "\<exists>n s'. n \<le> 2 \<and> wt_run (replicate n Turn @ [Halt]) s = Some s' \<and> wt_halt s' = H_end \<and>
           wt_private s' = [] \<and> wt_public s' = []"
proof -
  note st = wt_reachable_inv [OF assms(1), unfolded wt_inv_def] assms(2)
  define n :: nat where "n = (case wt_pc s of T_none \<Rightarrow> 0 | T_end \<Rightarrow> 0 | T_wait \<Rightarrow> 2
    | T_run \<Rightarrow> (if wt_private s = [] then 2 else 1) | _ \<Rightarrow> 1)"
  have "\<exists>s'. wt_run (replicate n Turn @ [Halt]) s = Some s' \<and> wt_halt s' = H_end \<and>
      wt_private s' = [] \<and> wt_public s' = []"
    using st by (cases "wt_pc s"; cases "wt_private s") (auto simp: n_def wt_exec_defs numeral_2_eq_2)
  moreover have "n \<le> 2" by (simp add: n_def split: thread_pc.splits)
  ultimately show ?thesis by blast
qed

text \<open>The semaphore of the source is binary; tasks enqueued while the thread runs release it twice.\<close>

lemma wt_semaphore_overflow: "\<exists>s. wt_reachable s \<and> 1 < wt_sem s"
proof -
  let ?es = "[Foreign [1], Turn, Turn, Foreign [2], Signal, Turn, Turn, Foreign [3], Signal]"
  have "\<exists>s. wt_run ?es wt_init = Some s \<and> 1 < wt_sem s"
    by (simp add: wt_init_def wt_exec_defs Let_def)
  then show ?thesis using wt_run_reachable [OF wt_reachable.wt_start] by blast
qed

end
