(* ===== verification/Thread_Executor.thy ===== *)
theory Thread_Executor
  imports Thread_Pool "HOL-Library.Sublist"
begin

text \<open>
  \<^verbatim>\<open>thread_executor\<close> (\<^verbatim>\<open>source/executors/thread_executor.cpp\<close>): one thread per task.  A thread that has run
  its task retires: it takes the previously retired thread out of \<^verbatim>\<open>m_last_retired\<close>, puts itself there and
  joins the other one; \<^verbatim>\<open>shutdown\<close> waits until no thread works and joins the last one.  The threads,
  the enqueuers and the shutdown are interleaved at the lock and at the joins.
\<close>

section \<open>The system\<close>

type_synonym thread_id = nat

datatype thread_state =
    X_new
  | X_running                       \<comment> \<open>in the task, up to the lock of \<^verbatim>\<open>retire_worker\<close>\<close>
  | X_joining "thread_id option"    \<comment> \<open>after it, with what \<^verbatim>\<open>last_retired\<close> held\<close>
  | X_exited

datatype closing = C_open | C_requested | C_waiting | C_joining thread_id | C_closed

record tx_sys =
  tx_workers :: "thread_id list"
  tx_last_retired :: "thread_id list"
  tx_abort :: bool
  tx_state :: "thread_id \<Rightarrow> thread_state"
  tx_closing :: closing
  tx_joined :: "thread_id list"
  tx_retired :: "thread_id list"

text \<open>\<open>tx_joined\<close> and \<open>tx_retired\<close> record the threads joined and retired, in order.\<close>

definition tx_init :: tx_sys where
  "tx_init = \<lparr>tx_workers = [], tx_last_retired = [], tx_abort = False, tx_state = (\<lambda>_. X_new),
     tx_closing = C_open, tx_joined = [], tx_retired = []\<rparr>"

text \<open>\<^verbatim>\<open>enqueue_impl\<close>: \<open>i\<close> is the new thread, which goes to the front of the list.\<close>

definition tx_enqueue_impl :: "thread_id \<Rightarrow> tx_sys \<Rightarrow> tx_sys" where
  "tx_enqueue_impl i s = s\<lparr>tx_workers := i # tx_workers s, tx_state := (tx_state s)(i := X_running)\<rparr>"

definition tx_enqueue :: "thread_id \<Rightarrow> tx_sys \<Rightarrow> tx_sys outcome" where
  "tx_enqueue i s =
     (if tx_abort s then throw_runtime_shutdown_exception ''concurrencpp::thread_executor''
      else Inr (tx_enqueue_impl i s))"

definition tx_enqueue_span :: "thread_id list \<Rightarrow> tx_sys \<Rightarrow> tx_sys outcome" where
  "tx_enqueue_span is s =
     (if tx_abort s then throw_runtime_shutdown_exception ''concurrencpp::thread_executor''
      else Inr (fold tx_enqueue_impl is s))"

text \<open>The critical section of \<^verbatim>\<open>retire_worker\<close>; \<^verbatim>\<open>last_retired\<close> is what the moved list held.\<close>

definition retire_worker :: "thread_id \<Rightarrow> tx_sys \<Rightarrow> tx_sys outcome" where
  "retire_worker i s =
     (case tx_last_retired s of
        [] \<Rightarrow> Inr (s\<lparr>tx_last_retired := [i], tx_workers := remove1 i (tx_workers s),
                     tx_state := (tx_state s)(i := X_joining None), tx_retired := tx_retired s @ [i]\<rparr>)
      | [p] \<Rightarrow> Inr (s\<lparr>tx_last_retired := [i], tx_workers := remove1 i (tx_workers s),
                     tx_state := (tx_state s)(i := X_joining (Some p)), tx_retired := tx_retired s @ [i]\<rparr>)
      | _ \<Rightarrow> Inl (Assertion_failed ''last_retired.size() == 1''))"

text \<open>The end of \<^verbatim>\<open>retire_worker\<close>: a join waits until the other thread has exited.\<close>

definition join_retired :: "thread_id \<Rightarrow> tx_sys \<Rightarrow> tx_sys option" where
  "join_retired i s =
     (case tx_state s i of
        X_joining None \<Rightarrow> Some (s\<lparr>tx_state := (tx_state s)(i := X_exited)\<rparr>)
      | X_joining (Some p) \<Rightarrow>
          (if tx_state s p = X_exited
           then Some (s\<lparr>tx_state := (tx_state s)(i := X_exited), tx_joined := tx_joined s @ [p]\<rparr>)
           else None)
      | _ \<Rightarrow> None)"

definition tx_shutdown_step :: "tx_sys \<Rightarrow> tx_sys outcome option" where
  "tx_shutdown_step s =
     (case tx_closing s of
        C_open \<Rightarrow> Some (Inr (s\<lparr>tx_closing := C_requested\<rparr>))
      | C_requested \<Rightarrow> Some (Inr (s\<lparr>tx_abort := True, tx_closing := C_waiting\<rparr>))
      | C_waiting \<Rightarrow>
          (if tx_workers s \<noteq> [] then None
           else Some (case tx_last_retired s of
               [] \<Rightarrow> Inr (s\<lparr>tx_closing := C_closed\<rparr>)
             | [p] \<Rightarrow> Inr (s\<lparr>tx_closing := C_joining p\<rparr>)
             | _ \<Rightarrow> Inl (Assertion_failed ''m_last_retired.size() == 1'')))
      | C_joining p \<Rightarrow>
          (if tx_state s p = X_exited
           then Some (Inr (s\<lparr>tx_last_retired := [], tx_joined := tx_joined s @ [p], tx_closing := C_closed\<rparr>))
           else None)
      | C_closed \<Rightarrow> None)"

datatype tx_event = Tx_enqueue thread_id | Tx_retire thread_id | Tx_join thread_id | Tx_shutdown

fun tx_exec :: "tx_event \<Rightarrow> tx_sys \<Rightarrow> tx_sys outcome option" where
  "tx_exec (Tx_enqueue i) s = (if tx_state s i = X_new \<and> \<not> tx_abort s then Some (tx_enqueue i s) else None)"
| "tx_exec (Tx_retire i) s = (if tx_state s i = X_running then Some (retire_worker i s) else None)"
| "tx_exec (Tx_join i) s = map_option Inr (join_retired i s)"
| "tx_exec Tx_shutdown s = tx_shutdown_step s"

inductive tx_reachable :: "tx_sys \<Rightarrow> bool" where
  tx_start: "tx_reachable tx_init"
| tx_step: "tx_reachable s \<Longrightarrow> tx_exec e s = Some (Inr s') \<Longrightarrow> tx_reachable s'"

text \<open>The destructor of the executor.\<close>

definition tx_destructor :: "tx_sys \<Rightarrow> unit outcome" where
  "tx_destructor s =
     bind_outcome (assert_that (tx_workers s = []) ''m_workers.empty()'')
       (\<lambda>_. assert_that (tx_last_retired s = []) ''m_last_retired.empty()'')"

section \<open>The invariant\<close>

text \<open>The retired threads form a chain: each of them joins the one that retired before it, so they
  exit in the order of retirement.  \<open>m\<close> of them have exited.\<close>

definition tx_inv :: "tx_sys \<Rightarrow> nat \<Rightarrow> bool" where
  "tx_inv s m \<longleftrightarrow>
     (let rs = tx_retired s in
      distinct (tx_workers s @ rs) \<and>
      (\<forall>i. tx_state s i = X_new \<longleftrightarrow> i \<notin> set (tx_workers s @ rs)) \<and>
      (\<forall>i. tx_state s i = X_running \<longleftrightarrow> i \<in> set (tx_workers s)) \<and>
      m \<le> length rs \<and>
      (\<forall>k < length rs. tx_state s (rs ! k) =
         (if k < m then X_exited else X_joining (if k = 0 then None else Some (rs ! (k - 1))))) \<and>
      tx_joined s = (if tx_closing s = C_closed then rs else take (m - 1) rs) \<and>
      tx_last_retired s = (if rs = [] \<or> tx_closing s = C_closed then [] else [last rs]) \<and>
      (tx_abort s \<longleftrightarrow> tx_closing s \<noteq> C_open \<and> tx_closing s \<noteq> C_requested) \<and>
      (\<forall>p. tx_closing s = C_joining p \<longrightarrow> tx_workers s = [] \<and> rs \<noteq> [] \<and> p = last rs) \<and>
      (tx_closing s = C_closed \<longrightarrow> tx_workers s = [] \<and> m = length rs))"

definition tx_safe :: "tx_sys outcome \<Rightarrow> bool" where
  "tx_safe r \<longleftrightarrow> (\<exists>s m. r = Inr s \<and> tx_inv s m)"

lemma tx_inv_init: "tx_inv tx_init 0"
  by (simp add: tx_inv_def tx_init_def)

lemma tx_inv_enqueue:
  assumes "tx_inv s m" "tx_state s i = X_new" "\<not> tx_abort s"
  shows "tx_inv (tx_enqueue_impl i s) m"
proof -
  have i: "i \<notin> set (tx_workers s)" "i \<notin> set (tx_retired s)"
    using assms(1,2) by (auto simp: tx_inv_def Let_def)
  then have "tx_retired s ! k \<noteq> i" if "k < length (tx_retired s)" for k using that nth_mem by blast
  with assms i show ?thesis
    by (auto simp: tx_inv_def tx_enqueue_impl_def Let_def)
qed

lemma tx_inv_retire:
  assumes "tx_inv s m" "tx_state s i = X_running"
  shows "\<exists>s'. retire_worker i s = Inr s' \<and> tx_inv s' m"
proof -
  let ?rs = "tx_retired s"
  have i: "i \<in> set (tx_workers s)" "i \<notin> set ?rs" and opn: "tx_closing s \<noteq> C_closed" "\<forall>p. tx_closing s \<noteq> C_joining p"
    using assms by (auto simp: tx_inv_def Let_def)
  have ne: "?rs ! k \<noteq> i" if "k < length ?rs" for k using that i(2) nth_mem by blast
  let ?s = "s\<lparr>tx_last_retired := [i], tx_workers := remove1 i (tx_workers s),
      tx_state := (tx_state s)(i := X_joining (if ?rs = [] then None else Some (last ?rs))), tx_retired := ?rs @ [i]\<rparr>"
  have "retire_worker i s = Inr ?s"
    using assms(1) opn by (auto simp: retire_worker_def tx_inv_def Let_def)
  moreover have "tx_inv ?s m"
    using assms(1) i opn ne
    by (auto simp: tx_inv_def Let_def nth_append less_Suc_eq last_conv_nth set_remove1_eq)
  ultimately show ?thesis by blast
qed

lemma tx_inv_join:
  assumes "tx_inv s m" "join_retired i s = Some s'"
  shows "tx_inv s' (Suc m)"
proof -
  let ?rs = "tx_retired s"
  have "\<exists>x. tx_state s i = X_joining x" using assms(2) by (auto simp: join_retired_def split: thread_state.splits)
  then obtain x where x: "tx_state s i = X_joining x" ..
  have "(tx_state s i = X_new) = (i \<notin> set (tx_workers s @ ?rs))" "(tx_state s i = X_running) = (i \<in> set (tx_workers s))"
    using assms(1) by (simp_all add: tx_inv_def Let_def)
  with x have "i \<in> set ?rs" by auto
  then obtain k where k: "k < length ?rs" "?rs ! k = i" by (auto simp: in_set_conv_nth)
  have st: "tx_state s (?rs ! j) = (if j < m then X_exited else X_joining (if j = 0 then None else Some (?rs ! (j - 1))))"
    if "j < length ?rs" for j using assms(1) that by (simp add: tx_inv_def Let_def)
  have km: "m \<le> k" "x = (if k = 0 then None else Some (?rs ! (k - 1)))"
    using st [OF k(1)] x k(2) by (auto split: if_splits)
  have "k = m"
  proof (cases "k = 0")
    case False
    then have "tx_state s (?rs ! (k - 1)) = X_exited" using assms(2) x km by (auto simp: join_retired_def split: if_splits)
    with st [of "k - 1"] k(1) False km(1) show ?thesis by (auto split: if_splits)
  qed (use km in simp)
  have other: "?rs ! j = i \<longleftrightarrow> j = m" if "j < length ?rs" for j
    using assms(1) k \<open>k = m\<close> that by (auto simp: tx_inv_def Let_def nth_eq_iff_index_eq)
  have cl: "tx_closing s \<noteq> C_closed" using assms(1) k(1) km(1) by (auto simp: tx_inv_def Let_def)
  let ?s = "s\<lparr>tx_state := (tx_state s)(i := X_exited), tx_joined := take m ?rs\<rparr>"
  have j: "tx_joined s = take (m - 1) ?rs" using assms(1) cl by (simp add: tx_inv_def Let_def)
  have "s' = ?s"
  proof (cases m)
    case 0
    then have "?s = s\<lparr>tx_state := (tx_state s)(i := X_exited), tx_joined := tx_joined s\<rparr>" using j by simp
    also have "\<dots> = s\<lparr>tx_state := (tx_state s)(i := X_exited)\<rparr>" by simp
    also have "\<dots> = s'" using assms(2) x km \<open>k = m\<close> 0 by (simp add: join_retired_def)
    finally show ?thesis by (rule sym)
  next
    case (Suc l)
    then have "take m ?rs = tx_joined s @ [?rs ! l]" using j k(1) \<open>k = m\<close> by (simp add: take_Suc_conv_app_nth)
    then show ?thesis using assms(2) x km \<open>k = m\<close> Suc by (simp add: join_retired_def split: if_splits)
  qed
  moreover have "tx_inv ?s (Suc m)"
    using assms(1) k \<open>k = m\<close> cl other \<open>i \<in> set ?rs\<close>
    by (auto simp: tx_inv_def Let_def less_Suc_eq)
  ultimately show ?thesis by simp
qed

lemma tx_inv_shutdown:
  assumes "tx_inv s m" "tx_shutdown_step s = Some r"
  shows "tx_safe r"
proof (cases "tx_closing s")
  case C_open
  have "tx_inv (s\<lparr>tx_closing := C_requested\<rparr>) m" using assms(1) C_open by (simp add: tx_inv_def Let_def)
  with assms(2) C_open show ?thesis by (auto simp: tx_shutdown_step_def tx_safe_def)
next
  case C_requested
  have "tx_inv (s\<lparr>tx_abort := True, tx_closing := C_waiting\<rparr>) m"
    using assms(1) C_requested by (simp add: tx_inv_def Let_def)
  with assms(2) C_requested show ?thesis by (auto simp: tx_shutdown_step_def tx_safe_def)
next
  case C_waiting
  then have w: "tx_workers s = []" using assms(2) by (auto simp: tx_shutdown_step_def split: if_splits)
  show ?thesis
  proof (cases "tx_retired s = []")
    case True
    then have "r = Inr (s\<lparr>tx_closing := C_closed\<rparr>)"
      using assms C_waiting w by (simp add: tx_shutdown_step_def tx_inv_def Let_def)
    moreover have "tx_inv (s\<lparr>tx_closing := C_closed\<rparr>) m"
      using assms(1) C_waiting w True by (simp add: tx_inv_def Let_def)
    ultimately show ?thesis by (auto simp: tx_safe_def)
  next
    case False
    then have "r = Inr (s\<lparr>tx_closing := C_joining (last (tx_retired s))\<rparr>)"
      using assms C_waiting w by (simp add: tx_shutdown_step_def tx_inv_def Let_def)
    moreover have "tx_inv (s\<lparr>tx_closing := C_joining (last (tx_retired s))\<rparr>) m"
      using assms(1) C_waiting w False by (simp add: tx_inv_def Let_def)
    ultimately show ?thesis by (auto simp: tx_safe_def)
  qed
next
  case (C_joining p)
  let ?rs = "tx_retired s"
  have p: "?rs \<noteq> []" "p = last ?rs" "tx_workers s = []" "m \<le> length ?rs" "tx_joined s = take (m - 1) ?rs"
    using assms(1) C_joining by (simp_all add: tx_inv_def Let_def)
  have ex: "tx_state s p = X_exited" using assms(2) C_joining by (auto simp: tx_shutdown_step_def split: if_splits)
  have "tx_state s (?rs ! (length ?rs - 1)) = (if length ?rs - 1 < m then X_exited
      else X_joining (if length ?rs - 1 = 0 then None else Some (?rs ! (length ?rs - 1 - 1))))"
    using assms(1) p(1) by (simp add: tx_inv_def Let_def)
  then have m: "m = length ?rs" using ex p(1,2,4) by (auto simp: last_conv_nth split: if_splits)
  have "take (m - 1) ?rs @ [last ?rs] = ?rs" using m p(1) append_butlast_last_id [OF p(1)] by (simp add: butlast_conv_take)
  then have "r = Inr (s\<lparr>tx_last_retired := [], tx_joined := ?rs, tx_closing := C_closed\<rparr>)"
    using assms(2) C_joining ex p(2,5) by (simp add: tx_shutdown_step_def)
  moreover have "tx_inv (s\<lparr>tx_last_retired := [], tx_joined := ?rs, tx_closing := C_closed\<rparr>) m"
    using assms(1) C_joining p m by (simp add: tx_inv_def Let_def)
  ultimately show ?thesis by (auto simp: tx_safe_def)
qed (use assms(2) in \<open>simp add: tx_shutdown_step_def\<close>)

lemma tx_exec_safe:
  assumes "tx_inv s m" "tx_exec e s = Some r"
  shows "tx_safe r"
proof (cases e)
  case (Tx_enqueue i)
  with assms tx_inv_enqueue [OF assms(1), of i] show ?thesis
    by (auto simp: tx_safe_def tx_enqueue_def split: if_splits)
next
  case (Tx_retire i)
  with assms(2) have "tx_state s i = X_running" "r = retire_worker i s" by (simp_all split: if_splits)
  with tx_inv_retire [OF assms(1)] show ?thesis unfolding tx_safe_def by blast
next
  case (Tx_join i)
  with assms tx_inv_join [OF assms(1), of i] show ?thesis by (auto simp: tx_safe_def)
next
  case Tx_shutdown
  with assms tx_inv_shutdown show ?thesis by simp
qed

lemma tx_reachable_inv: "tx_reachable s \<Longrightarrow> \<exists>m. tx_inv s m"
proof (induction rule: tx_reachable.induct)
  case tx_start
  show ?case using tx_inv_init by blast
next
  case (tx_step s e s')
  then obtain m where "tx_inv s m" by blast
  from tx_exec_safe [OF this tx_step.hyps(2)] show ?case by (auto simp: tx_safe_def)
qed

section \<open>Every thread is joined exactly once\<close>

text \<open>C22: threads are joined once, in the order in which they retire, and none is left behind.  In every
  reachable state no enabled step fails an assertion, no thread has been joined twice and every
  joined thread has exited.  When \<^verbatim>\<open>shutdown\<close> has returned, every thread that was ever started
  has exited and has been joined, and the assertions of the destructor hold.\<close>

theorem thread_executor_joins_once:
  assumes "tx_reachable s"
  shows "(\<forall>e r. tx_exec e s = Some r \<longrightarrow> (\<exists>s'. r = Inr s')) \<and> distinct (tx_joined s) \<and>
         prefix (tx_joined s) (tx_retired s) \<and> (\<forall>i \<in> set (tx_joined s). tx_state s i = X_exited) \<and>
         (tx_closing s = C_closed \<longrightarrow>
            {i. tx_state s i \<noteq> X_new} = set (tx_joined s) \<and> tx_destructor s = Inr ())"
proof -
  obtain m where inv: "tx_inv s m" using tx_reachable_inv [OF assms] by blast
  let ?rs = "tx_retired s"
  have safe: "\<forall>e r. tx_exec e s = Some r \<longrightarrow> (\<exists>s'. r = Inr s')"
    using tx_exec_safe [OF inv] by (auto simp: tx_safe_def)
  have j: "tx_joined s = (if tx_closing s = C_closed then ?rs else take (m - 1) ?rs)" "distinct ?rs" "m \<le> length ?rs"
    using inv by (simp_all add: tx_inv_def Let_def)
  have ex: "tx_state s (?rs ! k) = X_exited" if "k < m" for k
    using inv that by (simp add: tx_inv_def Let_def)
  have "tx_closing s = C_closed \<Longrightarrow> m = length ?rs" using inv by (simp add: tx_inv_def Let_def)
  then have "\<forall>i \<in> set (tx_joined s). tx_state s i = X_exited"
    using j ex by (auto simp: in_set_conv_nth)
  moreover have "distinct (tx_joined s)" "prefix (tx_joined s) ?rs" using j by (simp_all add: take_is_prefix)
  moreover have "{i. tx_state s i \<noteq> X_new} = set (tx_joined s)" "tx_destructor s = Inr ()" if "tx_closing s = C_closed"
    using inv that by (auto simp: tx_inv_def Let_def tx_destructor_def)
  ultimately show ?thesis using safe by blast
qed

fun tx_run :: "tx_event list \<Rightarrow> tx_sys \<Rightarrow> tx_sys outcome option" where
  "tx_run [] s = Some (Inr s)"
| "tx_run (e # es) s =
     (case tx_exec e s of None \<Rightarrow> None | Some (Inl x) \<Rightarrow> Some (Inl x) | Some (Inr t) \<Rightarrow> tx_run es t)"

lemma tx_run_reachable: "tx_reachable s \<Longrightarrow> tx_run es s = Some (Inr s') \<Longrightarrow> tx_reachable s'"
  by (induction es arbitrary: s) (auto split: option.splits sum.splits intro: tx_reachable.tx_step)

definition tx_demo :: "tx_event list" where
  "tx_demo = [Tx_enqueue 4, Tx_enqueue 9, Tx_retire 9, Tx_shutdown, Tx_shutdown, Tx_retire 4, Tx_shutdown,
     Tx_join 9, Tx_join 4, Tx_shutdown]"

definition tx_demo_end :: tx_sys where
  "tx_demo_end = \<lparr>tx_workers = [], tx_last_retired = [], tx_abort = True,
     tx_state = (\<lambda>_. X_new)(4 := X_exited, 9 := X_exited), tx_closing = C_closed, tx_joined = [9, 4],
     tx_retired = [9, 4]\<rparr>"

lemmas tx_exec_defs = tx_enqueue_def tx_enqueue_impl_def retire_worker_def join_retired_def
  tx_shutdown_step_def

theorem thread_executor_joins_once_witness:
  "{i. tx_state tx_demo_end i \<noteq> X_new} = {9, 4} \<and> tx_destructor tx_demo_end = Inr ()"
proof -
  have "tx_run tx_demo tx_init = Some (Inr tx_demo_end)"
    by (simp add: tx_demo_def tx_init_def tx_exec_defs tx_demo_end_def fun_upd_twist)
  from thread_executor_joins_once [OF tx_run_reachable [OF tx_reachable.tx_start this]]
  show ?thesis by (simp add: tx_demo_end_def)
qed

text \<open>After the flag is set nothing more is accepted.\<close>

lemma tx_enqueue_refused:
  assumes "tx_abort s"
  shows "tx_enqueue i s = Inl (Runtime_shutdown (''concurrencpp::thread_executor'' @ k_executor_shutdown_err_msg))"
    and "tx_enqueue_span is s = Inl (Runtime_shutdown (''concurrencpp::thread_executor'' @ k_executor_shutdown_err_msg))"
  using assms by (simp_all add: tx_enqueue_def tx_enqueue_span_def throw_runtime_shutdown_exception_def)

end
