(* ===== verification/Executor.thy ===== *)
theory Executor
  imports Pool_Drain Manual_Executor Worker_Thread Thread_Executor
begin

text \<open>
  The interface \<^verbatim>\<open>executor\<close> (\<^verbatim>\<open>executors/executor.h\<close>, \<^verbatim>\<open>executors/derivable_executor.h\<close>), the
  \<^verbatim>\<open>inline_executor\<close>, and the wrapping of posted callables (\<^verbatim>\<open>utils/bind.h\<close>).  The contract of \<^verbatim>\<open>enqueue\<close>
  is a locale: a running executor accepts each task once, a stopped one throws.  It is
  interpreted on the manual executor, the worker thread, the thread executor and the thread pool.
\<close>

section \<open>Callables\<close>

text \<open>A callable acts on the state of the program and may throw.\<close>

type_synonym 'e callable = "'e \<Rightarrow> exn option \<times> 'e"

definition bind_with_try_catch :: "bool \<Rightarrow> 'e callable \<Rightarrow> 'e callable" where
  "bind_with_try_catch is_noexcept c = (if is_noexcept then c else (\<lambda>e. (None, snd (c e))))"

lemma bind_with_try_catch_catches: "fst (bind_with_try_catch False c e) = None"
  "snd (bind_with_try_catch b c e) = snd (c e)"
  by (simp_all add: bind_with_try_catch_def)

section \<open>The inline executor\<close>

record 'e inline_executor =
  ie_abort :: bool
  ie_env :: 'e

definition k_inline_executor_name :: string where
  "k_inline_executor_name = ''concurrencpp::inline_executor''"

definition inline_enqueue :: "'e callable \<Rightarrow> 'e inline_executor \<Rightarrow> exn option \<times> 'e inline_executor" where
  "inline_enqueue task s =
     (if ie_abort s then (Some (Runtime_shutdown (k_inline_executor_name @ k_executor_shutdown_err_msg)), s)
      else let (x, e) = task (ie_env s) in (x, s\<lparr>ie_env := e\<rparr>))"

text \<open>An exception of a task leaves the loop and with it \<^verbatim>\<open>enqueue\<close>; the flag is tested once.\<close>

fun inline_run_all :: "'e callable list \<Rightarrow> 'e \<Rightarrow> exn option \<times> 'e" where
  "inline_run_all [] e = (None, e)"
| "inline_run_all (t # ts) e = (case t e of (Some x, e1) \<Rightarrow> (Some x, e1) | (None, e1) \<Rightarrow> inline_run_all ts e1)"

definition inline_enqueue_span :: "'e callable list \<Rightarrow> 'e inline_executor \<Rightarrow> exn option \<times> 'e inline_executor" where
  "inline_enqueue_span tasks s =
     (if ie_abort s then (Some (Runtime_shutdown (k_inline_executor_name @ k_executor_shutdown_err_msg)), s)
      else let (x, e) = inline_run_all tasks (ie_env s) in (x, s\<lparr>ie_env := e\<rparr>))"

definition inline_shutdown :: "'e inline_executor \<Rightarrow> 'e inline_executor" where
  "inline_shutdown s = s\<lparr>ie_abort := True\<rparr>"

definition inline_shutdown_requested :: "'e inline_executor \<Rightarrow> bool" where
  "inline_shutdown_requested s = ie_abort s"

section \<open>Posting\<close>

definition do_post :: "('c \<Rightarrow> 's \<Rightarrow> 'r) \<Rightarrow> ('c \<Rightarrow> 'c) \<Rightarrow> 'c \<Rightarrow> 's \<Rightarrow> 'r" where
  "do_post enqueue wrap callable s = enqueue (wrap callable) s"

definition do_bulk_post :: "('c list \<Rightarrow> 's \<Rightarrow> 's outcome) \<Rightarrow> ('c \<Rightarrow> 'c) \<Rightarrow> 'c list \<Rightarrow> 's \<Rightarrow> 's outcome" where
  "do_bulk_post enqueue wrap callable_list s =
     bind_outcome (assert_that (callable_list \<noteq> []) ''!callable_list.empty()'')
       (\<lambda>_. enqueue (map wrap callable_list) s)"

text \<open>Posted callables run in order on the inline executor and their exceptions reach nobody.\<close>

lemma inline_bulk_post:
  assumes "\<not> ie_abort s"
  shows "inline_enqueue_span (map (bind_with_try_catch False) cs) s =
           (None, s\<lparr>ie_env := fold (\<lambda>c e. snd (c e)) cs (ie_env s)\<rparr>)"
proof -
  have "inline_run_all (map (bind_with_try_catch False) cs) e = (None, fold (\<lambda>c e. snd (c e)) cs e)" for e
    by (induction cs arbitrary: e) (simp_all add: bind_with_try_catch_def)
  with assms show ?thesis by (simp add: inline_enqueue_span_def)
qed

section \<open>The contract of enqueue\<close>

fun enqueue_each :: "('x \<Rightarrow> 's \<Rightarrow> 's outcome) \<Rightarrow> 'x list \<Rightarrow> 's \<Rightarrow> 's outcome" where
  "enqueue_each enq [] s = Inr s"
| "enqueue_each enq (x # xs) s = bind_outcome (enq x s) (enqueue_each enq xs)"

locale accepting_executor =
  fixes enq :: "'x \<Rightarrow> 's \<Rightarrow> 's outcome"
    and accepted :: "'s \<Rightarrow> 'x multiset"
    and running :: "'s \<Rightarrow> bool"
  assumes enq_accepts: "running s \<Longrightarrow> \<exists>t. enq x s = Inr t \<and> running t \<and> accepted t = accepted s + {#x#}"
begin

lemma each_accepts:
  assumes "running s"
  shows "\<exists>t. enqueue_each enq xs s = Inr t \<and> running t \<and> accepted t = accepted s + mset xs"
  using assms
proof (induction xs arbitrary: s)
  case (Cons x xs)
  obtain t where t: "enq x s = Inr t" "running t" "accepted t = accepted s + {#x#}"
    using enq_accepts [OF Cons.prems] by blast
  with Cons.IH [OF t(2)] show ?case by auto
qed simp

end

locale stoppable_executor = accepting_executor +
  fixes stopped :: "'b \<Rightarrow> bool"
    and refusal :: "'b \<Rightarrow> exn"
  assumes enq_refuses: "stopped s \<Longrightarrow> enq x s = Inl (refusal s)"
begin

lemma each_refuses: "stopped s \<Longrightarrow> xs \<noteq> [] \<Longrightarrow> enqueue_each enq xs s = Inl (refusal s)"
  by (cases xs) (simp_all add: enq_refuses)

end

section \<open>The executors implement it\<close>

interpretation manual_ex: stoppable_executor manual_enqueue "\<lambda>m. mset (me_tasks m)" "\<lambda>m. \<not> me_abort m"
  me_abort "\<lambda>m. Runtime_shutdown (k_manual_executor_name @ k_executor_shutdown_err_msg)"
  by unfold_locales (simp_all add: manual_enqueue_def throw_runtime_shutdown_exception_def)

definition k_worker_thread_executor_name :: string where
  "k_worker_thread_executor_name = ''concurrencpp::worker_thread_executor''"

text \<open>\<^verbatim>\<open>worker_thread_executor::enqueue\<close>: \<open>inside\<close> tells that the caller is the executor's own thread.\<close>

definition wt_enqueue :: "bool \<Rightarrow> task_id list \<Rightarrow> wt_sys \<Rightarrow> wt_sys outcome" where
  "wt_enqueue inside ts s =
     (case (if inside then wt_enqueue_local ts s else wt_enqueue_foreign ts s) of
        None \<Rightarrow> throw_runtime_shutdown_exception k_worker_thread_executor_name
      | Some s' \<Rightarrow> Inr s')"

interpretation worker_ex: stoppable_executor "\<lambda>t. wt_enqueue False [t]"
  "\<lambda>s. mset (wt_private s) + mset (wt_public s) + mset (wt_done s)" "\<lambda>s. \<not> wt_abort s"
  wt_abort "\<lambda>s. Runtime_shutdown (k_worker_thread_executor_name @ k_executor_shutdown_err_msg)"
  by unfold_locales
    (simp_all add: wt_enqueue_def wt_enqueue_foreign_def throw_runtime_shutdown_exception_def Let_def)

interpretation thread_ex: stoppable_executor tx_enqueue "\<lambda>s. mset (tx_workers s) + mset (tx_retired s)"
  "\<lambda>s. \<not> tx_abort s" tx_abort
  "\<lambda>s. Runtime_shutdown (''concurrencpp::thread_executor'' @ k_executor_shutdown_err_msg)"
  by unfold_locales
    (simp_all add: tx_enqueue_def tx_enqueue_impl_def throw_runtime_shutdown_exception_def)


subsection \<open>The thread pool\<close>

definition outside_thread :: "nat \<Rightarrow> thread_data" where
  "outside_thread h = \<lparr>this_worker = None, this_thread_index = None, this_thread_hashed_id = h\<rparr>"

definition pool_ready :: "thread_pool \<Rightarrow> bool" where
  "pool_ready p \<longleftrightarrow>
     tp_workers p \<noteq> [] \<and> idle_inv (tp_idle_set p) \<and>
     length (m_idle_flags (tp_idle_set p)) = length (tp_workers p) \<and>
     (\<forall>w \<in> set (tp_workers p). accepting w)"

lemma pool_foreign_ready:
  assumes "pool_ready p" "i < length (tp_workers p)" "idle_inv idle"
    and "length (m_idle_flags idle) = length (tp_workers p)"
  shows "\<exists>q. worker_update (p\<lparr>tp_idle_set := idle, tp_cursor := c\<rparr>) i (enqueue_foreign name [t]) = Inr q \<and>
           pool_tasks q = pool_tasks p + {#t#} \<and> pool_ready q"
proof -
  have acc: "accepting (tp_workers p ! i)" using assms(1,2) by (simp add: pool_ready_def)
  obtain w where w: "enqueue_foreign name [t] (tp_workers p ! i) = Inr w"
    "tw_public w = tw_public (tp_workers p ! i) @ [t]" "tw_abort w = tw_abort (tp_workers p ! i)"
    using enqueue_foreign_accepting [OF acc] by blast
  let ?q = "p\<lparr>tp_idle_set := idle, tp_cursor := c, tp_workers := (tp_workers p)[i := w]\<rparr>"
  have q: "worker_update (p\<lparr>tp_idle_set := idle, tp_cursor := c\<rparr>) i (enqueue_foreign name [t]) = Inr ?q"
    using w(1) by (simp add: worker_update_def)
  then have "pool_tasks ?q = pool_tasks p + {#t#}"
    using pool_foreign_adds [OF assms(2) acc, of c idle name t] by simp
  moreover have "accepting w" using w(2,3) acc by (simp add: accepting_def)
  then have "pool_ready ?q"
    using assms set_update_subset_insert [of "tp_workers p" i w] by (auto simp: pool_ready_def)
  ultimately show ?thesis using q by blast
qed

lemma pool_enqueue_outside:
  assumes "pool_ready (pools a)"
  shows "\<exists>q. pool_enqueue pools a (outside_thread h) t = Inr (pools(a := q)) \<and>
           pool_tasks q = pool_tasks (pools a) + {#t#} \<and> pool_ready q"
proof -
  let ?p = "pools a"
  obtain k idle where f: "find_idle_worker h None (tp_idle_set ?p) = (k, idle)" by fastforce
  have ok: "idle_inv idle" "length (m_idle_flags idle) = length (tp_workers ?p)"
    using find_idle_worker_correct [OF _ f] assms by (auto simp: pool_ready_def split: option.splits)
  note ready = pool_foreign_ready [OF assms _ ok]
  show ?thesis
  proof (cases k)
    case None
    have "tp_cursor ?p mod length (tp_workers ?p) < length (tp_workers ?p)" using assms by (simp add: pool_ready_def)
    from ready [OF this, of "(tp_cursor ?p + 1) mod 2 ^ 64" "tp_name ?p" t] None f show ?thesis
      by (auto simp: pool_enqueue_def outside_thread_def round_robin_def Let_def)
  next
    case (Some i)
    then have "i < length (tp_workers ?p)"
      using find_idle_worker_correct [OF _ f] assms by (auto simp: pool_ready_def)
    from ready [OF this, of "tp_cursor ?p" "tp_name ?p" t]
    have "\<exists>q. worker_update (?p\<lparr>tp_idle_set := idle\<rparr>) i (enqueue_foreign (tp_name ?p) [t]) = Inr q \<and>
        pool_tasks q = pool_tasks ?p + {#t#} \<and> pool_ready q" by simp
    with Some f show ?thesis by (auto simp: pool_enqueue_def outside_thread_def Let_def)
  qed
qed

interpretation pool_ex: accepting_executor "\<lambda>t pools. pool_enqueue pools a (outside_thread h) t"
  "\<lambda>pools. pool_tasks (pools a)" "\<lambda>pools. pool_ready (pools a)" for a h
proof unfold_locales
  fix pools :: "addr \<Rightarrow> thread_pool" and t
  assume "pool_ready (pools a)"
  from pool_enqueue_outside [of pools a, OF this, of h t]
  show "\<exists>pools'. pool_enqueue pools a (outside_thread h) t = Inr pools' \<and> pool_ready (pools' a) \<and>
      pool_tasks (pools' a) = pool_tasks (pools a) + {#t#}" by auto
qed

lemma pool_enqueue_each_eq:
  "pool_enqueue_each pools a td ts = enqueue_each (\<lambda>t pools. pool_enqueue pools a td t) ts pools"
proof (induction ts arbitrary: pools)
  case (Cons t ts)
  then have "(\<lambda>pools'. pool_enqueue_each pools' a td ts) = enqueue_each (\<lambda>t pools. pool_enqueue pools a td t) ts"
    by (intro ext) simp
  then show ?case by simp
qed simp

lemma pool_bulk_accepts:
  assumes "pool_ready p" "length (tp_workers p) \<le> length tasks"
  shows "\<exists>p' parts. pool_enqueue_bulk p tasks = Inr p' \<and> dealt p p' [0..<length (tp_workers p)] parts \<and> concat parts = tasks"
proof -
  let ?n = "length (tp_workers p)"
  let ?d = "length tasks div ?n"
  let ?x = "length tasks - ?d * ?n"
  have n: "0 < ?n" using assms(1) by (simp add: pool_ready_def)
  have x: "?x = length tasks mod ?n" by (rule minus_div_mult_eq_mod)
  have d: "0 < ?d" using n assms(2) by (simp add: div_greater_zero_iff)
  have e: "?d = 0 + ?d" by simp
  have sum: "0 + length [0..<?n] * ?d + ?x = length tasks"
    using div_mult_mod_eq [of "length tasks" ?n] by (simp add: x mult.commute)
  have le: "?x \<le> length [0..<?n]" using n unfolding x by (simp add: less_imp_le)
  have acc: "\<forall>i \<in> set [0..<?n]. i < ?n \<and> accepting (tp_workers p ! i)" using assms(1) by (simp add: pool_ready_def)
  obtain p' parts where
    "bulk_loop ?d tasks [0..<?n] (0, ?d, ?x) p = Inr p'" "dealt p p' [0..<?n] parts" "concat parts = drop 0 tasks"
    using bulk_loop_spec [OF distinct_upt acc d e sum le] by blast
  then show ?thesis by (auto simp: pool_enqueue_bulk_def Let_def)
qed

text \<open>Enqueuing a span on the pool enqueues every task of it exactly once.  This holds for both ways
  the pool takes for a thread outside it: one task at a time through the idle workers and the
  round robin cursor when there are fewer tasks than workers, and in consecutive parts otherwise.\<close>

lemma pool_span_accepts_all:
  assumes "pool_ready (pools a)"
  shows "\<exists>pools'. pool_enqueue_span pools a (outside_thread h) tasks = Inr pools' \<and>
           pool_tasks (pools' a) = pool_tasks (pools a) + mset tasks \<and> (\<forall>b. b \<noteq> a \<longrightarrow> pools' b = pools b)"
proof (cases "length tasks < length (tp_workers (pools a))")
  case True
  let ?enq = "\<lambda>t pools. pool_enqueue pools a (outside_thread h) t"
  have others: "\<exists>q. enqueue_each ?enq ts ps = Inr (ps(a := q))" if "pool_ready (ps a)" for ts ps
    using that
  proof (induction ts arbitrary: ps)
    case Nil
    have "enqueue_each ?enq [] ps = Inr (ps(a := ps a))" by simp
    then show ?case by blast
  next
    case (Cons t ts)
    obtain q where q: "?enq t ps = Inr (ps(a := q))" "pool_ready q"
      using pool_enqueue_outside [of ps a h t] Cons.prems by blast
    obtain q' where "enqueue_each ?enq ts (ps(a := q)) = Inr (ps(a := q, a := q'))"
      using Cons.IH [of "ps(a := q)"] q(2) by (auto simp: fun_upd_same simp del: fun_upd_apply fun_upd_upd)
    then have "enqueue_each ?enq (t # ts) ps = Inr (ps(a := q'))"
      by (simp only: enqueue_each.simps q(1) bind_outcome_simps fun_upd_upd)
    then show ?case by blast
  qed
  obtain q where q: "enqueue_each (\<lambda>t pools. pool_enqueue pools a (outside_thread h) t) tasks pools =
      Inr (pools(a := q))" using others [of pools tasks] assms by blast
  with pool_ex.each_accepts [of pools a h tasks] assms
  have "pool_tasks q = pool_tasks (pools a) + mset tasks" by auto
  with True q show ?thesis by (auto simp: pool_enqueue_span_def pool_enqueue_each_eq outside_thread_def)
next
  case False
  then obtain p' parts where b: "pool_enqueue_bulk (pools a) tasks = Inr p'"
      "dealt (pools a) p' [0..<length (tp_workers (pools a))] parts" "concat parts = tasks"
    using pool_bulk_accepts [OF assms, of tasks] by auto
  have "pool_tasks p' = pool_tasks (pools a) + mset tasks"
    using dealt_tasks [OF b(2)] b(3) by simp
  with False b(1) show ?thesis by (auto simp: pool_enqueue_span_def outside_thread_def)
qed


lemma new_pool_ready: "pool_ready (thread_pool_new ''pool'' 2)"
  using new_pool_idle [of "''pool''"]
  by (auto simp: pool_ready_def thread_pool_new_def accepting_def pool_worker_init_def)

lemma pool_span_accepts_all_witness:
  "\<exists>pools'. pool_enqueue_span (\<lambda>_. thread_pool_new ''pool'' 2) 0 (outside_thread 5) [7, 8, 9] = Inr pools' \<and>
     pool_tasks (pools' 0) = pool_tasks (thread_pool_new ''pool'' 2) + mset [7, 8, 9] \<and>
     (\<forall>b. b \<noteq> 0 \<longrightarrow> pools' b = thread_pool_new ''pool'' 2)"
  using pool_span_accepts_all [of "\<lambda>_. thread_pool_new ''pool'' 2" 0 5 "[7, 8, 9]"] new_pool_ready by blast

section \<open>A bulk is the same as its parts\<close>

text \<open>C23: enqueuing a span and enqueuing its tasks one after the other leave the executor in the same
  state.  This holds for the manual executor, the worker thread executor and the thread executor,
  running or stopped, for spans that are not empty.\<close>

theorem bulk_equals_singles:
  assumes "ts \<noteq> []"
  shows "manual_enqueue_span ts m = enqueue_each manual_enqueue ts m \<and>
         wt_enqueue False ts w = enqueue_each (\<lambda>t. wt_enqueue False [t]) ts w \<and>
         tx_enqueue_span ts x = enqueue_each tx_enqueue ts x"
proof (intro conjI)
  have "enqueue_each manual_enqueue ts v = Inr (v\<lparr>me_tasks := me_tasks v @ ts\<rparr>)" if "\<not> me_abort v" for v ts
    using that by (induction ts arbitrary: v) (auto simp: manual_enqueue_def)
  then show "manual_enqueue_span ts m = enqueue_each manual_enqueue ts m"
    using manual_ex.each_refuses [of m ts] assms
    by (auto simp: manual_enqueue_span_def throw_runtime_shutdown_exception_def)
next
  have more: "enqueue_each (\<lambda>t. wt_enqueue False [t]) ts v = Inr (v\<lparr>wt_public := wt_public v @ ts\<rparr>)"
    if "wt_public v \<noteq> []" "wt_pc v \<noteq> T_none" "\<not> wt_abort v" for v ts
    using that by (induction ts arbitrary: v) (auto simp: wt_enqueue_def wt_enqueue_foreign_def Let_def)
  show "wt_enqueue False ts w = enqueue_each (\<lambda>t. wt_enqueue False [t]) ts w"
  proof (cases "wt_abort w")
    case True
    with worker_ex.each_refuses [of w ts] assms show ?thesis
      by (simp add: wt_enqueue_def wt_enqueue_foreign_def throw_runtime_shutdown_exception_def)
  next
    case False
    obtain t us where ts: "ts = t # us" using assms by (cases ts) auto
    let ?v = "(if wt_pc w = T_none then w\<lparr>wt_public := wt_public w @ [t], wt_pc := T_lock\<rparr>
      else w\<lparr>wt_public := wt_public w @ [t], wt_pending := wt_pending w + (if wt_public w = [] then 1 else 0)\<rparr>)"
    have v: "wt_enqueue False [t] w = Inr ?v" using False by (simp add: wt_enqueue_def wt_enqueue_foreign_def Let_def)
    have "enqueue_each (\<lambda>t. wt_enqueue False [t]) us ?v = Inr (?v\<lparr>wt_public := wt_public ?v @ us\<rparr>)"
      using False by (intro more) auto
    with v ts False show ?thesis by (simp add: wt_enqueue_def wt_enqueue_foreign_def Let_def)
  qed
next
  have "enqueue_each tx_enqueue ts v = Inr (fold tx_enqueue_impl ts v)" if "\<not> tx_abort v" for v ts
    using that by (induction ts arbitrary: v) (auto simp: tx_enqueue_def tx_enqueue_impl_def)
  then show "tx_enqueue_span ts x = enqueue_each tx_enqueue ts x"
    using thread_ex.each_refuses [of x ts] assms
    by (auto simp: tx_enqueue_span_def throw_runtime_shutdown_exception_def)
qed

theorem bulk_equals_singles_witness:
  "wt_enqueue False [1, 2, 3] wt_init = enqueue_each (\<lambda>t. wt_enqueue False [t]) [1, 2, 3] wt_init"
  using bulk_equals_singles [of "[1, 2, 3]" manual_executor_new wt_init tx_init] by simp

end
