(* ===== verification/Task.thy ===== *)
theory Task
  imports Slist "HOL-Library.Multiset"
begin

text \<open>
  \<^verbatim>\<open>concurrencpp::task\<close> (\<^verbatim>\<open>include/concurrencpp/task.h\<close>, \<^verbatim>\<open>source/task.cpp\<close>): a move-only, type-erased
  callable with a buffer for small objects and a table of functions chosen by the type's traits.
  Callables live in the buffer or on the heap; moving, calling and clearing go through the
  table.  A store of tasks is shown to implement slots that hold at most one callable each, and
  no callable is run or ended twice or forgotten.
\<close>

section \<open>Callables and their types\<close>

text \<open>The two special functors of the library are told apart from other callables by their type.\<close>

datatype callable_kind =
    K_coroutine addr   \<comment> \<open>\<^verbatim>\<open>coroutine_handle_functor\<close>\<close>
  | K_await addr       \<comment> \<open>\<^verbatim>\<open>await_via_functor\<close>\<close>
  | K_plain nat

record tcallable =
  tc_kind :: callable_kind
  tc_nothrow_move :: bool
  tc_size :: nat
  tc_trivial_copy :: bool
  tc_trivial_destroy :: bool

definition task_buffer_size :: nat where
  "task_buffer_size = 64 - 8"

definition coroutine_handle_functor :: "addr \<Rightarrow> tcallable" where
  "coroutine_handle_functor h = \<lparr>tc_kind = K_coroutine h, tc_nothrow_move = True, tc_size = 8,
     tc_trivial_copy = False, tc_trivial_destroy = False\<rparr>"

definition await_via_functor :: "addr \<Rightarrow> tcallable" where
  "await_via_functor h = \<lparr>tc_kind = K_await h, tc_nothrow_move = True, tc_size = 16,
     tc_trivial_copy = False, tc_trivial_destroy = False\<rparr>"

definition is_inlinable :: "tcallable \<Rightarrow> bool" where
  "is_inlinable c \<longleftrightarrow> tc_nothrow_move c \<and> tc_size c \<le> task_buffer_size"

datatype vtable_tag = V_coroutine | V_await | V_other

record vtable =
  vt_tag :: vtable_tag
  vt_inlinable :: bool
  vt_move_destroy_fn :: bool   \<comment> \<open>whether the entry is not null\<close>
  vt_destroy_fn :: bool

definition tag_of :: "callable_kind \<Rightarrow> vtable_tag" where
  "tag_of k = (case k of K_coroutine h \<Rightarrow> V_coroutine | K_await h \<Rightarrow> V_await | K_plain n \<Rightarrow> V_other)"

definition make_vtable :: "tcallable \<Rightarrow> vtable" where
  "make_vtable c =
     \<lparr>vt_tag = tag_of (tc_kind c), vt_inlinable = is_inlinable c,
      vt_move_destroy_fn = (\<not> (tc_trivial_copy c \<and> tc_trivial_destroy c \<and> is_inlinable c)),
      vt_destroy_fn = (\<not> (tc_trivial_destroy c \<and> is_inlinable c))\<rparr>"

section \<open>Objects, memory and what happens to a callable\<close>

text \<open>An object is alive, has been called, or has been moved from.\<close>

datatype tobject = Live tcallable | Called tcallable | Moved_from

datatype tevent =
    Ev_run tcallable      \<comment> \<open>called\<close>
  | Ev_end tcallable      \<comment> \<open>destroyed after the call\<close>
  | Ev_drop tcallable     \<comment> \<open>destroyed without a call\<close>
  | Ev_forget tcallable   \<comment> \<open>abandoned without a call; the type needs no destructor\<close>

datatype task_buffer = B_none | B_inline tobject | B_pointer "addr option"

record ttask =
  t_buffer :: task_buffer
  t_vtable :: "vtable option"

record tmemory =
  tm_heap :: "addr \<Rightarrow> tobject option"
  tm_log :: "tevent list"

definition log_event :: "tevent list \<Rightarrow> tmemory \<Rightarrow> tmemory" where
  "log_event es m = m\<lparr>tm_log := tm_log m @ es\<rparr>"

text \<open>What calling and dropping a callable means for the program, by kind: a coroutine handle is resumed
  or its frame destroyed; the awaiting functor always resumes the coroutine, with the interrupt
  flag set when it is dropped; a plain callable is invoked or just destroyed.\<close>

datatype teffect = Invoke nat | Destruct nat | Resume addr | Resume_interrupted addr | Destroy_frame addr

fun effects_of :: "tevent \<Rightarrow> teffect list" where
  "effects_of (Ev_run c) = (case tc_kind c of K_coroutine h \<Rightarrow> [Resume h] | K_await h \<Rightarrow> [Resume h] | K_plain n \<Rightarrow> [Invoke n])"
| "effects_of (Ev_end c) = (case tc_kind c of K_plain n \<Rightarrow> [Destruct n] | _ \<Rightarrow> [])"
| "effects_of (Ev_drop c) =
     (case tc_kind c of K_coroutine h \<Rightarrow> [Destroy_frame h] | K_await h \<Rightarrow> [Resume_interrupted h] | K_plain n \<Rightarrow> [Destruct n])"
| "effects_of (Ev_forget c) = []"

definition object_destroy :: "tobject \<Rightarrow> tmemory \<Rightarrow> tmemory" where
  "object_destroy ob m = log_event (case ob of Live c \<Rightarrow> [Ev_drop c] | Called c \<Rightarrow> [Ev_end c] | Moved_from \<Rightarrow> []) m"

definition null_access :: "'a outcome" where
  "null_access = Inl (Undefined_behaviour ''access through an invalid callable pointer'')"

section \<open>The table functions\<close>

text \<open>The functions for objects in the buffer and on the heap; source and target are buffers.\<close>

definition move_destroy_inline :: "task_buffer \<Rightarrow> tmemory \<Rightarrow> (task_buffer \<times> tmemory) outcome" where
  "move_destroy_inline src m =
     (case src of B_inline ob \<Rightarrow> Inr (B_inline ob, object_destroy Moved_from m) | _ \<Rightarrow> null_access)"

definition move_destroy_allocated :: "task_buffer \<Rightarrow> tmemory \<Rightarrow> (task_buffer \<times> tmemory) outcome" where
  "move_destroy_allocated src m = (case src of B_pointer p \<Rightarrow> Inr (B_pointer p, m) | _ \<Rightarrow> null_access)"

definition vt_move_destroy :: "bool \<Rightarrow> task_buffer \<Rightarrow> tmemory \<Rightarrow> (task_buffer \<times> tmemory) outcome" where
  "vt_move_destroy inl src m = (if inl then move_destroy_inline src m else move_destroy_allocated src m)"

text \<open>\<open>throws\<close> tells which plain callables throw.  The exception leaves the table function at once, so the
  destruction after the call is skipped; the result carries it beside the memory.\<close>

definition object_call :: "(nat \<Rightarrow> bool) \<Rightarrow> tobject \<Rightarrow> tmemory \<Rightarrow> (exn option \<times> tobject \<times> tmemory) outcome" where
  "object_call throws ob m =
     (case ob of
        Live c \<Rightarrow>
          (case tc_kind c of
             K_plain n \<Rightarrow> Inr (if throws n then Some (User_exception n) else None, Called c, log_event [Ev_run c] m)
           | _ \<Rightarrow> Inr (None, Called c, log_event [Ev_run c] m))
      | _ \<Rightarrow> null_access)"

definition execute_destroy_inline ::
  "(nat \<Rightarrow> bool) \<Rightarrow> task_buffer \<Rightarrow> tmemory \<Rightarrow> (exn option \<times> tmemory) outcome" where
  "execute_destroy_inline throws b m =
     (case b of
        B_inline ob \<Rightarrow> bind_outcome (object_call throws ob m) (\<lambda>(x, ob', m').
          Inr (x, if x = None then object_destroy ob' m' else m'))
      | _ \<Rightarrow> null_access)"

definition heap_object :: "task_buffer \<Rightarrow> tmemory \<Rightarrow> (addr \<times> tobject) outcome" where
  "heap_object b m =
     (case b of
        B_pointer (Some a) \<Rightarrow> (case tm_heap m a of Some ob \<Rightarrow> Inr (a, ob) | None \<Rightarrow> null_access)
      | _ \<Rightarrow> null_access)"

definition delete_object :: "addr \<Rightarrow> tobject \<Rightarrow> tmemory \<Rightarrow> tmemory" where
  "delete_object a ob m = (object_destroy ob m)\<lparr>tm_heap := (tm_heap m)(a := None)\<rparr>"

definition execute_destroy_allocated ::
  "(nat \<Rightarrow> bool) \<Rightarrow> task_buffer \<Rightarrow> tmemory \<Rightarrow> (exn option \<times> tmemory) outcome" where
  "execute_destroy_allocated throws b m =
     bind_outcome (heap_object b m) (\<lambda>(a, ob).
       bind_outcome (object_call throws ob m) (\<lambda>(x, ob', m').
         Inr (x, if x = None then delete_object a ob' m' else m'\<lparr>tm_heap := (tm_heap m')(a \<mapsto> ob')\<rparr>)))"

definition vt_execute_destroy ::
  "(nat \<Rightarrow> bool) \<Rightarrow> bool \<Rightarrow> task_buffer \<Rightarrow> tmemory \<Rightarrow> (exn option \<times> tmemory) outcome" where
  "vt_execute_destroy throws inl b m =
     (if inl then execute_destroy_inline throws b m else execute_destroy_allocated throws b m)"

definition destroy_inline :: "task_buffer \<Rightarrow> tmemory \<Rightarrow> tmemory outcome" where
  "destroy_inline b m = (case b of B_inline ob \<Rightarrow> Inr (object_destroy ob m) | _ \<Rightarrow> null_access)"

definition destroy_allocated :: "task_buffer \<Rightarrow> tmemory \<Rightarrow> tmemory outcome" where
  "destroy_allocated b m = bind_outcome (heap_object b m) (\<lambda>(a, ob). Inr (delete_object a ob m))"

definition vt_destroy :: "bool \<Rightarrow> task_buffer \<Rightarrow> tmemory \<Rightarrow> tmemory outcome" where
  "vt_destroy inl b m = (if inl then destroy_inline b m else destroy_allocated b m)"

section \<open>The operations of a task\<close>

definition task_empty :: ttask where
  "task_empty = \<lparr>t_buffer = B_none, t_vtable = None\<rparr>"

text \<open>Construction from a callable; \<open>a\<close> is the address that an allocation would return.\<close>

definition task_build :: "tcallable \<Rightarrow> addr \<Rightarrow> tmemory \<Rightarrow> ttask \<times> tmemory" where
  "task_build c a m =
     (if is_inlinable c then (\<lparr>t_buffer = B_inline (Live c), t_vtable = Some (make_vtable c)\<rparr>, m)
      else (\<lparr>t_buffer = B_pointer (Some a), t_vtable = Some (make_vtable c)\<rparr>,
            m\<lparr>tm_heap := (tm_heap m)(a \<mapsto> Live c)\<rparr>))"

text \<open>\<^verbatim>\<open>build(task&& rhs)\<close>: the result is the new task and what is left of \<open>rhs\<close>.\<close>

definition task_build_move :: "ttask \<Rightarrow> tmemory \<Rightarrow> (ttask \<times> ttask \<times> tmemory) outcome" where
  "task_build_move rhs m =
     (case t_vtable rhs of
        None \<Rightarrow> Inr (\<lparr>t_buffer = B_none, t_vtable = None\<rparr>, rhs, m)
      | Some vt \<Rightarrow>
          let rhs' = rhs\<lparr>t_vtable := None\<rparr>;
              finish = (\<lambda>(b, m'). Inr (\<lparr>t_buffer = b, t_vtable = Some vt\<rparr>, rhs', m')) in
          if vt_tag vt = V_coroutine then bind_outcome (vt_move_destroy True (t_buffer rhs) m) finish
          else if vt_tag vt = V_await then bind_outcome (vt_move_destroy True (t_buffer rhs) m) finish
          else if \<not> vt_move_destroy_fn vt then finish (t_buffer rhs, m)
          else bind_outcome (vt_move_destroy (vt_inlinable vt) (t_buffer rhs) m) finish)"

definition task_call :: "(nat \<Rightarrow> bool) \<Rightarrow> ttask \<Rightarrow> tmemory \<Rightarrow> (exn option \<times> ttask \<times> tmemory) outcome" where
  "task_call throws t m =
     (case t_vtable t of
        None \<Rightarrow> Inr (None, t, m)
      | Some vt \<Rightarrow>
          let t' = t\<lparr>t_vtable := None\<rparr>; inl = (vt_tag vt = V_coroutine \<or> vt_tag vt = V_await \<or> vt_inlinable vt) in
          bind_outcome (vt_execute_destroy throws inl (t_buffer t) m) (\<lambda>(x, m'). Inr (x, t', m')))"

definition task_clear :: "ttask \<Rightarrow> tmemory \<Rightarrow> (ttask \<times> tmemory) outcome" where
  "task_clear t m =
     (case t_vtable t of
        None \<Rightarrow> Inr (t, m)
      | Some vt \<Rightarrow>
          let t' = t\<lparr>t_vtable := None\<rparr> in
          if vt_tag vt = V_coroutine \<or> vt_tag vt = V_await
          then bind_outcome (vt_destroy True (t_buffer t) m) (\<lambda>m'. Inr (t', m'))
          else if \<not> vt_destroy_fn vt
               then Inr (t', log_event (case t_buffer t of B_inline (Live c) \<Rightarrow> [Ev_forget c] | _ \<Rightarrow> []) m)
               else bind_outcome (vt_destroy (vt_inlinable vt) (t_buffer t) m) (\<lambda>m'. Inr (t', m')))"

definition task_bool :: "ttask \<Rightarrow> bool" where
  "task_bool t \<longleftrightarrow> t_vtable t \<noteq> None"

definition contains_coroutine_handle :: "ttask \<Rightarrow> bool" where
  "contains_coroutine_handle t \<longleftrightarrow> map_option vt_tag (t_vtable t) = Some V_coroutine"


section \<open>A store of tasks\<close>

record tstore =
  ts_tasks :: "ttask list"
  ts_mem :: tmemory

datatype task_op =
    Op_build nat tcallable addr   \<comment> \<open>construct from a callable, into an empty task\<close>
  | Op_move nat nat               \<comment> \<open>construct the first, an empty task, from the second\<close>
  | Op_assign nat nat             \<comment> \<open>\<^verbatim>\<open>operator=(task&&)\<close>\<close>
  | Op_call nat
  | Op_clear nat                  \<comment> \<open>\<^verbatim>\<open>clear\<close> and the destructor\<close>

definition task_construct :: "nat \<Rightarrow> nat \<Rightarrow> tstore \<Rightarrow> tstore outcome" where
  "task_construct i j s =
     bind_outcome (task_build_move (ts_tasks s ! j) (ts_mem s)) (\<lambda>(t, rhs, m).
       Inr \<lparr>ts_tasks = (ts_tasks s)[j := rhs, i := t], ts_mem = m\<rparr>)"

definition task_clear_at :: "nat \<Rightarrow> tstore \<Rightarrow> tstore outcome" where
  "task_clear_at i s =
     bind_outcome (task_clear (ts_tasks s ! i) (ts_mem s)) (\<lambda>(t, m).
       Inr \<lparr>ts_tasks = (ts_tasks s)[i := t], ts_mem = m\<rparr>)"

definition task_assign :: "nat \<Rightarrow> nat \<Rightarrow> tstore \<Rightarrow> tstore outcome" where
  "task_assign i j s = (if i = j then Inr s else bind_outcome (task_clear_at i s) (task_construct i j))"

fun task_exec :: "task_op \<Rightarrow> tstore \<Rightarrow> tstore outcome" where
  "task_exec (Op_build i c a) s =
     (let (t, m) = task_build c a (ts_mem s) in Inr \<lparr>ts_tasks = (ts_tasks s)[i := t], ts_mem = m\<rparr>)"
| "task_exec (Op_move i j) s = task_construct i j s"
| "task_exec (Op_assign i j) s = task_assign i j s"
| "task_exec (Op_call i) s =
     bind_outcome (task_call (\<lambda>_. False) (ts_tasks s ! i) (ts_mem s)) (\<lambda>(x, t, m).
       Inr \<lparr>ts_tasks = (ts_tasks s)[i := t], ts_mem = m\<rparr>)"
| "task_exec (Op_clear i) s = task_clear_at i s"

section \<open>Slots that hold at most one callable\<close>

record slots =
  sl_slots :: "tcallable option list"
  sl_log :: "tevent list"

definition discard_event :: "tcallable \<Rightarrow> tevent" where
  "discard_event c = (if tc_trivial_destroy c \<and> is_inlinable c then Ev_forget c else Ev_drop c)"

definition slot_clear :: "nat \<Rightarrow> slots \<Rightarrow> slots" where
  "slot_clear i q =
     (case sl_slots q ! i of None \<Rightarrow> q
      | Some c \<Rightarrow> \<lparr>sl_slots = (sl_slots q)[i := None], sl_log = sl_log q @ [discard_event c]\<rparr>)"

definition slot_move :: "nat \<Rightarrow> nat \<Rightarrow> slots \<Rightarrow> slots" where
  "slot_move i j q = q\<lparr>sl_slots := (sl_slots q)[j := None, i := sl_slots q ! j]\<rparr>"

fun slot_exec :: "task_op \<Rightarrow> slots \<Rightarrow> slots" where
  "slot_exec (Op_build i c a) q = q\<lparr>sl_slots := (sl_slots q)[i := Some c]\<rparr>"
| "slot_exec (Op_move i j) q = slot_move i j q"
| "slot_exec (Op_assign i j) q = (if i = j then q else slot_move i j (slot_clear i q))"
| "slot_exec (Op_call i) q =
     (case sl_slots q ! i of None \<Rightarrow> q
      | Some c \<Rightarrow> \<lparr>sl_slots = (sl_slots q)[i := None], sl_log = sl_log q @ [Ev_run c, Ev_end c]\<rparr>)"
| "slot_exec (Op_clear i) q = slot_clear i q"

text \<open>The library's functors are small, not copyable and have destructors.\<close>

definition tc_wf :: "tcallable \<Rightarrow> bool" where
  "tc_wf c \<longleftrightarrow> (tag_of (tc_kind c) = V_other \<or> is_inlinable c \<and> \<not> tc_trivial_destroy c)"

text \<open>How a task represents a callable in the buffer, or on the heap at \<open>a\<close>.\<close>

fun represents :: "(addr \<Rightarrow> tobject option) \<Rightarrow> ttask \<Rightarrow> (tcallable \<times> addr option) option \<Rightarrow> bool" where
  "represents h t None \<longleftrightarrow> t_vtable t = None"
| "represents h t (Some (c, None)) \<longleftrightarrow>
     t_vtable t = Some (make_vtable c) \<and> is_inlinable c \<and> t_buffer t = B_inline (Live c) \<and> tc_wf c"
| "represents h t (Some (c, Some a)) \<longleftrightarrow>
     t_vtable t = Some (make_vtable c) \<and> \<not> is_inlinable c \<and> t_buffer t = B_pointer (Some a) \<and>
     h a = Some (Live c) \<and> tc_wf c"

text \<open>\<open>rs\<close> says what each task of the store represents: every heap object has exactly one owner.\<close>

definition store_rep :: "tstore \<Rightarrow> (tcallable \<times> addr option) option list \<Rightarrow> bool" where
  "store_rep s rs \<longleftrightarrow>
     length rs = length (ts_tasks s) \<and>
     (\<forall>i < length rs. represents (tm_heap (ts_mem s)) (ts_tasks s ! i) (rs ! i)) \<and>
     (\<forall>i < length rs. \<forall>j < length rs. \<forall>c d a. rs ! i = Some (c, Some a) \<longrightarrow> rs ! j = Some (d, Some a) \<longrightarrow> i = j) \<and>
     (\<forall>a. tm_heap (ts_mem s) a \<noteq> None \<longrightarrow> (\<exists>i < length rs. \<exists>c. rs ! i = Some (c, Some a)))"

definition store_abs :: "tstore \<Rightarrow> (tcallable \<times> addr option) option list \<Rightarrow> slots" where
  "store_abs s rs = \<lparr>sl_slots = map (map_option fst) rs, sl_log = tm_log (ts_mem s)\<rparr>"

text \<open>When an operation may be used: constructors build into empty tasks, and an allocation returns a
  free address.\<close>

fun op_enabled :: "task_op \<Rightarrow> tstore \<Rightarrow> bool" where
  "op_enabled (Op_build i c a) s \<longleftrightarrow>
     i < length (ts_tasks s) \<and> \<not> task_bool (ts_tasks s ! i) \<and> tm_heap (ts_mem s) a = None \<and> tc_wf c"
| "op_enabled (Op_move i j) s \<longleftrightarrow>
     i < length (ts_tasks s) \<and> j < length (ts_tasks s) \<and> i \<noteq> j \<and> \<not> task_bool (ts_tasks s ! i)"
| "op_enabled (Op_assign i j) s \<longleftrightarrow> i < length (ts_tasks s) \<and> j < length (ts_tasks s)"
| "op_enabled (Op_call i) s \<longleftrightarrow> i < length (ts_tasks s)"
| "op_enabled (Op_clear i) s \<longleftrightarrow> i < length (ts_tasks s)"

section \<open>The store implements the slots\<close>

lemma represents_other_heap:
  assumes "represents h t r" "\<forall>c a. r = Some (c, Some a) \<longrightarrow> h' a = h a"
  shows "represents h' t r"
  using assms by (cases "(h, t, r)" rule: represents.cases) auto

lemma represents_None: "represents h t r \<Longrightarrow> t_vtable t = None \<longleftrightarrow> r = None"
  by (cases "(h, t, r)" rule: represents.cases) auto

definition owns :: "(tcallable \<times> addr option) option \<Rightarrow> addr \<Rightarrow> bool" where
  "owns r a \<longleftrightarrow> (\<exists>c. r = Some (c, Some a))"

lemma owns_simps [simp]: "\<not> owns None a" "owns (Some (c, p)) a \<longleftrightarrow> p = Some a"
  by (auto simp: owns_def)

lemma store_rep_iff:
  "store_rep s rs \<longleftrightarrow>
     length rs = length (ts_tasks s) \<and>
     (\<forall>i < length rs. represents (tm_heap (ts_mem s)) (ts_tasks s ! i) (rs ! i)) \<and>
     (\<forall>i < length rs. \<forall>j < length rs. \<forall>a. owns (rs ! i) a \<longrightarrow> owns (rs ! j) a \<longrightarrow> i = j) \<and>
     (\<forall>a. tm_heap (ts_mem s) a \<noteq> None \<longrightarrow> (\<exists>i < length rs. owns (rs ! i) a))"
  unfolding store_rep_def owns_def by blast

lemma store_repD:
  assumes "store_rep s rs"
  shows "length rs = length (ts_tasks s)"
    and "k < length rs \<Longrightarrow> represents (tm_heap (ts_mem s)) (ts_tasks s ! k) (rs ! k)"
    and "owns (rs ! k) a \<Longrightarrow> owns (rs ! l) a \<Longrightarrow> k < length rs \<Longrightarrow> l < length rs \<Longrightarrow> k = l"
    and "tm_heap (ts_mem s) a \<noteq> None \<Longrightarrow> \<exists>k < length rs. owns (rs ! k) a"
  using assms unfolding store_rep_iff by blast+

lemma store_repI:
  assumes "length rs = length (ts_tasks s)"
    and "\<And>k. k < length rs \<Longrightarrow> represents (tm_heap (ts_mem s)) (ts_tasks s ! k) (rs ! k)"
    and "\<And>k l a. owns (rs ! k) a \<Longrightarrow> owns (rs ! l) a \<Longrightarrow> k < length rs \<Longrightarrow> l < length rs \<Longrightarrow> k = l"
    and "\<And>a. tm_heap (ts_mem s) a \<noteq> None \<Longrightarrow> \<exists>k < length rs. owns (rs ! k) a"
  shows "store_rep s rs"
  using assms unfolding store_rep_iff by blast

lemma represents_owns: "represents h t r \<Longrightarrow> owns r a \<Longrightarrow> h a \<noteq> None"
  by (cases "(h, t, r)" rule: represents.cases) auto

lemma represents_agree:
  assumes "represents h t r" "\<And>a. owns r a \<Longrightarrow> h' a = h a"
  shows "represents h' t r"
  using assms by (intro represents_other_heap [OF assms(1)]) (auto simp: owns_def)

definition freed :: "(addr \<Rightarrow> tobject option) \<Rightarrow> (tcallable \<times> addr option) option \<Rightarrow> addr \<Rightarrow> tobject option" where
  "freed h r a = (if owns r a then None else h a)"

lemma store_rep_drop:
  assumes rep: "store_rep s rs" and i: "i < length rs" and t: "t_vtable t = None"
    and m: "tm_heap m = freed (tm_heap (ts_mem s)) (rs ! i)"
  shows "store_rep \<lparr>ts_tasks = (ts_tasks s)[i := t], ts_mem = m\<rparr> (rs[i := None])"
proof (rule store_repI, simp_all only: tstore.simps length_list_update)
  show "length rs = length (ts_tasks s)" by (rule store_repD(1) [OF rep])
next
  fix k assume k: "k < length rs"
  show "represents (tm_heap m) ((ts_tasks s)[i := t] ! k) (rs[i := None] ! k)"
  proof (cases "k = i")
    case True
    then show ?thesis using i t store_repD(1) [OF rep] by simp
  next
    case False
    have "represents (tm_heap m) (ts_tasks s ! k) (rs ! k)"
    proof (rule represents_agree [OF store_repD(2) [OF rep k]])
      fix a assume "owns (rs ! k) a"
      then have "\<not> owns (rs ! i) a" using store_repD(3) [OF rep _ _ i k] False by blast
      then show "tm_heap m a = tm_heap (ts_mem s) a" by (simp add: m freed_def)
    qed
    then show ?thesis using False by simp
  qed
next
  fix k l a assume "owns (rs[i := None] ! k) a" "owns (rs[i := None] ! l) a" "k < length rs" "l < length rs"
  then show "k = l" using store_repD(3) [OF rep, of k a l] i by (cases "k = i"; cases "l = i") simp_all
next
  fix a assume "tm_heap m a \<noteq> None"
  then have "tm_heap (ts_mem s) a \<noteq> None" "\<not> owns (rs ! i) a" by (simp_all add: m freed_def split: if_splits)
  then obtain k where "k < length rs" "owns (rs ! k) a" "k \<noteq> i" using store_repD(4) [OF rep, of a] by blast
  then show "\<exists>k < length rs. owns (rs[i := None] ! k) a" by (intro exI [of _ k]) simp
qed

lemma store_rep_move:
  assumes rep: "store_rep s rs" and ij: "i < length rs" "j < length rs" "i \<noteq> j" "rs ! i = None"
    and t: "represents (tm_heap (ts_mem s)) t (rs ! j)" "t_vtable rhs = None" "tm_heap m = tm_heap (ts_mem s)"
  shows "store_rep \<lparr>ts_tasks = (ts_tasks s)[j := rhs, i := t], ts_mem = m\<rparr> (rs[j := None, i := rs ! j])"
proof -
  let ?rs = "rs[j := None, i := rs ! j]"
  have nth: "?rs ! k = (if k = i then rs ! j else if k = j then None else rs ! k)" if "k < length rs" for k
    using that ij by (simp add: nth_list_update)
  show ?thesis
  proof (rule store_repI, simp_all only: tstore.simps length_list_update t(3))
    show "length rs = length (ts_tasks s)" by (rule store_repD(1) [OF rep])
  next
    fix k assume k: "k < length rs"
    show "represents (tm_heap (ts_mem s)) ((ts_tasks s)[j := rhs, i := t] ! k) (?rs ! k)"
      using store_repD(2) [OF rep k] k ij t(1,2) store_repD(1) [OF rep] unfolding nth [OF k]
      by (cases "k = i"; cases "k = j") simp_all
  next
    fix k l a assume "owns (?rs ! k) a" "owns (?rs ! l) a" "k < length rs" "l < length rs"
    then show "k = l"
      using store_repD(3) [OF rep, of k a l] store_repD(3) [OF rep, of j a l] store_repD(3) [OF rep, of k a j] ij(1-3)
      unfolding nth [OF \<open>k < length rs\<close>] nth [OF \<open>l < length rs\<close>]
      by (cases "k = i"; cases "l = i"; cases "k = j"; cases "l = j") simp_all
  next
    fix a assume "tm_heap (ts_mem s) a \<noteq> None"
    then obtain k where k: "k < length rs" "owns (rs ! k) a" using store_repD(4) [OF rep] by blast
    show "\<exists>k < length rs. owns (?rs ! k) a"
    proof (cases "k = j")
      case True
      then have "owns (?rs ! i) a" using k nth [OF ij(1)] by simp
      then show ?thesis using ij(1) by blast
    next
      case False
      then have "owns (?rs ! k) a" using k nth [OF k(1)] ij(4) by auto
      then show ?thesis using k(1) by blast
    qed
  qed
qed

lemma store_rep_build:
  assumes rep: "store_rep s rs" and i: "i < length rs" "rs ! i = None" and c: "tc_wf c" "tm_heap (ts_mem s) a = None"
    and r: "r = Some (c, if is_inlinable c then None else Some a)" and tm: "task_build c a (ts_mem s) = (t, m)"
  shows "store_rep \<lparr>ts_tasks = (ts_tasks s)[i := t], ts_mem = m\<rparr> (rs[i := r])"
proof -
  have fresh: "\<not> owns (rs ! k) a" if "k < length rs" for k
    using represents_owns [OF store_repD(2) [OF rep that]] c(2) by blast
  have own: "owns r b \<longleftrightarrow> \<not> is_inlinable c \<and> b = a" for b by (auto simp: r)
  have heap: "tm_heap m b = (if owns r b then Some (Live c) else tm_heap (ts_mem s) b)" for b
    using tm by (auto simp: own task_build_def split: if_splits)
  show ?thesis
  proof (rule store_repI, simp_all only: tstore.simps length_list_update)
    show "length rs = length (ts_tasks s)" by (rule store_repD(1) [OF rep])
  next
    fix k assume k: "k < length rs"
    have "represents (tm_heap m) (ts_tasks s ! k) (rs ! k)"
      using fresh [OF k] heap own by (intro represents_agree [OF store_repD(2) [OF rep k]]) auto
    moreover have "represents (tm_heap m) t r" using c(1) tm r by (auto simp: task_build_def split: if_splits)
    ultimately show "represents (tm_heap m) ((ts_tasks s)[i := t] ! k) (rs[i := r] ! k)"
      using k store_repD(1) [OF rep] by (cases "k = i") simp_all
  next
    fix k l b assume "owns (rs[i := r] ! k) b" "owns (rs[i := r] ! l) b" "k < length rs" "l < length rs"
    then show "k = l"
      using store_repD(3) [OF rep, of k b l] i fresh [of k] fresh [of l] own
      by (cases "k = i"; cases "l = i") auto
  next
    fix b assume "tm_heap m b \<noteq> None"
    then consider "owns r b" | "tm_heap (ts_mem s) b \<noteq> None" by (auto simp: heap split: if_splits)
    then show "\<exists>k < length rs. owns (rs[i := r] ! k) b"
    proof cases
      case 1
      then show ?thesis using i by (intro exI [of _ i]) simp
    next
      case 2
      then obtain k where "k < length rs" "owns (rs ! k) b" using store_repD(4) [OF rep] by blast
      then show ?thesis using i(2) by (intro exI [of _ k]) (cases "k = i"; simp)
    qed
  qed
qed

text \<open>One operation of the store: it succeeds, keeps the representation and acts on the slots.\<close>

definition refines_to :: "tstore outcome \<Rightarrow> slots \<Rightarrow> (tcallable \<times> addr option) option list \<Rightarrow> bool" where
  "refines_to r q rs \<longleftrightarrow> (\<exists>s. r = Inr s \<and> store_rep s rs \<and> store_abs s rs = q)"

lemmas table_defs = vt_move_destroy_def move_destroy_inline_def move_destroy_allocated_def
  vt_execute_destroy_def execute_destroy_inline_def execute_destroy_allocated_def
  vt_destroy_def destroy_inline_def destroy_allocated_def heap_object_def delete_object_def
  object_call_def object_destroy_def log_event_def make_vtable_def tag_of_def

lemma task_clear_refines:
  assumes rep: "store_rep s rs" and i: "i < length rs"
  shows "refines_to (task_clear_at i s) (slot_clear i (store_abs s rs)) (rs[i := None])"
proof (cases "rs ! i")
  case None
  then have "t_vtable (ts_tasks s ! i) = None" using store_repD(2) [OF rep i] by simp
  then have "task_clear_at i s = Inr s" by (simp add: task_clear_at_def task_clear_def)
  moreover have "rs[i := None] = rs" using None by (metis list_update_id)
  ultimately show ?thesis using rep i None by (simp add: refines_to_def slot_clear_def store_abs_def)
next
  case (Some cp)
  obtain c p where cp: "cp = (c, p)" by (cases cp)
  let ?t = "(ts_tasks s ! i)\<lparr>t_vtable := None\<rparr>"
  let ?m = "(ts_mem s)\<lparr>tm_heap := freed (tm_heap (ts_mem s)) (rs ! i), tm_log := tm_log (ts_mem s) @ [discard_event c]\<rparr>"
  have fr: "freed (tm_heap (ts_mem s)) (rs ! i) = (case p of None \<Rightarrow> tm_heap (ts_mem s) | Some a \<Rightarrow> (tm_heap (ts_mem s))(a := None))"
    using Some cp by (auto simp: freed_def split: option.splits)
  have "represents (tm_heap (ts_mem s)) (ts_tasks s ! i) (Some (c, p))" using store_repD(2) [OF rep i] Some cp by simp
  then have "task_clear (ts_tasks s ! i) (ts_mem s) = Inr (?t, ?m)"
    unfolding fr by (cases p; cases "tc_kind c")
      (auto simp: task_clear_def table_defs Let_def discard_event_def tc_wf_def)
  then have "task_clear_at i s = Inr \<lparr>ts_tasks = (ts_tasks s)[i := ?t], ts_mem = ?m\<rparr>"
    by (simp add: task_clear_at_def)
  moreover have "store_rep \<lparr>ts_tasks = (ts_tasks s)[i := ?t], ts_mem = ?m\<rparr> (rs[i := None])"
    using rep i by (intro store_rep_drop) simp_all
  ultimately show ?thesis
    using Some cp i by (auto simp: refines_to_def slot_clear_def store_abs_def map_update)
qed

lemma task_construct_refines:
  assumes rep: "store_rep s rs" and ij: "i < length rs" "j < length rs" "i \<noteq> j" "rs ! i = None"
  shows "refines_to (task_construct i j s) (slot_move i j (store_abs s rs)) (rs[j := None, i := rs ! j])"
proof -
  let ?rhs = "(ts_tasks s ! j)\<lparr>t_vtable := None\<rparr>"
  have "\<exists>t m. task_build_move (ts_tasks s ! j) (ts_mem s) = Inr (t, ?rhs, m) \<and>
      represents (tm_heap (ts_mem s)) t (rs ! j) \<and> m = ts_mem s"
  proof (cases "rs ! j")
    case None
    then have "t_vtable (ts_tasks s ! j) = None" using store_repD(2) [OF rep ij(2)] by simp
    then show ?thesis using None by (simp add: task_build_move_def)
  next
    case (Some cp)
    obtain c p where cp: "cp = (c, p)" by (cases cp)
    have "represents (tm_heap (ts_mem s)) (ts_tasks s ! j) (Some (c, p))" using store_repD(2) [OF rep ij(2)] Some cp by simp
    then show ?thesis
      unfolding Some cp by (cases p; cases "tc_kind c")
        (auto simp: task_build_move_def table_defs Let_def tc_wf_def)
  qed
  then obtain t m where t: "task_build_move (ts_tasks s ! j) (ts_mem s) = Inr (t, ?rhs, m)"
      "represents (tm_heap (ts_mem s)) t (rs ! j)" "m = ts_mem s" by blast
  have "store_rep \<lparr>ts_tasks = (ts_tasks s)[j := ?rhs, i := t], ts_mem = m\<rparr> (rs[j := None, i := rs ! j])"
    using t by (intro store_rep_move [OF rep ij]) simp_all
  with t show ?thesis
    using ij by (auto simp: refines_to_def task_construct_def slot_move_def store_abs_def map_update)
qed

lemma task_call_refines:
  assumes rep: "store_rep s rs" and i: "i < length rs"
  shows "refines_to (task_exec (Op_call i) s) (slot_exec (Op_call i) (store_abs s rs)) (rs[i := None])"
proof (cases "rs ! i")
  case None
  then have "t_vtable (ts_tasks s ! i) = None" using store_repD(2) [OF rep i] by simp
  then have "task_exec (Op_call i) s = Inr s" by (simp add: task_call_def)
  moreover have "rs[i := None] = rs" using None by (metis list_update_id)
  ultimately show ?thesis using rep i None by (simp add: refines_to_def store_abs_def)
next
  case (Some cp)
  obtain c p where cp: "cp = (c, p)" by (cases cp)
  let ?t = "(ts_tasks s ! i)\<lparr>t_vtable := None\<rparr>"
  let ?m = "(ts_mem s)\<lparr>tm_heap := freed (tm_heap (ts_mem s)) (rs ! i), tm_log := tm_log (ts_mem s) @ [Ev_run c, Ev_end c]\<rparr>"
  have fr: "freed (tm_heap (ts_mem s)) (rs ! i) = (case p of None \<Rightarrow> tm_heap (ts_mem s) | Some a \<Rightarrow> (tm_heap (ts_mem s))(a := None))"
    using Some cp by (auto simp: freed_def split: option.splits)
  have "represents (tm_heap (ts_mem s)) (ts_tasks s ! i) (Some (c, p))" using store_repD(2) [OF rep i] Some cp by simp
  then have "task_call (\<lambda>_. False) (ts_tasks s ! i) (ts_mem s) = Inr (None, ?t, ?m)"
    unfolding fr by (cases p; cases "tc_kind c")
      (auto simp: task_call_def table_defs Let_def tc_wf_def)
  then have "task_exec (Op_call i) s = Inr \<lparr>ts_tasks = (ts_tasks s)[i := ?t], ts_mem = ?m\<rparr>" by simp
  moreover have "store_rep \<lparr>ts_tasks = (ts_tasks s)[i := ?t], ts_mem = ?m\<rparr> (rs[i := None])"
    using rep i by (intro store_rep_drop) simp_all
  ultimately show ?thesis
    using Some cp i by (auto simp: refines_to_def store_abs_def map_update)
qed

lemma task_exec_refines:
  assumes rep: "store_rep s rs" and en: "op_enabled op s"
  shows "\<exists>s' rs'. task_exec op s = Inr s' \<and> store_rep s' rs' \<and> store_abs s' rs' = slot_exec op (store_abs s rs)"
proof -
  have len: "length (ts_tasks s) = length rs" using store_repD(1) [OF rep] by simp
  have none: "rs ! i = None" if "i < length rs" "\<not> task_bool (ts_tasks s ! i)" for i
    using represents_None [OF store_repD(2) [OF rep that(1)]] that(2) unfolding task_bool_def by blast
  show ?thesis
  proof (cases op)
    case (Op_build i c a)
    obtain t m where tm: "task_build c a (ts_mem s) = (t, m)" by fastforce
    have "store_rep \<lparr>ts_tasks = (ts_tasks s)[i := t], ts_mem = m\<rparr> (rs[i := Some (c, if is_inlinable c then None else Some a)])"
      using en Op_build len none by (intro store_rep_build [OF rep _ _ _ _ refl tm]) auto
    moreover have "tm_log m = tm_log (ts_mem s)" using tm by (auto simp: task_build_def split: if_splits)
    ultimately show ?thesis using Op_build tm en len
      by (auto simp: store_abs_def map_update)
  next
    case (Op_move i j)
    with en len none task_construct_refines [OF rep, of i j] show ?thesis by (auto simp: refines_to_def)
  next
    case (Op_assign i j)
    show ?thesis
    proof (cases "i = j")
      case True
      then show ?thesis using Op_assign rep by (auto simp: task_assign_def)
    next
      case False
      have ij: "i < length rs" "j < length rs" using en Op_assign len by simp_all
      obtain s1 where s1: "task_clear_at i s = Inr s1" "store_rep s1 (rs[i := None])"
          "store_abs s1 (rs[i := None]) = slot_clear i (store_abs s rs)"
        using task_clear_refines [OF rep ij(1)] by (auto simp: refines_to_def)
      from task_construct_refines [OF s1(2), of i j] ij False s1(1,3) Op_assign show ?thesis
        by (auto simp: refines_to_def task_assign_def)
    qed
  next
    case (Op_call i)
    with en len task_call_refines [OF rep, of i] show ?thesis unfolding refines_to_def by auto
  next
    case (Op_clear i)
    with en len task_clear_refines [OF rep, of i] show ?thesis by (auto simp: refines_to_def)
  qed
qed


definition new_tasks :: "nat \<Rightarrow> tstore" where
  "new_tasks n = \<lparr>ts_tasks = replicate n task_empty, ts_mem = \<lparr>tm_heap = (\<lambda>_. None), tm_log = []\<rparr>\<rparr>"

lemma new_tasks_rep: "store_rep (new_tasks n) (replicate n None)"
  by (auto simp: store_rep_def new_tasks_def task_empty_def)

definition big_callable :: "nat \<Rightarrow> tcallable" where
  "big_callable n = \<lparr>tc_kind = K_plain n, tc_nothrow_move = True, tc_size = 200, tc_trivial_copy = False,
     tc_trivial_destroy = False\<rparr>"


section \<open>No callable is lost, run twice or ended twice\<close>

inductive task_reachable :: "tcallable list \<Rightarrow> tstore \<Rightarrow> bool" where
  start: "task_reachable [] (new_tasks n)"
| step: "task_reachable cs s \<Longrightarrow> op_enabled op s \<Longrightarrow> task_exec op s = Inr s' \<Longrightarrow>
         task_reachable (cs @ (case op of Op_build i c a \<Rightarrow> [c] | _ \<Rightarrow> [])) s'"

definition held :: "tcallable option list \<Rightarrow> tcallable multiset" where
  "held xs = mset (List.map_filter id xs)"

lemma held_Cons: "held (x # xs) = (case x of None \<Rightarrow> {#} | Some c \<Rightarrow> {#c#}) + held xs"
  by (simp add: held_def List.map_filter_simps split: option.splits)

lemma held_update:
  "i < length xs \<Longrightarrow>
     held (xs[i := x]) + (case xs ! i of None \<Rightarrow> {#} | Some c \<Rightarrow> {#c#}) = held xs + (case x of None \<Rightarrow> {#} | Some c \<Rightarrow> {#c#})"
proof (induction xs arbitrary: i)
  case (Cons y ys)
  then show ?case by (cases i) (auto simp: held_Cons ac_simps split: option.splits)
qed simp

fun ended :: "tevent \<Rightarrow> tcallable option" where
  "ended (Ev_run c) = None" | "ended (Ev_end c) = Some c" | "ended (Ev_drop c) = Some c" | "ended (Ev_forget c) = Some c"

fun started :: "tevent \<Rightarrow> tcallable option" where
  "started (Ev_run c) = Some c" | "started _ = None"

definition ends :: "tevent list \<Rightarrow> tcallable multiset" where
  "ends es = mset (List.map_filter ended es)"

fun finished :: "tevent \<Rightarrow> tcallable option" where
  "finished (Ev_end c) = Some c" | "finished _ = None"

definition finishes :: "tevent list \<Rightarrow> tcallable multiset" where
  "finishes es = mset (List.map_filter finished es)"

definition runs :: "tevent list \<Rightarrow> tcallable multiset" where
  "runs es = mset (List.map_filter started es)"

lemma ends_runs_append [simp]:
  "ends (xs @ ys) = ends xs + ends ys" "runs (xs @ ys) = runs xs + runs ys"
  "ends [Ev_run c, Ev_end c] = {#c#}" "runs [Ev_run c, Ev_end c] = {#c#}"
  "ends [discard_event c] = {#c#}" "runs [discard_event c] = {#}" "ends [] = {#}" "runs [] = {#}"
  "finishes (xs @ ys) = finishes xs + finishes ys" "finishes [Ev_run c, Ev_end c] = {#c#}"
  "finishes [discard_event c] = {#}" "finishes [] = {#}"
  by (simp_all add: ends_def runs_def finishes_def List.map_filter_def discard_event_def)

lemma discard_event_forget [simp]:
  "Ev_forget d = discard_event c \<longleftrightarrow> d = c \<and> tc_trivial_destroy c \<and> is_inlinable c"
  by (auto simp: discard_event_def)

lemma finishes_subset: "finishes es \<subseteq># ends es"
proof (induction es)
  case (Cons e es)
  then show ?case
    by (cases e) (auto simp: finishes_def ends_def List.map_filter_simps intro: subset_mset.order_trans)
qed simp

definition slots_balance :: "tcallable list \<Rightarrow> slots \<Rightarrow> bool" where
  "slots_balance cs q \<longleftrightarrow>
     mset cs = held (sl_slots q) + ends (sl_log q) \<and> runs (sl_log q) = finishes (sl_log q) \<and>
     (\<forall>c. Ev_forget c \<in> set (sl_log q) \<longrightarrow> tc_trivial_destroy c)"

lemma slot_clear_balance:
  assumes "slots_balance cs q" "i < length (sl_slots q)"
  shows "slots_balance cs (slot_clear i q)"
  using assms held_update [OF assms(2), of None]
  by (cases "sl_slots q ! i") (auto simp: slots_balance_def slot_clear_def)

lemma slot_move_balance:
  assumes "slots_balance cs q" "i < length (sl_slots q)" "j < length (sl_slots q)" "i \<noteq> j" "sl_slots q ! i = None"
  shows "slots_balance cs (slot_move i j q)"
  using assms held_update [OF assms(3), of None]
    held_update [of i "(sl_slots q)[j := None]" "sl_slots q ! j"]
  by (auto simp: slots_balance_def slot_move_def)


lemma slot_exec_balance:
  assumes bal: "slots_balance cs (store_abs s rs)" and rep: "store_rep s rs" and en: "op_enabled op s"
  shows "slots_balance (cs @ (case op of Op_build i c a \<Rightarrow> [c] | _ \<Rightarrow> [])) (slot_exec op (store_abs s rs))"
proof -
  let ?q = "store_abs s rs"
  have len: "length (sl_slots ?q) = length rs" "length (ts_tasks s) = length rs"
    using store_repD(1) [OF rep] by (simp_all add: store_abs_def)
  have none: "sl_slots ?q ! i = None" if "i < length rs" "\<not> task_bool (ts_tasks s ! i)" for i
  proof -
    have "rs ! i = None" using represents_None [OF store_repD(2) [OF rep that(1)]] that(2) unfolding task_bool_def by blast
    then show ?thesis using that(1) by (simp add: store_abs_def)
  qed
  show ?thesis
  proof (cases op)
    case (Op_build i c a)
    then have i: "i < length (sl_slots ?q)" "sl_slots ?q ! i = None" using en len none by simp_all
    from held_update [OF i(1), of "Some c"] i(2) bal Op_build show ?thesis by (simp add: slots_balance_def)
  next
    case (Op_move i j)
    with en len none slot_move_balance [OF bal, of i j] show ?thesis by simp
  next
    case (Op_assign i j)
    have "slots_balance cs (slot_move i j (slot_clear i ?q))" if "i \<noteq> j"
    proof (rule slot_move_balance)
      show "slots_balance cs (slot_clear i ?q)" using en Op_assign len by (intro slot_clear_balance [OF bal]) simp
      show "sl_slots (slot_clear i ?q) ! i = None"
        using en Op_assign len by (cases "sl_slots ?q ! i") (simp_all add: slot_clear_def)
    qed (use en Op_assign len that in \<open>simp_all add: slot_clear_def split: option.splits\<close>)
    with bal Op_assign show ?thesis by simp
  next
    case (Op_call i)
    then have i: "i < length (sl_slots ?q)" using en len by simp
    from held_update [OF i, of None] bal Op_call show ?thesis
      by (cases "sl_slots ?q ! i") (auto simp: slots_balance_def)
  next
    case (Op_clear i)
    with en len slot_clear_balance [OF bal, of i] show ?thesis by simp
  qed
qed

lemma task_reachable_balance:
  "task_reachable cs s \<Longrightarrow> \<exists>rs. store_rep s rs \<and> slots_balance cs (store_abs s rs)"
proof (induction rule: task_reachable.induct)
  case (start n)
  have "slots_balance [] (store_abs (new_tasks n) (replicate n None))"
    by (simp add: slots_balance_def store_abs_def new_tasks_def held_def List.map_filter_def)
  with new_tasks_rep show ?case by blast
next
  case (step cs s op s')
  then obtain rs where rs: "store_rep s rs" "slots_balance cs (store_abs s rs)" by blast
  from task_exec_refines [OF rs(1) step.hyps(2)] step.hyps(3) obtain rs' where
    "store_rep s' rs'" "store_abs s' rs' = slot_exec op (store_abs s rs)" by auto
  with slot_exec_balance [OF rs(2,1) step.hyps(2)] show ?case by auto
qed

lemma task_all_ended:
  assumes "task_reachable cs s" "\<forall>t \<in> set (ts_tasks s). \<not> task_bool t"
  shows "ends (tm_log (ts_mem s)) = mset cs \<and> tm_heap (ts_mem s) = (\<lambda>_. None)"
proof -
  obtain rs where rs: "store_rep s rs" "slots_balance cs (store_abs s rs)"
    using task_reachable_balance [OF assms(1)] by blast
  have none: "rs ! k = None" if "k < length rs" for k
    using represents_None [OF store_repD(2) [OF rs(1) that]] assms(2) that store_repD(1) [OF rs(1)]
    by (simp add: task_bool_def)
  then have rn: "rs = replicate (length rs) None" by (intro nth_equalityI) simp_all
  have "held (map (map_option fst) (replicate n None)) = {#}" for n :: nat by (simp add: held_def List.map_filter_def)
  with rn have "held (map (map_option fst) rs) = {#}" by metis
  moreover have "tm_heap (ts_mem s) a = None" for a
    using store_repD(4) [OF rs(1), of a] none by (metis owns_simps(1))
  ultimately show ?thesis using rs(2) by (auto simp: slots_balance_def store_abs_def)
qed


definition moved_task :: tstore where
  "moved_task = \<lparr>ts_tasks = [\<lparr>t_buffer = B_pointer (Some 40), t_vtable = None\<rparr>, \<lparr>t_buffer = B_pointer (Some 40),
       t_vtable = None\<rparr>],
     ts_mem = \<lparr>tm_heap = (\<lambda>_. None), tm_log = [Ev_run (big_callable 7), Ev_end (big_callable 7)]\<rparr>\<rparr>"


text \<open>A callable that throws is leaked.  When the callable of a task throws, the exception reaches the
  caller after the task has given up its table, so the object is never destroyed: on the heap
  it stays allocated, and clearing the task does nothing.\<close>

lemma task_throw_leaks:
  assumes "represents (tm_heap m) t (Some (c, Some a))" "tc_kind c = K_plain n" "throws n"
  shows "\<exists>t' m'. task_call throws t m = Inr (Some (User_exception n), t', m') \<and>
           tm_heap m' a = Some (Called c) \<and> task_clear t' m' = Inr (t', m')"
  using assms by (auto simp: task_call_def task_clear_def table_defs Let_def)

lemma task_throw_leaks_witness:
  "\<exists>t' m'. task_call (\<lambda>n. n = 7) (fst (task_build (big_callable 7) 40 (ts_mem (new_tasks 0))))
       (snd (task_build (big_callable 7) 40 (ts_mem (new_tasks 0)))) = Inr (Some (User_exception 7), t', m') \<and>
     tm_heap m' 40 = Some (Called (big_callable 7)) \<and> task_clear t' m' = Inr (t', m')"
  by (rule task_throw_leaks)
    (simp_all add: task_build_def big_callable_def is_inlinable_def task_buffer_size_def tc_wf_def tag_of_def)

end
