(* ===== verification/Scheduling.thy ===== *)
theory Scheduling
  imports Task Result_Api
begin

text \<open>
  How a coroutine gets onto an executor: \<^verbatim>\<open>resume_on\<close> (\<^verbatim>\<open>results/resume_on.h\<close>), the promises of parallel
  coroutines (\<^verbatim>\<open>results/promises.h\<close>) and the coroutines behind \<^verbatim>\<open>submit\<close> and \<^verbatim>\<open>bulk_submit\<close>
  (\<^verbatim>\<open>executors/executor.h\<close>).  All of them post an \<^verbatim>\<open>await_via_functor\<close>, so a coroutine is resumed when the task that holds
  it is called, and resumed with the interrupt flag set when that task is destroyed instead.
\<close>

section \<open>Operations\<close>

text \<open>A null pointer to an executor is \<open>None\<close>.\<close>

definition resume_on :: "addr option \<Rightarrow> addr outcome" where
  "resume_on ex =
     (case ex of None \<Rightarrow> Inl (Invalid_argument k_resume_on_null_exception_err_msg) | Some e \<Rightarrow> Inr e)"

definition promise_to_ref :: "addr option \<Rightarrow> addr outcome" where
  "promise_to_ref ex =
     (case ex of None \<Rightarrow> Inl (Invalid_argument k_parallel_coroutine_null_exception_err_msg) | Some e \<Rightarrow> Inr e)"

text \<open>The constructors of \<^verbatim>\<open>initialy_rescheduled_promise\<close> for free functions go through \<^verbatim>\<open>to_ref\<close>; the one for
  member functions dereferences the pointer.\<close>

definition rescheduled_promise :: "bool \<Rightarrow> addr option \<Rightarrow> addr outcome" where
  "rescheduled_promise member ex =
     (if member then (case ex of None \<Rightarrow> Inl (Undefined_behaviour ''null executor dereferenced'') | Some e \<Rightarrow> Inr e)
      else promise_to_ref ex)"

text \<open>\<^verbatim>\<open>await_suspend\<close>: the functor is posted.  When \<^verbatim>\<open>post\<close> throws, the exception is swallowed; the task built from the
  functor has been destroyed then.\<close>

definition scheduling_await_suspend :: "('s \<Rightarrow> 's outcome) \<Rightarrow> 's \<Rightarrow> 's" where
  "scheduling_await_suspend post s = (case post s of Inl e \<Rightarrow> s | Inr s' \<Rightarrow> s')"

definition scheduling_await_resume :: "string \<Rightarrow> bool \<Rightarrow> unit outcome" where
  "scheduling_await_resume msg interrupted = (if interrupted then Inl (Broken_task msg) else Inr ())"

text \<open>\<^verbatim>\<open>result_coro_promise\<close>: the state \<open>a\<close> lives in the frame \<open>h\<close>.\<close>

definition coro_get_return_object :: "addr \<Rightarrow> result" where
  "coro_get_return_object a = \<lparr>res_state = Some a\<rparr>"

definition coro_unhandled_exception :: "'a rstore \<Rightarrow> addr \<Rightarrow> exn \<Rightarrow> 'a rstore outcome" where
  "coro_unhandled_exception st a e = store_update st a (\<lambda>s. set_exception s e)"

definition coro_return_value :: "'a rstore \<Rightarrow> addr \<Rightarrow> 'a \<Rightarrow> 'a rstore outcome" where
  "coro_return_value st a v = store_update st a (\<lambda>s. set_result s v)"

definition coro_final_suspend :: "'a rstore \<Rightarrow> addr \<Rightarrow> addr \<Rightarrow> (resume_action \<times> 'a rstore) outcome" where
  "coro_final_suspend st a h =
     with_state st a (\<lambda>s. bind_outcome (complete_producer s (Some h)) (\<lambda>(before, s').
       case before of
         Consumer_set \<Rightarrow> Inr (resume_consumer (m_consumer s'), st(a \<mapsto> s'))
       | PC_idle \<Rightarrow> Inr (Do_nothing, st(a \<mapsto> s'))
       | Consumer_waiting \<Rightarrow> Inr (Notify_waiter, st(a \<mapsto> s'))
       | Consumer_done \<Rightarrow> Inr (Do_nothing, st(a := None))
       | Producer_done \<Rightarrow> Inl (Assertion_failed ''false'')))"

text \<open>The coroutine of \<^verbatim>\<open>submit\<close> once it is resumed: it looks at the flag, runs the callable (which returns or throws
  \<open>callable\<close>) and publishes.\<close>

definition submit_bridge ::
  "string \<Rightarrow> 'a rstore \<Rightarrow> addr \<Rightarrow> addr \<Rightarrow> bool \<Rightarrow> 'a outcome \<Rightarrow> (resume_action \<times> 'a rstore) outcome" where
  "submit_bridge msg st a h interrupted callable =
     (let body = bind_outcome (scheduling_await_resume msg interrupted) (\<lambda>_. callable) in
      bind_outcome (case body of Inr v \<Rightarrow> coro_return_value st a v | Inl e \<Rightarrow> coro_unhandled_exception st a e)
        (\<lambda>st'. coro_final_suspend st' a h))"

section \<open>A rescheduled coroutine is resumed exactly once\<close>

definition handle_of :: "tcallable \<Rightarrow> addr option" where
  "handle_of c = (case tc_kind c of K_coroutine h \<Rightarrow> Some h | K_await h \<Rightarrow> Some h | K_plain n \<Rightarrow> None)"

fun concerns :: "addr \<Rightarrow> teffect \<Rightarrow> bool" where
  "concerns h (Resume g) \<longleftrightarrow> g = h"
| "concerns h (Resume_interrupted g) \<longleftrightarrow> g = h"
| "concerns h (teffect.Destroy_frame g) \<longleftrightarrow> g = h"
| "concerns h _ \<longleftrightarrow> False"

definition resumptions :: "addr \<Rightarrow> tevent list \<Rightarrow> teffect list" where
  "resumptions h es = filter (concerns h) (concat (map effects_of es))"

fun callable_of :: "tevent \<Rightarrow> tcallable" where
  "callable_of (Ev_run c) = c" | "callable_of (Ev_end c) = c" | "callable_of (Ev_drop c) = c" | "callable_of (Ev_forget c) = c"

lemma kind_await [simp]: "tc_kind (await_via_functor h) = K_await h"
  by (simp add: await_via_functor_def)

lemma handle_await: "handle_of (await_via_functor h) = Some h"
  by (simp add: handle_of_def)

lemma event_effects:
  assumes "handle_of (callable_of e) = Some h \<longrightarrow> callable_of e = await_via_functor h"
  shows "filter (concerns h) (effects_of e) =
           (if e = Ev_run (await_via_functor h) then [Resume h]
            else if e = Ev_drop (await_via_functor h) then [Resume_interrupted h] else [])"
proof (cases "handle_of (callable_of e) = Some h")
  case True
  then have "callable_of e = await_via_functor h" using assms by simp
  then show ?thesis by (cases e) simp_all
next
  case False
  then have "callable_of e \<noteq> await_via_functor h" by (metis handle_await)
  then have "e \<noteq> Ev_run (await_via_functor h)" "e \<noteq> Ev_drop (await_via_functor h)" by auto
  moreover have "filter (concerns h) (effects_of e) = []"
    using False by (cases e; cases "tc_kind (callable_of e)") (simp_all add: handle_of_def)
  ultimately show ?thesis by simp
qed

lemma resumptions_counted:
  assumes "\<forall>e \<in> set es. handle_of (callable_of e) = Some h \<longrightarrow> callable_of e = await_via_functor h"
  shows "mset (resumptions h es) =
           replicate_mset (count (runs es) (await_via_functor h)) (Resume h) +
           replicate_mset (count (mset es) (Ev_drop (await_via_functor h))) (Resume_interrupted h)"
  using assms
proof (induction es)
  case Nil
  then show ?case by (simp add: resumptions_def)
next
  case (Cons e es)
  have r: "resumptions h (e # es) = filter (concerns h) (effects_of e) @ resumptions h es" by (simp add: resumptions_def)
  have "runs (e # es) = (case e of Ev_run c \<Rightarrow> {#c#} | _ \<Rightarrow> {#}) + runs es"
    by (cases e) (simp_all add: runs_def List.map_filter_simps)
  with Cons event_effects [of e h] show ?case unfolding r by (cases e) (auto simp: ac_simps)
qed

lemma ends_split:
  "count (ends es) c = count (finishes es) c + count (mset es) (Ev_drop c) + count (mset es) (Ev_forget c)"
proof (induction es)
  case (Cons e es)
  then show ?case by (cases e) (simp_all add: ends_def finishes_def List.map_filter_simps)
qed (simp add: ends_def finishes_def List.map_filter_def)

lemma callable_in_history:
  assumes "slots_balance cs q" "e \<in> set (sl_log q)"
  shows "callable_of e \<in> set cs"
proof -
  have sub: "ends (sl_log q) \<subseteq># mset cs" using assms(1) by (simp add: slots_balance_def)
  have run: "c \<in># runs es" if "Ev_run c \<in> set es" for c es
    using that by (auto simp: runs_def List.map_filter_def intro!: image_eqI)
  have "callable_of e \<in># ends (sl_log q)"
  proof (cases e)
    case (Ev_run c)
    then have "c \<in># finishes (sl_log q)" using run [of c "sl_log q"] assms by (simp add: slots_balance_def)
    then show ?thesis using Ev_run mset_subset_eqD [OF finishes_subset] by simp
  qed (use assms(2) in \<open>auto simp: ends_def List.map_filter_def intro!: image_eqI\<close>)
  then show ?thesis using mset_subset_eqD [OF sub] by simp
qed

lemma resumed_exactly_once:
  assumes "task_reachable cs s" "\<forall>t \<in> set (ts_tasks s). \<not> task_bool t"
    and "filter (\<lambda>c. handle_of c = Some h) cs = [await_via_functor h]"
  shows "resumptions h (tm_log (ts_mem s)) = [Resume h] \<or> resumptions h (tm_log (ts_mem s)) = [Resume_interrupted h]"
proof -
  let ?es = "tm_log (ts_mem s)" and ?c = "await_via_functor h"
  obtain rs where rs: "store_rep s rs" "slots_balance cs (store_abs s rs)"
    using task_reachable_balance [OF assms(1)] by blast
  have log: "sl_log (store_abs s rs) = ?es" by (simp add: store_abs_def)
  have handle: "handle_of ?c = Some h" by (simp add: handle_of_def await_via_functor_def)
  have ends: "ends ?es = mset cs" using task_all_ended [OF assms(1,2)] by simp
  have "\<forall>e \<in> set ?es. handle_of (callable_of e) = Some h \<longrightarrow> callable_of e = ?c"
  proof (intro ballI impI)
    fix e assume e: "e \<in> set ?es" "handle_of (callable_of e) = Some h"
    then have "callable_of e \<in> set (filter (\<lambda>c. handle_of c = Some h) cs)"
      using callable_in_history [OF rs(2), of e] log by simp
    then show "callable_of e = ?c" using assms(3) by simp
  qed
  note rc = resumptions_counted [OF this]
  have "count (mset cs) ?c = count (mset (filter (\<lambda>c. handle_of c = Some h) cs)) ?c" using handle by simp
  then have one: "count (ends ?es) ?c = 1" using assms(3) ends by simp
  moreover have "Ev_forget ?c \<notin> set ?es"
    using rs(2) log by (auto simp: slots_balance_def await_via_functor_def)
  then have "count (mset ?es) (Ev_forget ?c) = 0" by simp
  moreover have "runs ?es = finishes ?es" using rs(2) log by (simp add: slots_balance_def)
  ultimately have "count (runs ?es) ?c + count (mset ?es) (Ev_drop ?c) = 1" using ends_split [of ?es ?c] by simp
  then consider "count (runs ?es) ?c = 1" "count (mset ?es) (Ev_drop ?c) = 0"
    | "count (runs ?es) ?c = 0" "count (mset ?es) (Ev_drop ?c) = 1" by linarith
  then have "mset (resumptions h ?es) = {#Resume h#} \<or> mset (resumptions h ?es) = {#Resume_interrupted h#}"
    by cases (simp_all add: rc)
  then show ?thesis by simp
qed

definition submitted_outcome :: "string \<Rightarrow> bool \<Rightarrow> 'a outcome \<Rightarrow> 'a outcome" where
  "submitted_outcome msg interrupted callable = (if interrupted then Inl (Broken_task msg) else callable)"

lemma submit_bridge_result:
  assumes "st a = Some result_state_init"
  shows "\<exists>st'. submit_bridge msg st a h interrupted callable = Inr (Do_nothing, st') \<and>
           result_get st' (coro_get_return_object a) =
             Inr (Some (submitted_outcome msg interrupted callable, st(a := None), \<lparr>res_state = None\<rparr>))"
proof -
  let ?v = "submitted_outcome msg interrupted callable"
  let ?s = "(ready_state ?v)\<lparr>m_done_handle := Some h\<rparr>"
  have "submit_bridge msg st a h interrupted callable = Inr (Do_nothing, st(a \<mapsto> ?s))"
    using assms
    by (cases interrupted; cases callable)
      (simp_all add: submit_bridge_def submitted_outcome_def scheduling_await_resume_def coro_return_value_def
        coro_unhandled_exception_def coro_final_suspend_def api_defs ready_state_def Let_def)
  moreover have "result_get (st(a \<mapsto> ?s)) (coro_get_return_object a) =
      Inr (Some (?v, st(a := None), \<lparr>res_state = None\<rparr>))"
    by (cases ?v) (simp_all add: result_get_def coro_get_return_object_def result_throw_if_empty_def with_state_def
        ready_state_def result_state_get_def assert_done_def producer_get_def producer_get_ref_def joined_reset_def)
  ultimately show ?thesis by blast
qed

text \<open>C26: a submitted callable always produces a result.  Whatever the executor does with the task it was given
  (run it, move it around, refuse it, or drop it at shutdown), once no task is left the submitted coroutine has been
  resumed exactly once; its result then holds what the callable returned or threw if the task was run, and
  \<^verbatim>\<open>errors::broken_task\<close> if it was destroyed; and reading the result frees the coroutine frame.\<close>

theorem submitted_task_outcome:
  assumes "task_reachable cs s" "\<forall>t \<in> set (ts_tasks s). \<not> task_bool t"
    and "filter (\<lambda>c. handle_of c = Some h) cs = [await_via_functor h]"
    and "st a = Some result_state_init"
  shows "\<exists>interrupted. resumptions h (tm_log (ts_mem s)) = [if interrupted then Resume_interrupted h else Resume h] \<and>
           (\<exists>st'. submit_bridge msg st a h interrupted callable = Inr (Do_nothing, st') \<and>
              result_get st' (coro_get_return_object a) =
                Inr (Some (if interrupted then Inl (Broken_task msg) else callable, st(a := None), \<lparr>res_state = None\<rparr>)))"
proof -
  obtain i where i: "resumptions h (tm_log (ts_mem s)) = [if i then Resume_interrupted h else Resume h]"
    using resumed_exactly_once [OF assms(1-3)] by (metis (full_types))
  with submit_bridge_result [of st a msg h i callable] assms(4) show ?thesis
    unfolding submitted_outcome_def by blast
qed

definition dropped_task :: tstore where
  "dropped_task = \<lparr>ts_tasks = [\<lparr>t_buffer = B_inline (Live (await_via_functor 9)), t_vtable = None\<rparr>],
     ts_mem = \<lparr>tm_heap = (\<lambda>_. None), tm_log = [Ev_drop (await_via_functor 9)]\<rparr>\<rparr>"

lemma dropped_task_reachable: "task_reachable [await_via_functor 9] dropped_task"
proof -
  let ?c = "await_via_functor 9"
  let ?s = "\<lparr>ts_tasks = [\<lparr>t_buffer = B_inline (Live ?c), t_vtable = Some (make_vtable ?c)\<rparr>],
      ts_mem = \<lparr>tm_heap = (\<lambda>_. None), tm_log = []\<rparr>\<rparr>"
  note defs = new_tasks_def task_empty_def task_bool_def tc_wf_def table_defs await_via_functor_def is_inlinable_def
    task_buffer_size_def task_build_def task_clear_at_def task_clear_def dropped_task_def
  have "task_reachable ([] @ [?c]) ?s"
    using task_reachable.step [OF task_reachable.start [of 1], of "Op_build 0 ?c 0" ?s] by (simp add: defs Let_def)
  then show ?thesis
    using task_reachable.step [of "[?c]" ?s "Op_clear 0" dropped_task] by (simp add: defs Let_def)
qed

theorem submitted_task_outcome_witness:
  "\<exists>interrupted. resumptions 9 (tm_log (ts_mem dropped_task)) = [if interrupted then Resume_interrupted 9 else Resume 9] \<and>
     (\<exists>st'. submit_bridge k_broken_task_exception_error_msg ((\<lambda>_. None)(3 \<mapsto> result_state_init)) 3 9 interrupted (Inr (5::nat)) =
          Inr (Do_nothing, st') \<and>
        result_get st' (coro_get_return_object 3) =
          Inr (Some (if interrupted then Inl (Broken_task k_broken_task_exception_error_msg) else Inr 5,
            ((\<lambda>_. None)(3 \<mapsto> result_state_init))(3 := None), \<lparr>res_state = None\<rparr>)))"
  by (rule submitted_task_outcome [OF dropped_task_reachable])
    (simp_all add: dropped_task_def task_bool_def handle_of_def await_via_functor_def)

text \<open>A null executor is reported, except by the promise of a member function.\<close>

lemma null_executor:
  "resume_on None = Inl (Invalid_argument k_resume_on_null_exception_err_msg)"
  "rescheduled_promise False None = Inl (Invalid_argument k_parallel_coroutine_null_exception_err_msg)"
  "rescheduled_promise True None = Inl (Undefined_behaviour ''null executor dereferenced'')"
  by (simp_all add: resume_on_def rescheduled_promise_def promise_to_ref_def)

end
