(* ===== verification/Timer.thy ===== *)
theory Timer
  imports Prelude Messages "HOL-Library.Word" "HOL-Library.Sublist" "HOL-Library.Multiset"
begin

text \<open>
  Timers (\<^verbatim>\<open>timers/timer.h\<close>, \<^verbatim>\<open>source/timers/timer.cpp\<close>) and the collection of running timers that the
  thread of a timer queue keeps (class \<^verbatim>\<open>timer_queue_internal\<close> of \<^verbatim>\<open>source/timers/timer_queue.cpp\<close>).  Time points
  are counts of nanoseconds, durations in milliseconds are stored in 64-bit words as in the source.  The \<^verbatim>\<open>multiset\<close> is the list
  of its nodes in iteration order, an iterator the identity of a node, and the \<^verbatim>\<open>unordered_map\<close> from timers to
  iterators an association list.
\<close>

section \<open>The state of a timer\<close>

type_synonym timer_ptr = addr

record timer_state =
  tm_due_time :: "64 word"
  tm_frequency :: "64 word"
  tm_deadline :: int
  tm_cancelled :: bool
  tm_oneshot :: bool
  tm_executor :: "addr option"
  tm_queue :: addr
  tm_callable :: nat

definition in_int64 :: "int \<Rightarrow> bool" where
  "in_int64 x \<longleftrightarrow> - (2 ^ 63) \<le> x \<and> x < 2 ^ 63"

text \<open>\<^verbatim>\<open>clock_type::now() + milliseconds(diff)\<close>: the unsigned count is converted back to a signed one, scaled to
  nanoseconds and added in 64-bit arithmetic.\<close>

definition make_deadline :: "int \<Rightarrow> 64 word \<Rightarrow> int outcome" where
  "make_deadline now diff =
     (let d = sint diff * 1000000 in
      if in_int64 d \<and> in_int64 (now + d) then Inr (now + d) else Inl (Undefined_behaviour ''signed overflow''))"

definition timer_state_new ::
  "int \<Rightarrow> 64 word \<Rightarrow> 64 word \<Rightarrow> addr option \<Rightarrow> addr \<Rightarrow> bool \<Rightarrow> nat \<Rightarrow> timer_state outcome" where
  "timer_state_new now due_time frequency executor queue is_oneshot callable =
     bind_outcome (make_deadline now due_time) (\<lambda>deadline.
     bind_outcome (assert_that (executor \<noteq> None) ''static_cast<bool>(m_executor)'') (\<lambda>_.
       Inr \<lparr>tm_due_time = due_time, tm_frequency = frequency, tm_deadline = deadline, tm_cancelled = False,
            tm_oneshot = is_oneshot, tm_executor = executor, tm_queue = queue, tm_callable = callable\<rparr>))"

definition timer_expired :: "int \<Rightarrow> timer_state \<Rightarrow> bool" where
  "timer_expired now t \<longleftrightarrow> tm_deadline t \<le> now"

text \<open>\<^verbatim>\<open>fire\<close>: \<open>refuses\<close> says which executors throw at \<^verbatim>\<open>post\<close>, and what.  The result is the new state and the
  executor that got the task.\<close>

definition timer_fire :: "(addr \<Rightarrow> exn option) \<Rightarrow> int \<Rightarrow> timer_state \<Rightarrow> (addr \<times> timer_state) outcome" where
  "timer_fire refuses now t =
     bind_outcome (make_deadline now (tm_frequency t)) (\<lambda>deadline.
       case tm_executor t of
         None \<Rightarrow> Inl (Assertion_failed ''static_cast<bool>(m_executor)'')
       | Some ex \<Rightarrow> (case refuses ex of Some e \<Rightarrow> Inl e | None \<Rightarrow> Inr (ex, t\<lparr>tm_deadline := deadline\<rparr>)))"

text \<open>The task that \<^verbatim>\<open>fire\<close> posts runs \<^verbatim>\<open>execute\<close>, which looks at the flag again.\<close>

definition timer_execute :: "timer_state \<Rightarrow> nat option" where
  "timer_execute t = (if tm_cancelled t then None else Some (tm_callable t))"

section \<open>The timer handle\<close>

type_synonym timer_mem = "timer_ptr \<Rightarrow> timer_state"

datatype timer_request = Add_timer | Remove_timer

type_synonym request_queue = "(timer_ptr \<times> timer_request) list"

record timer_handle = th_state :: "timer_ptr option"

definition timer_throw_if_empty :: "string \<Rightarrow> timer_handle \<Rightarrow> timer_ptr outcome" where
  "timer_throw_if_empty msg h = (case th_state h of Some p \<Rightarrow> Inr p | None \<Rightarrow> Inl (Empty_timer msg))"

definition timer_get_due_time :: "timer_mem \<Rightarrow> timer_handle \<Rightarrow> int outcome" where
  "timer_get_due_time mem h =
     bind_outcome (timer_throw_if_empty k_timer_empty_get_due_time_err_msg h) (\<lambda>p. Inr (sint (tm_due_time (mem p))))"

definition timer_get_frequency :: "timer_mem \<Rightarrow> timer_handle \<Rightarrow> int outcome" where
  "timer_get_frequency mem h =
     bind_outcome (timer_throw_if_empty k_timer_empty_get_frequency_err_msg h) (\<lambda>p. Inr (sint (tm_frequency (mem p))))"

definition timer_get_executor :: "timer_mem \<Rightarrow> timer_handle \<Rightarrow> addr option outcome" where
  "timer_get_executor mem h =
     bind_outcome (timer_throw_if_empty k_timer_empty_get_executor_err_msg h) (\<lambda>p. Inr (tm_executor (mem p)))"

definition timer_get_timer_queue :: "timer_mem \<Rightarrow> timer_handle \<Rightarrow> addr outcome" where
  "timer_get_timer_queue mem h =
     bind_outcome (timer_throw_if_empty k_timer_empty_get_timer_queue_err_msg h) (\<lambda>p. Inr (tm_queue (mem p)))"

definition timer_set_frequency :: "int \<Rightarrow> timer_mem \<Rightarrow> timer_handle \<Rightarrow> timer_mem outcome" where
  "timer_set_frequency new_frequency mem h =
     bind_outcome (timer_throw_if_empty k_timer_empty_set_frequency_err_msg h) (\<lambda>p.
       Inr (mem(p := (mem p)\<lparr>tm_frequency := word_of_int new_frequency\<rparr>)))"

text \<open>\<^verbatim>\<open>cancel\<close> empties the handle, sets the flag and asks the queue, if it still exists, to forget the timer.\<close>

definition timer_cancel ::
  "bool \<Rightarrow> timer_mem \<times> request_queue \<Rightarrow> timer_handle \<Rightarrow> (timer_mem \<times> request_queue) \<times> timer_handle" where
  "timer_cancel queue_alive s h =
     (case th_state h of
        None \<Rightarrow> (s, h)
      | Some p \<Rightarrow>
          (((fst s)(p := (fst s p)\<lparr>tm_cancelled := True\<rparr>), if queue_alive then snd s @ [(p, Remove_timer)] else snd s),
           h\<lparr>th_state := None\<rparr>))"

definition timer_assign ::
  "bool \<Rightarrow> bool \<Rightarrow> timer_mem \<times> request_queue \<Rightarrow> timer_handle \<Rightarrow> timer_handle \<Rightarrow>
     (timer_mem \<times> request_queue) \<times> timer_handle \<times> timer_handle" where
  "timer_assign same queue_alive s this rhs =
     (if same then (s, this, rhs)
      else let (s', t') = (if th_state this \<noteq> None then timer_cancel queue_alive s this else (s, this)) in
        (s', t'\<lparr>th_state := th_state rhs\<rparr>, rhs\<lparr>th_state := None\<rparr>))"

section \<open>The collection of running timers\<close>

record timer_queue_internal =
  ti_timers :: "(nat \<times> timer_ptr) list"
  ti_mapper :: "(timer_ptr \<times> nat) list"
  ti_fresh :: nat   \<comment> \<open>the identity of the next node\<close>

definition internal_init :: timer_queue_internal where
  "internal_init = \<lparr>ti_timers = [], ti_mapper = [], ti_fresh = 0\<rparr>"

definition node_deadline :: "timer_mem \<Rightarrow> nat \<times> timer_ptr \<Rightarrow> int" where
  "node_deadline mem x = tm_deadline (mem (snd x))"

text \<open>A node is inserted behind the nodes that compare equal.\<close>

fun timer_set_insert :: "timer_mem \<Rightarrow> nat \<times> timer_ptr \<Rightarrow> (nat \<times> timer_ptr) list \<Rightarrow> (nat \<times> timer_ptr) list" where
  "timer_set_insert mem x [] = [x]"
| "timer_set_insert mem x (y # ys) =
     (if node_deadline mem x < node_deadline mem y then x # y # ys else y # timer_set_insert mem x ys)"

definition mapper_erase :: "timer_ptr \<Rightarrow> (timer_ptr \<times> nat) list \<Rightarrow> (timer_ptr \<times> nat) list" where
  "mapper_erase p = filter (\<lambda>x. fst x \<noteq> p)"

definition add_timer_internal :: "timer_mem \<Rightarrow> timer_ptr \<Rightarrow> timer_queue_internal \<Rightarrow> timer_queue_internal outcome" where
  "add_timer_internal mem p ti =
     bind_outcome (assert_that (map_of (ti_mapper ti) p = None) ''m_iterator_mapper.find(new_timer) == m_iterator_mapper.end()'')
       (\<lambda>_. Inr (ti\<lparr>ti_timers := timer_set_insert mem (ti_fresh ti, p) (ti_timers ti),
                    ti_mapper := (p, ti_fresh ti) # ti_mapper ti, ti_fresh := ti_fresh ti + 1\<rparr>))"

definition remove_timer_internal :: "timer_mem \<Rightarrow> timer_ptr \<Rightarrow> timer_queue_internal \<Rightarrow> timer_queue_internal outcome" where
  "remove_timer_internal mem p ti =
     (case map_of (ti_mapper ti) p of
        None \<Rightarrow> bind_outcome (assert_that (tm_oneshot (mem p) \<or> tm_cancelled (mem p))
                   ''existing_timer->is_oneshot() || existing_timer->cancelled()'') (\<lambda>_. Inr ti)
      | Some n \<Rightarrow>
          if n \<in> fst ` set (ti_timers ti)
          then Inr (ti\<lparr>ti_timers := filter (\<lambda>x. fst x \<noteq> n) (ti_timers ti), ti_mapper := mapper_erase p (ti_mapper ti)\<rparr>)
          else Inl (Undefined_behaviour ''erase of an invalid iterator''))"

fun process_request_queue :: "timer_mem \<Rightarrow> request_queue \<Rightarrow> timer_queue_internal \<Rightarrow> timer_queue_internal outcome" where
  "process_request_queue mem [] ti = Inr ti"
| "process_request_queue mem ((p, opt) # rs) ti =
     bind_outcome (if opt = Add_timer then add_timer_internal mem p ti else remove_timer_internal mem p ti)
       (process_request_queue mem rs)"

definition internal_empty :: "timer_queue_internal \<Rightarrow> bool outcome" where
  "internal_empty ti =
     bind_outcome (assert_that (length (ti_mapper ti) = length (ti_timers ti)) ''m_iterator_mapper.size() == m_timers.size()'')
       (\<lambda>_. Inr (ti_timers ti = []))"

text \<open>The loop of \<^verbatim>\<open>process_timers\<close>.  In round \<open>k\<close> other threads may have changed flags and frequencies (\<open>env k\<close>),
  and \<^verbatim>\<open>fire\<close> reads the clock at \<open>clock k\<close>.  The result lists the posted timers; \<open>None\<close> means that the loop
  has not ended within the given number of rounds.\<close>

fun process_loop ::
  "nat \<Rightarrow> (addr \<Rightarrow> exn option) \<Rightarrow> (nat \<Rightarrow> int) \<Rightarrow> (nat \<Rightarrow> timer_mem \<Rightarrow> timer_mem) \<Rightarrow> int \<Rightarrow> nat \<Rightarrow>
     timer_mem \<Rightarrow> timer_queue_internal \<Rightarrow> (timer_ptr list \<times> timer_mem \<times> timer_queue_internal) outcome option" where
  "process_loop 0 refuses clock env now k mem ti = None"
| "process_loop (Suc fuel) refuses clock env now k mem ti =
     (case ti_timers ti of
        [] \<Rightarrow> Some (Inr ([], mem, ti))
      | (n, p) # rest \<Rightarrow>
          let mem = env k mem in
          if \<not> timer_expired now (mem p) then Some (Inr ([], mem, ti))
          else if tm_cancelled (mem p)
          then process_loop fuel refuses clock env now (Suc k) mem
                 (ti\<lparr>ti_timers := rest, ti_mapper := mapper_erase p (ti_mapper ti)\<rparr>)
          else case timer_fire refuses (clock k) (mem p) of
            Inl e \<Rightarrow> Some (Inl e)
          | Inr (ex, t) \<Rightarrow>
              let mem = mem(p := t) in
              if tm_oneshot t
              then map_option (\<lambda>r. bind_outcome r (\<lambda>(ps, m, i). Inr (p # ps, m, i)))
                     (process_loop fuel refuses clock env now (Suc k) mem
                        (ti\<lparr>ti_timers := rest, ti_mapper := mapper_erase p (ti_mapper ti)\<rparr>))
              else if map_of (ti_mapper ti) p = None
              then Some (Inl (Assertion_failed ''m_iterator_mapper.find(timer_ptr) != m_iterator_mapper.end()''))
              else map_option (\<lambda>r. bind_outcome r (\<lambda>(ps, m, i). Inr (p # ps, m, i)))
                     (process_loop fuel refuses clock env now (Suc k) mem
                        (ti\<lparr>ti_timers := timer_set_insert mem (n, p) rest,
                            ti_mapper := (p, n) # mapper_erase p (ti_mapper ti)\<rparr>)))"

definition hours_24 :: int where
  "hours_24 = 24 * 3600 * 1000000000"

definition process_timers ::
  "nat \<Rightarrow> (addr \<Rightarrow> exn option) \<Rightarrow> (nat \<Rightarrow> int) \<Rightarrow> (nat \<Rightarrow> timer_mem \<Rightarrow> timer_mem) \<Rightarrow> request_queue \<Rightarrow>
     timer_mem \<Rightarrow> timer_queue_internal \<Rightarrow> (timer_ptr list \<times> int \<times> timer_mem \<times> timer_queue_internal) outcome option" where
  "process_timers fuel refuses clock env queue mem ti =
     (case process_request_queue mem queue ti of
        Inl e \<Rightarrow> Some (Inl e)
      | Inr ti1 \<Rightarrow>
          let now = clock 0 in
          map_option (\<lambda>r. bind_outcome r (\<lambda>(ps, mem', ti2).
              case ti_timers ti2 of
                [] \<Rightarrow> bind_outcome (internal_empty ti2) (\<lambda>_.
                        Inr (ps, now + hours_24, mem', ti2\<lparr>ti_timers := [], ti_mapper := []\<rparr>))
              | x # _ \<Rightarrow> Inr (ps, node_deadline mem' x, mem', ti2)))
            (process_loop fuel refuses clock env now 1 mem ti1))"

section \<open>A cancelled timer never runs\<close>

text \<open>What other threads may do to a timer while the queue works: set the flag and change the frequency.\<close>

definition timer_env :: "(nat \<Rightarrow> timer_mem \<Rightarrow> timer_mem) \<Rightarrow> bool" where
  "timer_env env \<longleftrightarrow>
     (\<forall>k mem p. \<exists>f c. env k mem p = (mem p)\<lparr>tm_frequency := f, tm_cancelled := tm_cancelled (mem p) \<or> c\<rparr>)"

lemma timer_env_fields:
  assumes "timer_env env"
  shows "tm_deadline (env k mem p) = tm_deadline (mem p)" "tm_oneshot (env k mem p) = tm_oneshot (mem p)"
    "tm_executor (env k mem p) = tm_executor (mem p)" "tm_cancelled (mem p) \<Longrightarrow> tm_cancelled (env k mem p)"
proof -
  obtain f c where "env k mem p = (mem p)\<lparr>tm_frequency := f, tm_cancelled := tm_cancelled (mem p) \<or> c\<rparr>"
    using assms unfolding timer_env_def by blast
  then show "tm_deadline (env k mem p) = tm_deadline (mem p)" "tm_oneshot (env k mem p) = tm_oneshot (mem p)"
    "tm_executor (env k mem p) = tm_executor (mem p)" "tm_cancelled (mem p) \<Longrightarrow> tm_cancelled (env k mem p)"
    by simp_all
qed

lemma timer_fire_Inr:
  "timer_fire refuses now t = Inr (ex, t') \<longleftrightarrow>
     tm_executor t = Some ex \<and> refuses ex = None \<and>
     (\<exists>d. make_deadline now (tm_frequency t) = Inr d \<and> t' = t\<lparr>tm_deadline := d\<rparr>)"
  by (auto simp: timer_fire_def bind_outcome_def split: sum.splits option.splits)

lemma process_loop_cancelled:
  assumes "timer_env env" "process_loop fuel refuses clock env now k mem ti = Some (Inr (ps, mem', ti'))"
    "tm_cancelled (mem p)"
  shows "p \<notin> set ps \<and> tm_cancelled (mem' p)"
  using assms(2,3)
proof (induction fuel arbitrary: k mem ti ps)
  case (Suc fuel)
  have c: "tm_cancelled (env k mem p)" using timer_env_fields(4) [OF assms(1)] Suc.prems(2) by blast
  show ?case
  proof (cases "ti_timers ti")
    case Nil
    with Suc.prems show ?thesis by simp
  next
    case (Cons x rest)
    obtain n q where x: "x = (n, q)" by (cases x)
    let ?mem = "env k mem"
    consider "\<not> timer_expired now (?mem q)" | "timer_expired now (?mem q)" "tm_cancelled (?mem q)"
      | "timer_expired now (?mem q)" "\<not> tm_cancelled (?mem q)" by blast
    then show ?thesis
    proof cases
      case 1
      with Suc.prems Cons x c show ?thesis by auto
    next
      case 2
      with Suc.prems(1) Cons x have "process_loop fuel refuses clock env now (Suc k) ?mem
          (ti\<lparr>ti_timers := rest, ti_mapper := mapper_erase q (ti_mapper ti)\<rparr>) = Some (Inr (ps, mem', ti'))"
        by (simp add: Let_def)
      from Suc.IH [OF this c] show ?thesis .
    next
      case 3
      with c have "q \<noteq> p" by auto
      obtain ex t where f: "timer_fire refuses (clock k) (?mem q) = Inr (ex, t)"
        using Suc.prems(1) Cons x 3 by (cases "timer_fire refuses (clock k) (?mem q)") (auto simp: Let_def)
      have c': "tm_cancelled ((?mem(q := t)) p)" using c \<open>q \<noteq> p\<close> by simp
      obtain ti1 ps1 where l: "process_loop fuel refuses clock env now (Suc k) (?mem(q := t)) ti1 = Some (Inr (ps1, mem', ti'))"
        "ps = q # ps1"
        using Suc.prems(1) Cons x 3 f
        by (auto simp: Let_def bind_outcome_Inr_iff split: if_splits)
      from Suc.IH [OF l(1)] c' l(2) \<open>q \<noteq> p\<close> show ?thesis by simp
    qed
  qed
qed simp

section \<open>Processing fires what has expired\<close>

definition ti_inv :: "timer_mem \<Rightarrow> timer_queue_internal \<Rightarrow> bool" where
  "ti_inv mem ti \<longleftrightarrow>
     distinct (map fst (ti_timers ti)) \<and> distinct (map snd (ti_timers ti)) \<and> distinct (map fst (ti_mapper ti)) \<and>
     set (ti_mapper ti) = prod.swap ` set (ti_timers ti) \<and> sorted (map (node_deadline mem) (ti_timers ti)) \<and>
     (\<forall>x \<in> set (ti_timers ti). fst x < ti_fresh ti)"

lemma fst_swap_image [simp]: "fst ` prod.swap ` A = snd ` A"
  by (simp add: image_image)

lemma mset_timer_set_insert: "mset (timer_set_insert mem x ys) = add_mset x (mset ys)"
  by (induction ys) auto

lemma set_timer_set_insert [simp]: "set (timer_set_insert mem x ys) = insert x (set ys)"
  by (induction ys) auto

lemma distinct_timer_set_insert: "distinct (map f (timer_set_insert mem x ys)) \<longleftrightarrow> distinct (map f (x # ys))"
proof (rule mset_eq_imp_distinct_iff)
  show "mset (map f (timer_set_insert mem x ys)) = mset (map f (x # ys))" by (simp add: mset_timer_set_insert)
qed

lemma sorted_timer_set_insert:
  "sorted (map (node_deadline mem) ys) \<Longrightarrow> sorted (map (node_deadline mem) (timer_set_insert mem x ys))"
  by (induction ys) auto

lemma mapper_erase_set [simp]: "set (mapper_erase p xs) = {x \<in> set xs. fst x \<noteq> p}"
  by (auto simp: mapper_erase_def)

lemma distinct_mapper_erase: "distinct (map fst xs) \<Longrightarrow> distinct (map fst (mapper_erase p xs))"
  by (simp add: mapper_erase_def distinct_map_filter)

lemma node_deadline_upd: "snd y \<noteq> p \<Longrightarrow> node_deadline (mem(p := t)) y = node_deadline mem y"
  by (simp add: node_deadline_def)

lemma ti_inv_cong:
  assumes "ti_inv mem ti" "\<And>p. p \<in> snd ` set (ti_timers ti) \<Longrightarrow> tm_deadline (mem' p) = tm_deadline (mem p)"
  shows "ti_inv mem' ti"
proof -
  have "map (node_deadline mem') (ti_timers ti) = map (node_deadline mem) (ti_timers ti)"
    using assms(2) by (auto simp: node_deadline_def)
  with assms(1) show ?thesis unfolding ti_inv_def by presburger
qed

lemma ti_inv_add:
  assumes "ti_inv mem ti" "p \<notin> snd ` set (ti_timers ti)"
  shows "add_timer_internal mem p ti = Inr (ti\<lparr>ti_timers := timer_set_insert mem (ti_fresh ti, p) (ti_timers ti),
           ti_mapper := (p, ti_fresh ti) # ti_mapper ti, ti_fresh := ti_fresh ti + 1\<rparr>)"
    "ti_inv mem (ti\<lparr>ti_timers := timer_set_insert mem (ti_fresh ti, p) (ti_timers ti),
           ti_mapper := (p, ti_fresh ti) # ti_mapper ti, ti_fresh := ti_fresh ti + 1\<rparr>)"
proof -
  have new: "p \<notin> fst ` set (ti_mapper ti)" using assms by (simp add: ti_inv_def)
  then show "add_timer_internal mem p ti = Inr (ti\<lparr>ti_timers := timer_set_insert mem (ti_fresh ti, p) (ti_timers ti),
           ti_mapper := (p, ti_fresh ti) # ti_mapper ti, ti_fresh := ti_fresh ti + 1\<rparr>)"
    by (simp add: add_timer_internal_def map_of_eq_None_iff)
  have "ti_fresh ti \<notin> fst ` set (ti_timers ti)" using assms(1) by (auto simp: ti_inv_def)
  with assms new show "ti_inv mem (ti\<lparr>ti_timers := timer_set_insert mem (ti_fresh ti, p) (ti_timers ti),
           ti_mapper := (p, ti_fresh ti) # ti_mapper ti, ti_fresh := ti_fresh ti + 1\<rparr>)"
    by (simp add: ti_inv_def distinct_timer_set_insert sorted_timer_set_insert less_Suc_eq)
qed

lemma ti_inv_drop_head:
  assumes "ti_inv mem ti" "ti_timers ti = (n, p) # rest"
  shows "ti_inv mem (ti\<lparr>ti_timers := rest, ti_mapper := mapper_erase p (ti_mapper ti)\<rparr>)"
proof -
  have "p \<notin> snd ` set rest" using assms by (simp add: ti_inv_def)
  then have "fst x \<noteq> p" if "x \<in> prod.swap ` set rest" for x using that by force
  moreover have "set (ti_mapper ti) = insert (p, n) (prod.swap ` set rest)" using assms by (simp add: ti_inv_def)
  ultimately have "{x \<in> set (ti_mapper ti). fst x \<noteq> p} = prod.swap ` set rest" by auto
  with assms show ?thesis by (simp add: ti_inv_def distinct_mapper_erase)
qed

lemma ti_inv_reinsert:
  assumes "ti_inv mem ti" "ti_timers ti = (n, p) # rest"
  shows "ti_inv (mem(p := t)) (ti\<lparr>ti_timers := timer_set_insert (mem(p := t)) (n, p) rest,
            ti_mapper := (p, n) # mapper_erase p (ti_mapper ti)\<rparr>)"
proof -
  let ?i = "ti\<lparr>ti_timers := rest, ti_mapper := mapper_erase p (ti_mapper ti)\<rparr>"
  have h: "p \<notin> snd ` set rest" "n \<notin> fst ` set rest" "n < ti_fresh ti" using assms by (auto simp: ti_inv_def)
  have "ti_inv (mem(p := t)) ?i"
    by (rule ti_inv_cong [OF ti_inv_drop_head [OF assms]]) (use h in auto)
  with h show ?thesis by (simp add: ti_inv_def distinct_timer_set_insert sorted_timer_set_insert)
qed

lemma ti_inv_mapper:
  assumes "ti_inv mem ti"
  shows "map_of (ti_mapper ti) p = Some n \<longleftrightarrow> (n, p) \<in> set (ti_timers ti)"
    "map_of (ti_mapper ti) p = None \<longleftrightarrow> p \<notin> snd ` set (ti_timers ti)"
    "length (ti_mapper ti) = length (ti_timers ti)"
proof -
  have d: "distinct (map fst (ti_mapper ti))" "set (ti_mapper ti) = prod.swap ` set (ti_timers ti)"
    "distinct (map fst (ti_timers ti))" using assms by (simp_all add: ti_inv_def)
  show "map_of (ti_mapper ti) p = Some n \<longleftrightarrow> (n, p) \<in> set (ti_timers ti)"
    using d(2) map_of_eq_Some_iff [OF d(1)] by force
  show "map_of (ti_mapper ti) p = None \<longleftrightarrow> p \<notin> snd ` set (ti_timers ti)"
    using d(2) by (force simp: map_of_eq_None_iff)
  have "card (set (ti_mapper ti)) = card (set (ti_timers ti))" unfolding d(2) by (simp add: card_image)
  then show "length (ti_mapper ti) = length (ti_timers ti)"
    using d(1,3) by (simp add: distinct_card distinct_map)
qed

text \<open>The timers that have expired, in the order of their deadlines.\<close>

definition due_timers :: "int \<Rightarrow> timer_mem \<Rightarrow> timer_queue_internal \<Rightarrow> timer_ptr list" where
  "due_timers now mem ti = map snd (takeWhile (\<lambda>x. node_deadline mem x \<le> now) (ti_timers ti))"

lemma takeWhile_timer_set_insert:
  "now < node_deadline mem x \<Longrightarrow>
     takeWhile (\<lambda>y. node_deadline mem y \<le> now) (timer_set_insert mem x ys) = takeWhile (\<lambda>y. node_deadline mem y \<le> now) ys"
  by (induction ys) auto

lemma takeWhile_deadline_cong:
  assumes "\<And>p. p \<in> snd ` set xs \<Longrightarrow> tm_deadline (mem' p) = tm_deadline (mem p)"
  shows "takeWhile (\<lambda>y. node_deadline mem' y \<le> now) xs = takeWhile (\<lambda>y. node_deadline mem y \<le> now) xs"
  by (rule takeWhile_cong) (use assms in \<open>auto simp: node_deadline_def\<close>)

text \<open>A timer whose frequency neither overflows nor sends it back into the past.\<close>

definition frequency_ok :: "timer_state \<Rightarrow> bool" where
  "frequency_ok t \<longleftrightarrow>
     0 \<le> sint (tm_frequency t) \<and> sint (tm_frequency t) * 1000000 < 2 ^ 62 \<and> (tm_oneshot t \<or> 0 < sint (tm_frequency t))"

definition clock_ok :: "(nat \<Rightarrow> int) \<Rightarrow> bool" where
  "clock_ok clock \<longleftrightarrow> 0 \<le> clock 0 \<and> (\<forall>k. clock 0 \<le> clock k \<and> clock k < 2 ^ 62)"

definition postable :: "(addr \<Rightarrow> exn option) \<Rightarrow> timer_state \<Rightarrow> bool" where
  "postable refuses t \<longleftrightarrow> (\<exists>ex. tm_executor t = Some ex \<and> refuses ex = None)"

lemma timer_fire_ok:
  assumes "frequency_ok t" "clock_ok clock" "postable refuses t"
  shows "\<exists>ex. timer_fire refuses (clock k) t =
           Inr (ex, t\<lparr>tm_deadline := clock k + sint (tm_frequency t) * 1000000\<rparr>)"
proof -
  have "0 \<le> clock 0" "clock 0 \<le> clock k" "clock k < 2 ^ 62" using assms(2) by (simp_all add: clock_ok_def)
  with assms(1) have "make_deadline (clock k) (tm_frequency t) = Inr (clock k + sint (tm_frequency t) * 1000000)"
    by (simp add: make_deadline_def in_int64_def frequency_ok_def Let_def)
  with assms(3) show ?thesis by (auto simp: timer_fire_Inr postable_def)
qed

text \<open>One call of the loop, from the timers \<open>ti\<close> to the timers \<open>ti'\<close>.\<close>

definition processed ::
  "int \<Rightarrow> timer_mem \<Rightarrow> timer_queue_internal \<Rightarrow> timer_ptr list \<Rightarrow> timer_mem \<Rightarrow> timer_queue_internal \<Rightarrow> bool" where
  "processed now mem ti ps mem' ti' \<longleftrightarrow>
     ti_inv mem' ti' \<and> (\<forall>x \<in> set (ti_timers ti'). now < node_deadline mem' x) \<and>
     subseq ps (due_timers now mem ti) \<and>
     (\<forall>p \<in> set (due_timers now mem ti). p \<notin> set ps \<longrightarrow> tm_cancelled (mem' p)) \<and>
     snd ` set (ti_timers ti') =
       {p \<in> snd ` set (ti_timers ti). p \<in> set (due_timers now mem ti) \<longrightarrow> p \<in> set ps \<and> \<not> tm_oneshot (mem p)} \<and>
     (\<forall>p. p \<notin> set ps \<longrightarrow> tm_deadline (mem' p) = tm_deadline (mem p)) \<and>
     (\<forall>p. tm_oneshot (mem' p) = tm_oneshot (mem p) \<and> (tm_cancelled (mem p) \<longrightarrow> tm_cancelled (mem' p)))"

definition env_ok :: "(nat \<Rightarrow> timer_mem \<Rightarrow> timer_mem) \<Rightarrow> bool" where
  "env_ok env \<longleftrightarrow> timer_env env \<and> (\<forall>k mem p. frequency_ok (mem p) \<longrightarrow> frequency_ok (env k mem p))"

definition timers_ok :: "(addr \<Rightarrow> exn option) \<Rightarrow> timer_mem \<Rightarrow> timer_queue_internal \<Rightarrow> bool" where
  "timers_ok refuses mem ti \<longleftrightarrow> ti_inv mem ti \<and> (\<forall>p \<in> snd ` set (ti_timers ti). frequency_ok (mem p) \<and> postable refuses (mem p))"

lemma env_timers_ok:
  assumes "env_ok env" "timers_ok refuses mem ti"
  shows "timers_ok refuses (env k mem) ti" "due_timers now (env k mem) ti = due_timers now mem ti"
proof -
  have f: "tm_deadline (env k mem p) = tm_deadline (mem p)" "tm_executor (env k mem p) = tm_executor (mem p)" for p
    using assms(1) timer_env_fields by (simp_all add: env_ok_def)
  have "ti_inv (env k mem) ti" by (rule ti_inv_cong [of mem]) (use assms(2) f in \<open>auto simp: timers_ok_def\<close>)
  with assms f show "timers_ok refuses (env k mem) ti" by (auto simp: timers_ok_def env_ok_def postable_def)
  show "due_timers now (env k mem) ti = due_timers now mem ti"
    unfolding due_timers_def by (subst takeWhile_deadline_cong [of _ "env k mem" mem]) (simp_all add: f)
qed

lemma processed_cong:
  assumes "processed now mem1 ti ps mem' ti'" "due_timers now mem1 ti = due_timers now mem ti"
    "\<And>p. tm_deadline (mem1 p) = tm_deadline (mem p)" "\<And>p. tm_oneshot (mem1 p) = tm_oneshot (mem p)"
    "\<And>p. tm_cancelled (mem p) \<Longrightarrow> tm_cancelled (mem1 p)"
  shows "processed now mem ti ps mem' ti'"
  using assms(1,5) unfolding processed_def assms(2) assms(3) assms(4) by blast

lemma subseq_set_subset: "subseq xs ys \<Longrightarrow> set xs \<subseteq> set ys"
  by (auto simp: subseq_conv_nths dest: in_set_nthsD)

lemma due_timers_head:
  assumes "ti_inv mem ti" "ti_timers ti = (n, p) # rest" "timer_expired now (mem p)"
  shows "due_timers now mem ti = p # map snd (takeWhile (\<lambda>x. node_deadline mem x \<le> now) rest)"
    "p \<notin> snd ` set rest" "p \<notin> set (map snd (takeWhile (\<lambda>x. node_deadline mem x \<le> now) rest))"
proof -
  show "due_timers now mem ti = p # map snd (takeWhile (\<lambda>x. node_deadline mem x \<le> now) rest)"
    using assms(2,3) by (simp add: due_timers_def timer_expired_def node_deadline_def)
  show *: "p \<notin> snd ` set rest" using assms(1,2) by (simp add: ti_inv_def)
  show "p \<notin> set (map snd (takeWhile (\<lambda>x. node_deadline mem x \<le> now) rest))"
    using * set_takeWhileD by fastforce
qed

text \<open>The three ways a round of the loop deals with the first timer.\<close>

lemma processed_cancelled:
  assumes "ti_inv mem ti" "ti_timers ti = (n, p) # rest" "timer_expired now (mem p)" "tm_cancelled (mem p)"
    and pr: "processed now mem (ti\<lparr>ti_timers := rest, ti_mapper := mp\<rparr>) ps mem' ti'"
  shows "processed now mem ti ps mem' ti'"
proof -
  let ?due = "map snd (takeWhile (\<lambda>x. node_deadline mem x \<le> now) rest)"
  note h = due_timers_head [OF assms(1-3)]
  have due: "due_timers now mem (ti\<lparr>ti_timers := rest, ti_mapper := mp\<rparr>) = ?due" by (simp add: due_timers_def)
  note pr' = pr [unfolded processed_def due, simplified]
  have "p \<notin> set ps" using pr' h(3) subseq_set_subset [of ps ?due] by auto
  then have "snd ` set (ti_timers ti') =
      {q \<in> snd ` set (ti_timers ti). q \<in> set (p # ?due) \<longrightarrow> q \<in> set ps \<and> \<not> tm_oneshot (mem q)}"
    using pr' h(2) assms(2) by auto
  moreover have "\<forall>q \<in> set (p # ?due). q \<notin> set ps \<longrightarrow> tm_cancelled (mem' q)" using pr' assms(4) by auto
  moreover have "subseq ps (p # ?due)" using pr' by auto
  ultimately show ?thesis using pr' unfolding processed_def h(1) by blast
qed

lemma processed_fired:
  assumes "ti_inv mem ti" "ti_timers ti = (n, p) # rest" "timer_expired now (mem p)"
    and t: "tm_oneshot t = tm_oneshot (mem p)" "tm_cancelled t = tm_cancelled (mem p)"
    and due: "due_timers now (mem(p := t)) ti1 = map snd (takeWhile (\<lambda>x. node_deadline mem x \<le> now) rest)"
    and timers: "snd ` set (ti_timers ti1) = (if tm_oneshot t then snd ` set rest else insert p (snd ` set rest))"
    and pr: "processed now (mem(p := t)) ti1 ps mem' ti'"
  shows "processed now mem ti (p # ps) mem' ti'"
proof -
  let ?due = "map snd (takeWhile (\<lambda>x. node_deadline mem x \<le> now) rest)"
  note h = due_timers_head [OF assms(1-3)]
  have one: "tm_oneshot ((mem(p := t)) q) = tm_oneshot (mem q)" "tm_cancelled ((mem(p := t)) q) = tm_cancelled (mem q)" for q
    using t by simp_all
  note pr' = pr [unfolded processed_def due one]
  from pr' have sub: "subseq ps ?due" by blast
  then have "p \<notin> set ps" using h(3) subseq_set_subset by blast
  from pr' have "snd ` set (ti_timers ti') =
      {q \<in> snd ` set (ti_timers ti1). q \<in> set ?due \<longrightarrow> q \<in> set ps \<and> \<not> tm_oneshot (mem q)}" by blast
  then have "snd ` set (ti_timers ti') =
      {q \<in> snd ` set (ti_timers ti). q \<in> set (p # ?due) \<longrightarrow> q \<in> set (p # ps) \<and> \<not> tm_oneshot (mem q)}"
    unfolding timers assms(2) using h(2,3) t(1) by auto
  moreover have "subseq (p # ps) (p # ?due)" using sub by simp
  moreover have "\<forall>q \<in> set (p # ?due). q \<notin> set (p # ps) \<longrightarrow> tm_cancelled (mem' q)" using pr' by auto
  moreover have "\<forall>q. q \<notin> set (p # ps) \<longrightarrow> tm_deadline (mem' q) = tm_deadline (mem q)" using pr' by auto
  ultimately show ?thesis using pr' unfolding processed_def h(1) by blast
qed

text \<open>The timers after the first one has been fired with the new state \<open>t\<close>.\<close>

definition after_fire :: "timer_mem \<Rightarrow> timer_queue_internal \<Rightarrow> timer_state \<Rightarrow> timer_queue_internal" where
  "after_fire mem ti t =
     (case ti_timers ti of
        [] \<Rightarrow> ti
      | (n, p) # rest \<Rightarrow>
          if tm_oneshot t then ti\<lparr>ti_timers := rest, ti_mapper := mapper_erase p (ti_mapper ti)\<rparr>
          else ti\<lparr>ti_timers := timer_set_insert (mem(p := t)) (n, p) rest, ti_mapper := (p, n) # mapper_erase p (ti_mapper ti)\<rparr>)"

lemma process_loop_fired:
  assumes "ti_inv (env k mem) ti" "ti_timers ti = (n, p) # rest" "timer_expired now (env k mem p)"
    "\<not> tm_cancelled (env k mem p)" "timer_fire refuses (clock k) (env k mem p) = Inr (ex, t)"
  shows "process_loop (Suc fuel) refuses clock env now k mem ti =
     map_option (\<lambda>r. bind_outcome r (\<lambda>(ps, m, i). Inr (p # ps, m, i)))
       (process_loop fuel refuses clock env now (Suc k) ((env k mem)(p := t)) (after_fire (env k mem) ti t))"
proof -
  have "map_of (ti_mapper ti) p = Some n" using ti_inv_mapper(1) [OF assms(1), of p n] assms(2) by simp
  with assms(2-5) show ?thesis by (simp add: after_fire_def Let_def del: fun_upd_apply)
qed

lemma after_fire_ok:
  assumes "timers_ok refuses mem ti" "ti_timers ti = (n, p) # rest"
    and t: "t = (mem p)\<lparr>tm_deadline := d\<rparr>" "tm_oneshot t \<or> now < d"
  shows "timers_ok refuses (mem(p := t)) (after_fire mem ti t)"
    "due_timers now (mem(p := t)) (after_fire mem ti t) = map snd (takeWhile (\<lambda>x. node_deadline mem x \<le> now) rest)"
    "snd ` set (ti_timers (after_fire mem ti t)) = (if tm_oneshot t then snd ` set rest else insert p (snd ` set rest))"
proof -
  have inv: "ti_inv mem ti" using assms(1) by (simp add: timers_ok_def)
  have new: "p \<notin> snd ` set rest" using inv assms(2) by (simp add: ti_inv_def)
  show set: "snd ` set (ti_timers (after_fire mem ti t)) = (if tm_oneshot t then snd ` set rest else insert p (snd ` set rest))"
    using assms(2) by (simp add: after_fire_def)
  have "ti_inv (mem(p := t)) (after_fire mem ti t)"
  proof (cases "tm_oneshot t")
    case True
    have "ti_inv (mem(p := t)) (ti\<lparr>ti_timers := rest, ti_mapper := mapper_erase p (ti_mapper ti)\<rparr>)"
      by (rule ti_inv_cong [OF ti_inv_drop_head [OF inv assms(2)]]) (use new in auto)
    with True assms(2) show ?thesis by (simp add: after_fire_def)
  next
    case False
    with ti_inv_reinsert [OF inv assms(2), of t] assms(2) show ?thesis by (simp add: after_fire_def del: fun_upd_apply)
  qed
  moreover have "frequency_ok ((mem(p := t)) q) \<and> postable refuses ((mem(p := t)) q)"
    if "q \<in> snd ` set (ti_timers (after_fire mem ti t))" for q
  proof -
    have "q \<in> snd ` set (ti_timers ti)" using that set assms(2) by (auto split: if_splits)
    then have "frequency_ok (mem q) \<and> postable refuses (mem q)" using assms(1) unfolding timers_ok_def by blast
    then show ?thesis using t(1) by (cases "q = p") (simp_all add: frequency_ok_def postable_def)
  qed
  ultimately show "timers_ok refuses (mem(p := t)) (after_fire mem ti t)" by (simp add: timers_ok_def)
  have tw: "takeWhile (\<lambda>x. node_deadline (mem(p := t)) x \<le> now) rest = takeWhile (\<lambda>x. node_deadline mem x \<le> now) rest"
    by (rule takeWhile_deadline_cong) (use new in auto)
  have "now < node_deadline (mem(p := t)) (n, p)" if "\<not> tm_oneshot t"
    using that t by (simp add: node_deadline_def)
  from takeWhile_timer_set_insert [OF this, of rest] tw
  show "due_timers now (mem(p := t)) (after_fire mem ti t) = map snd (takeWhile (\<lambda>x. node_deadline mem x \<le> now) rest)"
    using assms(2) by (simp add: due_timers_def after_fire_def del: fun_upd_apply)
qed

lemma process_loop_ok:
  assumes env: "env_ok env" and clock: "clock_ok clock"
    and "timers_ok refuses mem ti" "length (due_timers (clock 0) mem ti) < fuel"
  shows "\<exists>ps mem' ti'. process_loop fuel refuses clock env (clock 0) k mem ti = Some (Inr (ps, mem', ti')) \<and>
           processed (clock 0) mem ti ps mem' ti'"
  using assms(3,4)
proof (induction fuel arbitrary: k mem ti)
  case (Suc fuel)
  let ?now = "clock 0" and ?mem = "env k mem"
  note ok = env_timers_ok(1) [OF env Suc.prems(1), of k] env_timers_ok(2) [OF env Suc.prems(1), of ?now k]
  then have inv: "ti_inv ?mem ti" by (simp add: timers_ok_def)
  have whole: "processed ?now mem ti ps mem' ti'" if "processed ?now ?mem ti ps mem' ti'" for ps mem' ti'
    by (rule processed_cong [OF that ok(2)]) (use env timer_env_fields in \<open>auto simp: env_ok_def\<close>)
  consider (none) "ti_timers ti = []" | (waiting) n p rest where "ti_timers ti = (n, p) # rest" "\<not> timer_expired ?now (?mem p)"
    | (cancelled) n p rest where "ti_timers ti = (n, p) # rest" "timer_expired ?now (?mem p)" "tm_cancelled (?mem p)"
    | (fired) n p rest where "ti_timers ti = (n, p) # rest" "timer_expired ?now (?mem p)" "\<not> tm_cancelled (?mem p)"
    by (metis neq_Nil_conv prod.exhaust)
  then show ?case
  proof cases
    case none
    with Suc.prems show ?thesis by (auto simp: processed_def timers_ok_def due_timers_def)
  next
    case waiting
    then have "processed ?now ?mem ti [] ?mem ti"
      using inv by (auto simp: processed_def due_timers_def ti_inv_def timer_expired_def node_deadline_def)
    with whole waiting show ?thesis by auto
  next
    case cancelled
    let ?i = "ti\<lparr>ti_timers := rest, ti_mapper := mapper_erase p (ti_mapper ti)\<rparr>"
    have "timers_ok refuses ?mem ?i" using ok(1) cancelled(1) ti_inv_drop_head [OF inv cancelled(1)] by (simp add: timers_ok_def)
    moreover have "length (due_timers ?now ?mem ?i) < fuel"
      using Suc.prems(2) unfolding ok(2) [symmetric] due_timers_head(1) [OF inv cancelled(1,2)]
      by (simp add: due_timers_def)
    ultimately obtain ps mem' ti' where r: "process_loop fuel refuses clock env ?now (Suc k) ?mem ?i = Some (Inr (ps, mem', ti'))"
      "processed ?now ?mem ?i ps mem' ti'" using Suc.IH by blast
    from whole [OF processed_cancelled [OF inv cancelled r(2)]] r(1) cancelled show ?thesis by simp
  next
    case fired
    let ?t = "(?mem p)\<lparr>tm_deadline := clock k + sint (tm_frequency (?mem p)) * 1000000\<rparr>"
    let ?i = "after_fire ?mem ti ?t"
    have pok: "frequency_ok (?mem p)" "postable refuses (?mem p)" using ok(1) fired(1) by (auto simp: timers_ok_def)
    obtain ex where f: "timer_fire refuses (clock k) (?mem p) = Inr (ex, ?t)"
      using timer_fire_ok [OF pok(1) clock pok(2)] by blast
    have "?now \<le> clock k" using clock by (simp add: clock_ok_def)
    then have "tm_oneshot ?t \<or> ?now < clock k + sint (tm_frequency (?mem p)) * 1000000"
      using pok(1) by (auto simp: frequency_ok_def)
    note a = after_fire_ok [OF ok(1) fired(1) refl this]
    have "length (due_timers ?now (?mem(p := ?t)) ?i) < fuel"
      using Suc.prems(2) unfolding ok(2) [symmetric] due_timers_head(1) [OF inv fired(1,2)] a(2) by simp
    with a(1) obtain ps mem' ti' where
      r: "process_loop fuel refuses clock env ?now (Suc k) (?mem(p := ?t)) ?i = Some (Inr (ps, mem', ti'))"
      "processed ?now (?mem(p := ?t)) ?i ps mem' ti'" using Suc.IH by blast
    have "processed ?now ?mem ti (p # ps) mem' ti'"
      by (rule processed_fired [OF inv fired(1,2) _ _ a(2,3) r(2)]) simp_all
    moreover have "process_loop (Suc fuel) refuses clock env ?now k mem ti = Some (Inr (p # ps, mem', ti'))"
      unfolding process_loop_fired [where env = env and k = k and mem = mem and clock = clock, OF inv fired f] r(1) by simp
    ultimately show ?thesis using whole by blast
  qed
qed simp

section \<open>Requests\<close>

text \<open>Requests that respect the contract of the queue: a timer is added at most once while it is in the collection, and
  removed only when it is cancelled or has a single shot.\<close>

fun requests_ok :: "timer_mem \<Rightarrow> timer_ptr set \<Rightarrow> request_queue \<Rightarrow> bool" where
  "requests_ok mem P [] \<longleftrightarrow> True"
| "requests_ok mem P ((p, Add_timer) # rs) \<longleftrightarrow> p \<notin> P \<and> requests_ok mem (insert p P) rs"
| "requests_ok mem P ((p, Remove_timer) # rs) \<longleftrightarrow>
     (tm_oneshot (mem p) \<or> tm_cancelled (mem p)) \<and> requests_ok mem (P - {p}) rs"

fun requested_set :: "timer_ptr set \<Rightarrow> request_queue \<Rightarrow> timer_ptr set" where
  "requested_set P [] = P"
| "requested_set P ((p, Add_timer) # rs) = requested_set (insert p P) rs"
| "requested_set P ((p, Remove_timer) # rs) = requested_set (P - {p}) rs"

definition live_timers :: "timer_queue_internal \<Rightarrow> timer_ptr set" where
  "live_timers ti = snd ` set (ti_timers ti)"

lemma remove_timer_ok:
  assumes "ti_inv mem ti" "tm_oneshot (mem p) \<or> tm_cancelled (mem p)"
  shows "\<exists>ti'. remove_timer_internal mem p ti = Inr ti' \<and> ti_inv mem ti' \<and> live_timers ti' = live_timers ti - {p}"
proof (cases "map_of (ti_mapper ti) p")
  case None
  then have "p \<notin> live_timers ti" using ti_inv_mapper(2) [OF assms(1)] by (simp add: live_timers_def)
  with None assms show ?thesis by (simp add: remove_timer_internal_def)
next
  case (Some n)
  then have n: "(n, p) \<in> set (ti_timers ti)" using ti_inv_mapper(1) [OF assms(1)] by simp
  let ?ts = "filter (\<lambda>x. fst x \<noteq> n) (ti_timers ti)"
  have d: "distinct (map fst (ti_timers ti))" "distinct (map snd (ti_timers ti))" using assms(1) by (simp_all add: ti_inv_def)
  have same: "fst x = n \<longleftrightarrow> snd x = p" if "x \<in> set (ti_timers ti)" for x
  proof -
    obtain m q where x: "x = (m, q)" by (cases x)
    show ?thesis
    proof
      assume "fst x = n"
      with that n x show "snd x = p" using eq_key_imp_eq_value [OF d(1), of n] by auto
    next
      assume "snd x = p"
      moreover have "inj_on snd (set (ti_timers ti))" using d(2) by (simp add: distinct_map)
      ultimately have "x = (n, p)" using that n by (simp add: inj_on_def)
      then show "fst x = n" by simp
    qed
  qed
  have "set (mapper_erase p (ti_mapper ti)) = prod.swap ` set ?ts"
    using assms(1) same by (auto simp: ti_inv_def)
  moreover have "sorted (map (node_deadline mem) ?ts)" using assms(1) by (simp add: ti_inv_def sorted_filter)
  ultimately have "ti_inv mem (ti\<lparr>ti_timers := ?ts, ti_mapper := mapper_erase p (ti_mapper ti)\<rparr>)"
    using assms(1) by (simp add: ti_inv_def distinct_map_filter distinct_mapper_erase del: mapper_erase_set)
  moreover have "snd ` set ?ts = live_timers ti - {p}" using same by (auto simp: live_timers_def)
  moreover have "n \<in> fst ` set (ti_timers ti)" using n by force
  ultimately show ?thesis using Some by (auto simp: remove_timer_internal_def live_timers_def)
qed

lemma process_request_queue_ok:
  assumes "ti_inv mem ti" "requests_ok mem (live_timers ti) rs"
  shows "\<exists>ti'. process_request_queue mem rs ti = Inr ti' \<and> ti_inv mem ti' \<and> live_timers ti' = requested_set (live_timers ti) rs"
  using assms
proof (induction rs arbitrary: ti)
  case (Cons r rs)
  obtain p opt where r: "r = (p, opt)" by (cases r)
  have "\<exists>ti1. process_request_queue mem (r # rs) ti = process_request_queue mem rs ti1 \<and> ti_inv mem ti1 \<and>
      requests_ok mem (live_timers ti1) rs \<and> requested_set (live_timers ti1) rs = requested_set (live_timers ti) (r # rs)"
  proof (cases opt)
    case Add_timer
    with Cons.prems r have "p \<notin> snd ` set (ti_timers ti)" "requests_ok mem (insert p (live_timers ti)) rs"
      by (simp_all add: live_timers_def)
    with ti_inv_add [OF Cons.prems(1), of p] r Add_timer show ?thesis by (auto simp: live_timers_def)
  next
    case Remove_timer
    with Cons.prems r remove_timer_ok [OF Cons.prems(1), of p] show ?thesis by auto
  qed
  with Cons.IH show ?case by metis
qed simp

lemma set_due_timers:
  assumes "ti_inv mem ti"
  shows "set (due_timers now mem ti) = {p \<in> live_timers ti. tm_deadline (mem p) \<le> now}"
proof -
  have "takeWhile (\<lambda>x. node_deadline mem x \<le> now) xs = filter (\<lambda>x. node_deadline mem x \<le> now) xs"
    if "sorted (map (node_deadline mem) xs)" for xs
    using that by (induction xs) (auto intro!: filter_False [symmetric])
  with assms have "takeWhile (\<lambda>x. node_deadline mem x \<le> now) (ti_timers ti) =
      filter (\<lambda>x. node_deadline mem x \<le> now) (ti_timers ti)" by (simp add: ti_inv_def)
  then show ?thesis by (auto simp: due_timers_def live_timers_def node_deadline_def)
qed

section \<open>Processing the queue\<close>

lemma due_timers_ordered:
  assumes "ti_inv mem ti" "subseq ps (due_timers now mem ti)"
  shows "distinct ps" "sorted (map (\<lambda>p. tm_deadline (mem p)) ps)"
proof -
  let ?ts = "takeWhile (\<lambda>x. node_deadline mem x \<le> now) (ti_timers ti)"
  have pre: "prefix (map f ?ts) (map f (ti_timers ti))" for f :: "nat \<times> timer_ptr \<Rightarrow> 'a"
    by (simp add: map_mono_prefix takeWhile_is_prefix)
  have "distinct (map snd ?ts)" using pre [of snd] assms(1) by (auto simp: ti_inv_def elim: prefixE)
  then show "distinct ps" using assms(2) by (auto simp: due_timers_def subseq_conv_nths intro: distinct_nthsI)
  have "sorted (map (node_deadline mem) ?ts)"
    using pre [of "node_deadline mem"] assms(1) by (auto simp: ti_inv_def sorted_append elim: prefixE)
  moreover have "map (node_deadline mem) ?ts = map (\<lambda>p. tm_deadline (mem p)) (due_timers now mem ti)"
    by (simp add: due_timers_def node_deadline_def)
  moreover have "subseq (map (\<lambda>p. tm_deadline (mem p)) ps) (map (\<lambda>p. tm_deadline (mem p)) (due_timers now mem ti))"
    using assms(2) by (rule subseq_map)
  ultimately show "sorted (map (\<lambda>p. tm_deadline (mem p)) ps)" by (auto simp: subseq_conv_nths intro: sorted_nths)
qed


definition demo_timer :: "int \<Rightarrow> bool \<Rightarrow> timer_state" where
  "demo_timer deadline oneshot = \<lparr>tm_due_time = 5, tm_frequency = 7, tm_deadline = deadline, tm_cancelled = False,
     tm_oneshot = oneshot, tm_executor = Some 1, tm_queue = 0, tm_callable = 0\<rparr>"

definition demo_mem :: timer_mem where
  "demo_mem = (\<lambda>p. if p = 1 then demo_timer 50 True else if p = 2 then demo_timer 40 False else demo_timer 900 False)"

lemma env_ok_id: "env_ok (\<lambda>_. id)"
proof -
  have "\<exists>f c. mem p = (mem p)\<lparr>tm_frequency := f, tm_cancelled := tm_cancelled (mem p) \<or> c\<rparr>"
    for mem :: timer_mem and p
    by (intro exI [of _ "tm_frequency (mem p)"] exI [of _ False]) simp
  then show ?thesis by (simp add: env_ok_def timer_env_def)
qed


lemma process_timers_loop:
  assumes "process_timers fuel refuses clock env queue mem ti = Some (Inr (ps, nx, mem', ti'))"
  shows "\<exists>ti1 ti2. process_loop fuel refuses clock env (clock 0) 1 mem ti1 = Some (Inr (ps, mem', ti2))"
proof -
  obtain ti1 where q: "process_request_queue mem queue ti = Inr ti1"
    using assms by (cases "process_request_queue mem queue ti") (simp_all add: process_timers_def)
  with assms obtain r where l: "process_loop fuel refuses clock env (clock 0) 1 mem ti1 = Some r"
    by (auto simp: process_timers_def Let_def)
  with assms q obtain qs m ti2 where r: "r = Inr (qs, m, ti2)"
    by (cases r) (auto simp: process_timers_def Let_def)
  with assms q l have "qs = ps \<and> m = mem'"
    by (cases "ti_timers ti2") (auto simp: process_timers_def Let_def bind_outcome_Inr_iff)
  with l r show ?thesis by blast
qed

text \<open>A cancelled timer never runs again.  Once \<^verbatim>\<open>cancel\<close> has returned, no pass of the queue posts the timer, whatever
  the clock, the other timers and the other threads do, and a task of the timer that an executor still holds does
  nothing when it is run.  Cancelling twice is the same as cancelling once.\<close>

lemma cancelled_timer_never_runs:
  assumes "timer_env env" "timer_cancel alive (mem, rs) \<lparr>th_state = Some p\<rparr> = ((mem1, rs1), h)"
    and "process_timers fuel refuses clock env queue mem1 ti = Some (Inr (ps, nx, mem2, ti'))"
  shows "p \<notin> set ps \<and> timer_execute (mem1 p) = None \<and> timer_execute (mem2 p) = None \<and>
         timer_cancel alive (mem1, rs1) h = ((mem1, rs1), h)"
proof -
  have c: "tm_cancelled (mem1 p)" and h: "th_state h = None" using assms(2) by (auto simp: timer_cancel_def)
  obtain ti1 ti2 where "process_loop fuel refuses clock env (clock 0) 1 mem1 ti1 = Some (Inr (ps, mem2, ti2))"
    using process_timers_loop [OF assms(3)] by blast
  from process_loop_cancelled [OF assms(1) this, of p] c h show ?thesis
    by (simp add: timer_execute_def timer_cancel_def)
qed

lemma cancelled_timer_never_runs_witness:
  "\<exists>nx mem2 ti'. process_timers 3 (\<lambda>_. None) (\<lambda>_. 100) (\<lambda>_. id) [(1, Add_timer), (2, Add_timer)]
       (demo_mem(2 := (demo_mem 2)\<lparr>tm_cancelled := True\<rparr>)) internal_init = Some (Inr ([1], nx, mem2, ti')) \<and>
     timer_execute (mem2 2) = None"
proof -
  let ?mem = "demo_mem(2 := (demo_mem 2)\<lparr>tm_cancelled := True\<rparr>)"
  have env: "timer_env (\<lambda>_. id)" using env_ok_id by (simp add: env_ok_def)
  have cancel: "timer_cancel True (demo_mem, []) \<lparr>th_state = Some 2\<rparr> = ((?mem, [(2, Remove_timer)]), \<lparr>th_state = None\<rparr>)"
    by (simp add: timer_cancel_def)
  have "\<exists>nx mem2 ti'. process_timers 3 (\<lambda>_. None) (\<lambda>_. 100) (\<lambda>_. id) [(1, Add_timer), (2, Add_timer)] ?mem internal_init =
      Some (Inr ([1], nx, mem2, ti'))"
    by (simp add: process_timers_def internal_init_def add_timer_internal_def demo_mem_def demo_timer_def node_deadline_def
        timer_expired_def timer_fire_def make_deadline_def in_int64_def mapper_erase_def internal_empty_def
        numeral_3_eq_3 Let_def)
  then obtain nx mem2 ti' where run:
    "process_timers 3 (\<lambda>_. None) (\<lambda>_. 100) (\<lambda>_. id) [(1, Add_timer), (2, Add_timer)] ?mem internal_init =
      Some (Inr ([1], nx, mem2, ti'))" by blast
  from cancelled_timer_never_runs [OF env cancel run] run show ?thesis by blast
qed

text \<open>C28: the arithmetic of deadlines.  A due time is stored in an unsigned word and read back as the same signed count.
  The deadline is the current time plus the due time, and creating the timer is well defined exactly when the due time in
  nanoseconds and that sum fit into 64 bits; for the largest durations of \<^verbatim>\<open>milliseconds\<close> they do not.\<close>

theorem timer_deadline_bounds:
  assumes "0 \<le> now" "now < 2 ^ 63" "- (2 ^ 63) \<le> due" "due < 2 ^ 63"
  shows "((\<exists>t. timer_state_new now (word_of_int due) frequency (Some ex) queue oneshot callable = Inr t) \<longleftrightarrow>
            - (2 ^ 63) \<le> due * 1000000 \<and> now + due * 1000000 < 2 ^ 63) \<and>
         (\<forall>t. timer_state_new now (word_of_int due) frequency (Some ex) queue oneshot callable = Inr t \<longrightarrow>
            tm_deadline t = now + due * 1000000 \<and> timer_get_due_time (\<lambda>_. t) \<lparr>th_state = Some p\<rparr> = Inr due) \<and>
         timer_state_new now (word_of_int (2 ^ 63 - 1)) frequency (Some ex) queue oneshot callable =
           Inl (Undefined_behaviour ''signed overflow'')"
proof -
  have s: "sint (word_of_int d :: 64 word) = d" if "- (2 ^ 63) \<le> d" "d < 2 ^ 63" for d
    using that by (simp add: int_word_sint)
  show ?thesis
    using assms s [of due] s [of "2 ^ 63 - 1"]
    by (auto simp: timer_state_new_def make_deadline_def in_int64_def Let_def timer_get_due_time_def
        timer_throw_if_empty_def bind_outcome_def split: if_splits)
qed

theorem timer_deadline_bounds_witness:
  "\<exists>t. timer_state_new 1000 (word_of_int (- 5)) 0 (Some 1) 0 True 0 = Inr t \<and> tm_deadline t = 1000 - 5000000 \<and>
     timer_get_due_time (\<lambda>_. t) \<lparr>th_state = Some 0\<rparr> = Inr (- 5)"
  using timer_deadline_bounds [of 1000 "- 5" 0 1 0 True 0 0] by auto

end
