(* ===== verification/Timer_Queue.thy ===== *)
theory Timer_Queue
  imports Timer
begin

text \<open>
  The timer queue (\<^verbatim>\<open>source/timers/timer_queue.cpp\<close>) as an interleaving of the threads that create and cancel timers,
  the threads that run \<^verbatim>\<open>work_loop\<close>, and \<^verbatim>\<open>shutdown\<close>.  A critical section of \<^verbatim>\<open>m_lock\<close> is one step, and so is a call of
  \<^verbatim>\<open>process_timers\<close>, in which the stores of other threads to the flags and frequencies are part of the step.
\<close>

section \<open>A pass is safe whatever the clock does\<close>

definition same_timer :: "timer_state \<Rightarrow> timer_state \<Rightarrow> bool" where
  "same_timer t t' \<longleftrightarrow> tm_oneshot t' = tm_oneshot t \<and> tm_executor t' = tm_executor t \<and> (tm_cancelled t \<longrightarrow> tm_cancelled t')"

lemma same_timer_refl [simp]: "same_timer t t"
  by (simp add: same_timer_def)

lemma same_timer_trans: "same_timer a b \<Longrightarrow> same_timer b c \<Longrightarrow> same_timer a c"
  by (simp add: same_timer_def)

definition loop_safe ::
  "(addr \<Rightarrow> exn option) \<Rightarrow> timer_mem \<Rightarrow> timer_queue_internal \<Rightarrow>
     (timer_ptr list \<times> timer_mem \<times> timer_queue_internal) outcome \<Rightarrow> bool" where
  "loop_safe refuses mem ti r \<longleftrightarrow>
     (case r of
        Inl e \<Rightarrow> e = Undefined_behaviour ''signed overflow'' \<or> (\<exists>ex. refuses ex = Some e)
      | Inr (ps, mem', ti') \<Rightarrow>
          ti_inv mem' ti' \<and> live_timers ti' \<subseteq> live_timers ti \<and> set ps \<subseteq> live_timers ti \<and>
          (\<forall>p \<in> live_timers ti. p \<in> live_timers ti' \<or> tm_cancelled (mem' p) \<or> tm_oneshot (mem p) \<and> p \<in> set ps) \<and>
          (\<forall>p. same_timer (mem p) (mem' p)) \<and> (\<forall>p. p \<notin> live_timers ti \<longrightarrow> tm_deadline (mem' p) = tm_deadline (mem p)))"

lemma timer_env_same: "timer_env env \<Longrightarrow> same_timer (mem p) (env k mem p)"
  using timer_env_fields by (simp add: same_timer_def)

lemma after_fire_inv:
  assumes "ti_inv mem ti" "ti_timers ti = (n, p) # rest"
  shows "ti_inv (mem(p := t)) (after_fire mem ti t)"
    "live_timers (after_fire mem ti t) = (if tm_oneshot t then live_timers ti - {p} else live_timers ti)"
proof -
  have new: "p \<notin> snd ` set rest" using assms by (simp add: ti_inv_def)
  show "ti_inv (mem(p := t)) (after_fire mem ti t)"
  proof (cases "tm_oneshot t")
    case True
    have "ti_inv (mem(p := t)) (ti\<lparr>ti_timers := rest, ti_mapper := mapper_erase p (ti_mapper ti)\<rparr>)"
      by (rule ti_inv_cong [OF ti_inv_drop_head [OF assms]]) (use new in auto)
    with True assms(2) show ?thesis by (simp add: after_fire_def)
  next
    case False
    with ti_inv_reinsert [OF assms, of t] assms(2) show ?thesis by (simp add: after_fire_def del: fun_upd_apply)
  qed
  show "live_timers (after_fire mem ti t) = (if tm_oneshot t then live_timers ti - {p} else live_timers ti)"
    using new assms(2) by (simp add: after_fire_def live_timers_def)
qed

lemma loop_safe_env:
  assumes "timer_env env" "loop_safe refuses (env k mem) ti r"
  shows "loop_safe refuses mem ti r"
proof (cases r)
  case (Inl e)
  with assms(2) show ?thesis by (simp add: loop_safe_def)
next
  case (Inr x)
  obtain ps mem' ti' where x: "x = (ps, mem', ti')" by (cases x)
  note s = assms(2) [unfolded loop_safe_def Inr x sum.case prod.case timer_env_fields(1,2) [OF assms(1)]]
  have "same_timer (mem p) (mem' p)" for p
    using s by (blast intro: same_timer_trans [OF timer_env_same [OF assms(1)]])
  with s Inr x show ?thesis by (simp add: loop_safe_def)
qed

lemma loop_safe_fired:
  assumes "loop_safe refuses (mem(p := t)) ti1 r" "same_timer (mem p) t" "p \<in> live_timers ti"
    and "live_timers ti1 = (if tm_oneshot t then live_timers ti - {p} else live_timers ti)"
  shows "loop_safe refuses mem ti (bind_outcome r (\<lambda>(ps, m, i). Inr (p # ps, m, i)))"
proof (cases r)
  case (Inl e)
  with assms(1) show ?thesis by (simp add: loop_safe_def)
next
  case (Inr x)
  obtain ps mem' ti' where x: "x = (ps, mem', ti')" by (cases x)
  note s = assms(1) [unfolded loop_safe_def Inr x sum.case prod.case]
  have one: "tm_oneshot ((mem(p := t)) q) = tm_oneshot (mem q)" for q using assms(2) by (simp add: same_timer_def)
  have "same_timer (mem q) (mem' q)" for q
  proof -
    have "same_timer ((mem(p := t)) q) (mem' q)" using s by blast
    moreover have "same_timer (mem q) ((mem(p := t)) q)" using assms(2) by simp
    ultimately show ?thesis by (rule same_timer_trans [rotated])
  qed
  moreover have "live_timers ti' \<subseteq> live_timers ti" "set (p # ps) \<subseteq> live_timers ti" "ti_inv mem' ti'"
    using s assms(3,4) by (auto split: if_splits)
  moreover have "q \<in> live_timers ti' \<or> tm_cancelled (mem' q) \<or> tm_oneshot (mem q) \<and> q \<in> set (p # ps)"
    if "q \<in> live_timers ti" for q
  proof (cases "q = p \<and> tm_oneshot t")
    case True
    with one [of p] show ?thesis by simp
  next
    case False
    with that assms(4) have "q \<in> live_timers ti1" by auto
    with s one [of q] show ?thesis by auto
  qed
  moreover have "tm_deadline (mem' q) = tm_deadline (mem q)" if "q \<notin> live_timers ti" for q
  proof -
    have "q \<noteq> p" "q \<notin> live_timers ti1" using that assms(3,4) by auto
    with s show ?thesis by auto
  qed
  ultimately show ?thesis using Inr x by (simp add: loop_safe_def)
qed

lemma process_loop_safe:
  assumes env: "timer_env env" and "ti_inv mem ti" "\<And>p. p \<in> live_timers ti \<Longrightarrow> tm_executor (mem p) \<noteq> None"
    and "process_loop fuel refuses clock env now k mem ti = Some r"
  shows "loop_safe refuses mem ti r"
  using assms(2-4)
proof (induction fuel arbitrary: k mem ti r)
  case (Suc fuel)
  let ?mem = "env k mem"
  have inv: "ti_inv ?mem ti"
    by (rule ti_inv_cong [OF Suc.prems(1)]) (simp add: timer_env_fields(1) [OF env])
  have ex: "tm_executor (?mem p) \<noteq> None" if "p \<in> live_timers ti" for p
    using Suc.prems(2) [OF that] timer_env_fields(3) [OF env] by simp
  consider (none) "ti_timers ti = []" | (waiting) n p rest where "ti_timers ti = (n, p) # rest" "\<not> timer_expired now (?mem p)"
    | (cancelled) n p rest where "ti_timers ti = (n, p) # rest" "timer_expired now (?mem p)" "tm_cancelled (?mem p)"
    | (fired) n p rest where "ti_timers ti = (n, p) # rest" "timer_expired now (?mem p)" "\<not> tm_cancelled (?mem p)"
    by (metis neq_Nil_conv prod.exhaust)
  then show ?case
  proof cases
    case none
    with Suc.prems show ?thesis by (auto simp: loop_safe_def live_timers_def)
  next
    case waiting
    with Suc.prems(3) have "r = Inr ([], ?mem, ti)" by simp
    then have "loop_safe refuses ?mem ti r" using inv by (simp add: loop_safe_def)
    then show ?thesis by (rule loop_safe_env [OF env])
  next
    case cancelled
    let ?i = "ti\<lparr>ti_timers := rest, ti_mapper := mapper_erase p (ti_mapper ti)\<rparr>"
    have l: "process_loop fuel refuses clock env now (Suc k) ?mem ?i = Some r" using Suc.prems(3) cancelled by (simp add: Let_def)
    have live: "live_timers ti = insert p (live_timers ?i)" using cancelled(1) by (simp add: live_timers_def)
    have "loop_safe refuses ?mem ?i r"
      by (rule Suc.IH [OF ti_inv_drop_head [OF inv cancelled(1)] _ l]) (use ex live in auto)
    then have "loop_safe refuses ?mem ti r"
      using cancelled(3) unfolding loop_safe_def live same_timer_def by (auto split: sum.splits)
    then show ?thesis by (rule loop_safe_env [OF env])
  next
    case fired
    have p: "p \<in> live_timers ti" using fired(1) by (simp add: live_timers_def)
    have "loop_safe refuses ?mem ti r"
    proof (cases "timer_fire refuses (clock k) (?mem p)")
      case (Inl e)
      with Suc.prems(3) fired have "r = Inl e" by (simp add: Let_def)
      moreover have "e = Undefined_behaviour ''signed overflow'' \<or> (\<exists>ex. refuses ex = Some e)"
        using Inl ex [OF p] by (auto simp: timer_fire_def make_deadline_def Let_def split: if_splits option.splits)
      ultimately show ?thesis by (simp add: loop_safe_def)
    next
      case (Inr x)
      obtain exe t where f: "timer_fire refuses (clock k) (?mem p) = Inr (exe, t)" using Inr by (cases x) simp
      then have t: "same_timer (?mem p) t" by (auto simp: timer_fire_Inr same_timer_def)
      obtain r1 where l: "process_loop fuel refuses clock env now (Suc k) (?mem(p := t)) (after_fire ?mem ti t) = Some r1"
        "r = bind_outcome r1 (\<lambda>(ps, m, i). Inr (p # ps, m, i))"
        using Suc.prems(3) process_loop_fired [where env = env and k = k and mem = mem and clock = clock, OF inv fired f]
        by auto
      note a = after_fire_inv [OF inv fired(1), of t]
      have "loop_safe refuses (?mem(p := t)) (after_fire ?mem ti t) r1"
      proof (rule Suc.IH [OF a(1) _ l(1)])
        fix q
        assume "q \<in> live_timers (after_fire ?mem ti t)"
        then have "q \<in> live_timers ti" using a(2) by (auto split: if_splits)
        then show "tm_executor ((?mem(p := t)) q) \<noteq> None" using ex [of q] t by (auto simp: same_timer_def)
      qed
      from loop_safe_fired [OF this t p a(2)] l(2) show ?thesis by simp
    qed
    then show ?thesis by (rule loop_safe_env [OF env])
  qed
qed simp

text \<open>A pass with requests that respect the contract.\<close>

lemma process_timers_safe:
  assumes "timer_env env" "ti_inv mem ti" "requests_ok mem (live_timers ti) rs"
    and "\<And>p. p \<in> requested_set (live_timers ti) rs \<Longrightarrow> tm_executor (mem p) \<noteq> None"
    and "process_timers fuel refuses clock env rs mem ti = Some r"
  shows "\<exists>ti1. ti_inv mem ti1 \<and> live_timers ti1 = requested_set (live_timers ti) rs \<and>
           loop_safe refuses mem ti1 (map_sum id (\<lambda>(ps, nx, mem', ti'). (ps, mem', ti')) r)"
proof -
  obtain ti1 where ti1: "process_request_queue mem rs ti = Inr ti1" "ti_inv mem ti1"
    "live_timers ti1 = requested_set (live_timers ti) rs" using process_request_queue_ok [OF assms(2,3)] by blast
  with assms(5) obtain l where l: "process_loop fuel refuses clock env (clock 0) 1 mem ti1 = Some l"
    by (auto simp: process_timers_def Let_def)
  have safe: "loop_safe refuses mem ti1 l"
    by (rule process_loop_safe [OF assms(1) ti1(2) _ l]) (use assms(4) ti1(3) in auto)
  have "loop_safe refuses mem ti1 (map_sum id (\<lambda>(ps, nx, mem', ti'). (ps, mem', ti')) r)"
  proof (cases l)
    case (Inl e)
    with assms(5) ti1(1) l have "r = Inl e" by (simp add: process_timers_def Let_def)
    with safe Inl show ?thesis by simp
  next
    case (Inr x)
    obtain ps mem' ti2 where x: "x = (ps, mem', ti2)" by (cases x)
    then have inv: "ti_inv mem' ti2" using safe Inr by (simp add: loop_safe_def)
    show ?thesis
    proof (cases "ti_timers ti2")
      case Nil
      then have "r = Inr (ps, clock 0 + hours_24, mem', ti2\<lparr>ti_timers := [], ti_mapper := []\<rparr>)"
        using assms(5) ti1(1) l Inr x ti_inv_mapper(3) [OF inv] by (simp add: process_timers_def Let_def internal_empty_def)
      moreover have "live_timers (ti2\<lparr>ti_timers := [], ti_mapper := []\<rparr>) = live_timers ti2" using Nil by (simp add: live_timers_def)
      moreover have "ti_inv mem' (ti2\<lparr>ti_timers := [], ti_mapper := []\<rparr>)" by (simp add: ti_inv_def)
      ultimately show ?thesis using safe Inr x by (simp add: loop_safe_def)
    next
      case (Cons y ys)
      then have "r = Inr (ps, node_deadline mem' y, mem', ti2)"
        using assms(5) ti1(1) l Inr x by (simp add: process_timers_def Let_def)
      then show ?thesis using safe Inr x by simp
    qed
  qed
  with ti1(2,3) show ?thesis by blast
qed

section \<open>The system\<close>

text \<open>A thread of the queue waits at the lock with its collection of timers, or works on the requests it has taken.\<close>

datatype tq_pc = W_none | W_lock timer_queue_internal | W_process request_queue timer_queue_internal | W_exited

datatype tq_stop = Q_running | Q_requested | Q_joining nat | Q_stopped

record tq_sys =
  tq_mem :: timer_mem
  tq_requests :: request_queue
  tq_atomic_abort :: bool
  tq_abort :: bool
  tq_idle :: bool
  tq_worker :: "nat option"         \<comment> \<open>\<^verbatim>\<open>m_worker\<close>, if joinable\<close>
  tq_pc :: "nat \<Rightarrow> tq_pc"
  tq_threads :: nat                 \<comment> \<open>how many threads have been started\<close>
  tq_olds :: "nat list"             \<comment> \<open>idle threads that \<^verbatim>\<open>add_timer\<close> is about to join\<close>
  tq_joined :: "nat list"
  tq_stop :: tq_stop
  tq_history :: request_queue       \<comment> \<open>all requests made\<close>
  tq_posted :: "timer_ptr list"     \<comment> \<open>all timers fired\<close>

definition tq_init :: "timer_mem \<Rightarrow> tq_sys" where
  "tq_init mem = \<lparr>tq_mem = mem, tq_requests = [], tq_atomic_abort = False, tq_abort = False, tq_idle = True, tq_worker = None,
     tq_pc = (\<lambda>_. W_none), tq_threads = 0, tq_olds = [], tq_joined = [], tq_stop = Q_running, tq_history = [], tq_posted = []\<rparr>"

definition ensure_worker_thread :: "tq_sys \<Rightarrow> nat list \<times> tq_sys" where
  "ensure_worker_thread s =
     (if \<not> tq_idle s then ([], s)
      else ((case tq_worker s of None \<Rightarrow> [] | Some old \<Rightarrow> [old]),
            s\<lparr>tq_worker := Some (tq_threads s), tq_pc := (tq_pc s)(tq_threads s := W_lock internal_init),
              tq_threads := tq_threads s + 1, tq_idle := False\<rparr>))"

definition add_internal_timer :: "timer_ptr \<Rightarrow> tq_sys \<Rightarrow> tq_sys" where
  "add_internal_timer p s =
     s\<lparr>tq_requests := tq_requests s @ [(p, Add_timer)], tq_history := tq_history s @ [(p, Add_timer)]\<rparr>"

definition remove_internal_timer :: "timer_ptr \<Rightarrow> tq_sys \<Rightarrow> tq_sys" where
  "remove_internal_timer p s =
     s\<lparr>tq_requests := tq_requests s @ [(p, Remove_timer)], tq_history := tq_history s @ [(p, Remove_timer)]\<rparr>"

definition add_timer :: "timer_ptr \<Rightarrow> tq_sys \<Rightarrow> tq_sys outcome" where
  "add_timer p s =
     (if tq_abort s then Inl (Runtime_shutdown k_timer_queue_shutdown_err_msg)
      else let (old, s1) = ensure_worker_thread s in Inr ((add_internal_timer p s1)\<lparr>tq_olds := tq_olds s1 @ old\<rparr>))"

definition make_timer_impl ::
  "int \<Rightarrow> 64 word \<Rightarrow> 64 word \<Rightarrow> addr option \<Rightarrow> bool \<Rightarrow> nat \<Rightarrow> timer_ptr \<Rightarrow> tq_sys \<Rightarrow> tq_sys outcome" where
  "make_timer_impl now due_time frequency executor is_oneshot callable p s =
     bind_outcome (assert_that (executor \<noteq> None) ''static_cast<bool>(executor)'') (\<lambda>_.
     bind_outcome (timer_state_new now due_time frequency executor 0 is_oneshot callable) (\<lambda>t.
       add_timer p (s\<lparr>tq_mem := (tq_mem s)(p := t)\<rparr>)))"

definition make_timer ::
  "int \<Rightarrow> int \<Rightarrow> int \<Rightarrow> addr option \<Rightarrow> nat \<Rightarrow> timer_ptr \<Rightarrow> tq_sys \<Rightarrow> (timer_handle \<times> tq_sys) outcome" where
  "make_timer now due_time frequency executor callable p s =
     (if executor = None then Inl (Invalid_argument k_timer_queue_make_timer_executor_null_err_msg)
      else bind_outcome (make_timer_impl now (word_of_int due_time) (word_of_int frequency) executor False callable p s)
             (\<lambda>s'. Inr (\<lparr>th_state = Some p\<rparr>, s')))"

definition make_one_shot_timer ::
  "int \<Rightarrow> int \<Rightarrow> addr option \<Rightarrow> nat \<Rightarrow> timer_ptr \<Rightarrow> tq_sys \<Rightarrow> (timer_handle \<times> tq_sys) outcome" where
  "make_one_shot_timer now due_time executor callable p s =
     (if executor = None then Inl (Invalid_argument k_timer_queue_make_oneshot_timer_executor_null_err_msg)
      else bind_outcome (make_timer_impl now (word_of_int due_time) 0 executor True callable p s)
             (\<lambda>s'. Inr (\<lparr>th_state = Some p\<rparr>, s')))"

text \<open>A delay object: awaiting it creates a timer with a single shot whose callable resumes the coroutine.  When that
  throws, the exception is swallowed, since the destroyed functor has resumed the coroutine already.\<close>

definition make_delay_object :: "addr option \<Rightarrow> addr outcome" where
  "make_delay_object executor =
     (case executor of None \<Rightarrow> Inl (Invalid_argument k_timer_queue_make_delay_object_executor_null_err_msg) | Some ex \<Rightarrow> Inr ex)"

definition delay_await_suspend :: "int \<Rightarrow> int \<Rightarrow> addr \<Rightarrow> nat \<Rightarrow> timer_ptr \<Rightarrow> tq_sys \<Rightarrow> tq_sys" where
  "delay_await_suspend now due_time executor functor p s =
     (case make_timer_impl now (word_of_int due_time) 0 (Some executor) True functor p s of Inl e \<Rightarrow> s | Inr s' \<Rightarrow> s')"

definition delay_await_resume :: "bool \<Rightarrow> unit outcome" where
  "delay_await_resume interrupted = (if interrupted then Inl (Broken_task k_broken_task_exception_error_msg) else Inr ())"

definition tq_shutdown_requested :: "tq_sys \<Rightarrow> bool" where
  "tq_shutdown_requested s = tq_atomic_abort s"

text \<open>The top of \<^verbatim>\<open>work_loop\<close>: the wait ends when there is something to do, or by its time limit.\<close>

definition work_wait :: "bool \<Rightarrow> nat \<Rightarrow> tq_sys \<Rightarrow> tq_sys outcome option" where
  "work_wait timed_out n s =
     (case tq_pc s n of
        W_lock i \<Rightarrow>
          let ready = (tq_requests s \<noteq> [] \<or> tq_abort s) in
          if \<not> ready \<and> \<not> timed_out then None
          else Some (bind_outcome (internal_empty i) (\<lambda>empty.
                 if empty \<and> \<not> ready then Inr (s\<lparr>tq_idle := True, tq_pc := (tq_pc s)(n := W_exited)\<rparr>)
                 else if tq_abort s then Inr (s\<lparr>tq_pc := (tq_pc s)(n := W_exited)\<rparr>)
                 else Inr (s\<lparr>tq_requests := [], tq_pc := (tq_pc s)(n := W_process (tq_requests s) i)\<rparr>)))
      | _ \<Rightarrow> None)"

text \<open>An exception in the thread ends the program.\<close>

definition work_process ::
  "nat \<Rightarrow> (addr \<Rightarrow> exn option) \<Rightarrow> (nat \<Rightarrow> int) \<Rightarrow> (nat \<Rightarrow> timer_mem \<Rightarrow> timer_mem) \<Rightarrow> nat \<Rightarrow> tq_sys \<Rightarrow> tq_sys outcome option" where
  "work_process fuel refuses clock env n s =
     (case tq_pc s n of
        W_process rs i \<Rightarrow>
          map_option (\<lambda>r. case r of
              Inl e \<Rightarrow> Inl (Terminated e)
            | Inr (ps, nx, mem', i') \<Rightarrow>
                Inr (s\<lparr>tq_mem := mem', tq_posted := tq_posted s @ ps, tq_pc := (tq_pc s)(n := W_lock i')\<rparr>))
            (process_timers fuel refuses clock env rs (tq_mem s) i)
      | _ \<Rightarrow> None)"

text \<open>\<^verbatim>\<open>shutdown\<close>; a second call returns at the first test.\<close>

definition tq_shutdown_step :: "tq_sys \<Rightarrow> tq_sys option" where
  "tq_shutdown_step s =
     (case tq_stop s of
        Q_running \<Rightarrow> Some (s\<lparr>tq_atomic_abort := True, tq_stop := Q_requested\<rparr>)
      | Q_requested \<Rightarrow>
          Some (case tq_worker s of
              None \<Rightarrow> s\<lparr>tq_abort := True, tq_stop := Q_stopped\<rparr>
            | Some w \<Rightarrow> s\<lparr>tq_abort := True, tq_requests := [], tq_stop := Q_joining w\<rparr>)
      | Q_joining w \<Rightarrow>
          (if tq_pc s w = W_exited
           then Some (s\<lparr>tq_worker := None, tq_joined := tq_joined s @ [w], tq_stop := Q_stopped\<rparr>) else None)
      | Q_stopped \<Rightarrow> None)"

definition tq_destructor :: "tq_sys \<Rightarrow> unit outcome" where
  "tq_destructor s = assert_that (tq_worker s = None) ''!m_worker.joinable()''"

datatype tq_event =
    E_make int "64 word" "64 word" addr bool nat timer_ptr
  | E_cancel timer_ptr
  | E_remove timer_ptr
  | E_frequency timer_ptr "64 word"
  | E_wait bool nat
  | E_process nat "addr \<Rightarrow> exn option" "nat \<Rightarrow> int" "nat \<Rightarrow> timer_mem \<Rightarrow> timer_mem" nat
  | E_join nat
  | E_shutdown

definition known :: "timer_ptr \<Rightarrow> tq_sys \<Rightarrow> bool" where
  "known p s \<longleftrightarrow> p \<in> fst ` set (tq_history s)"

text \<open>The two stores of \<^verbatim>\<open>timer::cancel\<close> are separate steps.  A call of \<^verbatim>\<open>make_timer\<close> that throws leaves the queue as it is.\<close>

fun tq_exec :: "tq_event \<Rightarrow> tq_sys \<Rightarrow> tq_sys outcome option" where
  "tq_exec (E_make now due frequency ex oneshot callable p) s =
     (if known p s then None
      else Some (case make_timer_impl now due frequency (Some ex) oneshot callable p s of
          Inl e \<Rightarrow> (if e = Runtime_shutdown k_timer_queue_shutdown_err_msg then Inr s else Inl e)
        | Inr s' \<Rightarrow> Inr s'))"
| "tq_exec (E_cancel p) s =
     (if known p s then Some (Inr (s\<lparr>tq_mem := (tq_mem s)(p := (tq_mem s p)\<lparr>tm_cancelled := True\<rparr>)\<rparr>)) else None)"
| "tq_exec (E_remove p) s =
     (if known p s \<and> tm_cancelled (tq_mem s p) then Some (Inr (remove_internal_timer p s)) else None)"
| "tq_exec (E_frequency p f) s =
     (if known p s then Some (Inr (s\<lparr>tq_mem := (tq_mem s)(p := (tq_mem s p)\<lparr>tm_frequency := f\<rparr>)\<rparr>)) else None)"
| "tq_exec (E_wait timed_out n) s = work_wait timed_out n s"
| "tq_exec (E_process fuel refuses clock env n) s = work_process fuel refuses clock env n s"
| "tq_exec (E_join n) s =
     (if n \<in> set (tq_olds s) \<and> tq_pc s n = W_exited
      then Some (Inr (s\<lparr>tq_olds := remove1 n (tq_olds s), tq_joined := tq_joined s @ [n]\<rparr>)) else None)"
| "tq_exec E_shutdown s = map_option Inr (tq_shutdown_step s)"

fun tq_event_ok :: "tq_event \<Rightarrow> bool" where
  "tq_event_ok (E_process fuel refuses clock env n) \<longleftrightarrow> timer_env env"
| "tq_event_ok _ \<longleftrightarrow> True"

inductive tq_reachable :: "tq_sys \<Rightarrow> bool" where
  tq_start: "tq_reachable (tq_init mem)"
| tq_step: "tq_reachable s \<Longrightarrow> tq_event_ok e \<Longrightarrow> tq_exec e s = Some (Inr s') \<Longrightarrow> tq_reachable s'"

section \<open>Where the timers are\<close>

definition adds :: "request_queue \<Rightarrow> timer_ptr list" where
  "adds rs = map fst (filter (\<lambda>r. snd r = Add_timer) rs)"

lemma adds_append [simp]: "adds (xs @ ys) = adds xs @ adds ys"
  by (simp add: adds_def)

lemma adds_simps [simp]:
  "adds [] = []" "adds ((p, Add_timer) # rs) = p # adds rs" "adds ((p, Remove_timer) # rs) = adds rs"
  by (simp_all add: adds_def)

lemma set_adds: "p \<in> set (adds rs) \<longleftrightarrow> (p, Add_timer) \<in> set rs"
  by (force simp: adds_def)

lemma requests_ok_adds:
  assumes "distinct (adds rs)" "set (adds rs) \<inter> P = {}" "\<And>p. (p, Remove_timer) \<in> set rs \<Longrightarrow> tm_cancelled (mem p)"
  shows "requests_ok mem P rs \<and> requested_set P rs \<subseteq> P \<union> set (adds rs) \<and>
         (\<forall>p \<in> P \<union> set (adds rs). p \<in> requested_set P rs \<or> (p, Remove_timer) \<in> set rs)"
  using assms
proof (induction rs arbitrary: P)
  case (Cons r rs)
  obtain p opt where r: "r = (p, opt)" by (cases r)
  show ?case
  proof (cases opt)
    case Add_timer
    have "set (adds rs) \<inter> insert p P = {}" using Cons.prems r Add_timer by auto
    with Cons.IH [of "insert p P"] Cons.prems r Add_timer show ?thesis by auto
  next
    case Remove_timer
    have "set (adds rs) \<inter> (P - {p}) = {}" using Cons.prems r Remove_timer by auto
    with Cons.IH [of "P - {p}"] Cons.prems r Remove_timer show ?thesis by auto
  qed
qed simp

text \<open>The contract between the requests and the collection, and that no timer gets lost.\<close>

definition timer_facts :: "timer_mem \<Rightarrow> timer_queue_internal \<Rightarrow> request_queue \<Rightarrow> request_queue \<Rightarrow> bool" where
  "timer_facts mem i pending history \<longleftrightarrow>
     ti_inv mem i \<and> distinct (adds pending) \<and> set (adds pending) \<inter> live_timers i = {} \<and>
     (\<forall>p. (p, Remove_timer) \<in> set pending \<longrightarrow> tm_cancelled (mem p)) \<and>
     live_timers i \<union> fst ` set pending \<subseteq> fst ` set history \<and> (\<forall>p \<in> fst ` set history. tm_executor (mem p) \<noteq> None)"

definition timers_kept ::
  "timer_mem \<Rightarrow> timer_queue_internal \<Rightarrow> request_queue \<Rightarrow> request_queue \<Rightarrow> timer_ptr list \<Rightarrow> bool" where
  "timers_kept mem i pending history posted \<longleftrightarrow>
     (\<forall>p. (p, Add_timer) \<in> set history \<longrightarrow>
        tm_cancelled (mem p) \<or> (p, Add_timer) \<in> set pending \<or> p \<in> live_timers i \<or> tm_oneshot (mem p) \<and> p \<in> set posted)"

lemma timer_facts_mem:
  assumes "timer_facts mem i pending history" "\<And>p. same_timer (mem p) (mem' p)"
    "\<And>p. tm_deadline (mem' p) = tm_deadline (mem p)"
  shows "timer_facts mem' i pending history"
proof -
  have "ti_inv mem' i" by (rule ti_inv_cong [of mem]) (use assms(1,3) in \<open>auto simp: timer_facts_def\<close>)
  with assms(1,2) show ?thesis unfolding timer_facts_def same_timer_def by metis
qed

lemma timers_kept_mem:
  "timers_kept mem i pending history posted \<Longrightarrow> (\<And>p. same_timer (mem p) (mem' p)) \<Longrightarrow> timers_kept mem' i pending history posted"
  unfolding timers_kept_def same_timer_def by metis

lemma timer_facts_add:
  assumes "timer_facts mem i pending history" "p \<notin> fst ` set history" "tm_executor t \<noteq> None"
  shows "timer_facts (mem(p := t)) i (pending @ [(p, Add_timer)]) (history @ [(p, Add_timer)])"
proof -
  have p: "p \<notin> live_timers i" "p \<notin> fst ` set pending" using assms(1,2) by (auto simp: timer_facts_def)
  then have "p \<notin> set (adds pending)" by (force simp: set_adds)
  moreover have "ti_inv (mem(p := t)) i"
    by (rule ti_inv_cong [of mem]) (use assms(1) p in \<open>auto simp: timer_facts_def live_timers_def\<close>)
  ultimately show ?thesis using assms p by (auto simp: timer_facts_def rev_image_eqI)
qed

lemma timers_kept_add:
  assumes "timers_kept mem i pending history posted" "p \<notin> fst ` set history"
  shows "timers_kept (mem(p := t)) i (pending @ [(p, Add_timer)]) (history @ [(p, Add_timer)]) posted"
  using assms unfolding timers_kept_def by (auto simp: rev_image_eqI)

lemma timer_facts_process:
  assumes "timer_facts mem i (rs @ rest) history"
    and "live_timers ti1 = requested_set (live_timers i) rs" "loop_safe refuses mem ti1 (Inr (ps, mem', i'))"
  shows "timer_facts mem' i' rest history"
    "timers_kept mem i (rs @ rest) history posted \<Longrightarrow> timers_kept mem' i' rest history (posted @ ps)"
proof -
  note f = assms(1) [unfolded timer_facts_def]
  note l = assms(3) [unfolded loop_safe_def sum.case prod.case]
  have r: "requested_set (live_timers i) rs \<subseteq> live_timers i \<union> set (adds rs)"
    "\<forall>p \<in> live_timers i \<union> set (adds rs). p \<in> requested_set (live_timers i) rs \<or> (p, Remove_timer) \<in> set rs"
    using requests_ok_adds [of rs "live_timers i" mem] f by (auto simp: Int_Un_distrib2)
  have same: "same_timer (mem p) (mem' p)" for p using l by blast
  have live: "live_timers i' \<subseteq> live_timers i \<union> set (adds rs)" using l assms(2) r(1) by blast
  have "set (adds rs) \<subseteq> fst ` set (rs @ rest)" by (auto simp: adds_def)
  moreover have "live_timers i \<subseteq> fst ` set history" "fst ` set (rs @ rest) \<subseteq> fst ` set history"
    using f by (simp_all add: le_sup_iff)
  ultimately have "live_timers i' \<subseteq> fst ` set history" using live by (meson Un_least order_trans)
  moreover have "set (adds rest) \<inter> (live_timers i \<union> set (adds rs)) = {}" using f by auto
  then have "set (adds rest) \<inter> live_timers i' = {}" using live by blast
  moreover have "\<forall>p. (p, Remove_timer) \<in> set rest \<longrightarrow> tm_cancelled (mem' p)" using f same by (auto simp: same_timer_def)
  moreover have "\<forall>p \<in> fst ` set history. tm_executor (mem' p) \<noteq> None" using f same unfolding same_timer_def by metis
  ultimately show "timer_facts mem' i' rest history" using f l by (auto simp: timer_facts_def)
  assume k: "timers_kept mem i (rs @ rest) history posted"
  show "timers_kept mem' i' rest history (posted @ ps)"
    unfolding timers_kept_def
  proof (intro allI impI)
    fix p
    assume "(p, Add_timer) \<in> set history"
    with k consider "tm_cancelled (mem p)" | "p \<in> live_timers i \<union> set (adds rs)" | "(p, Add_timer) \<in> set rest"
      | "tm_oneshot (mem p)" "p \<in> set posted" by (auto simp: timers_kept_def set_adds)
    then show "tm_cancelled (mem' p) \<or> (p, Add_timer) \<in> set rest \<or> p \<in> live_timers i' \<or>
        tm_oneshot (mem' p) \<and> p \<in> set (posted @ ps)"
    proof cases
      case 2
      with r(2) consider "p \<in> live_timers ti1" | "(p, Remove_timer) \<in> set rs" using assms(2) by blast
      then show ?thesis
      proof cases
        case 1
        with l have "p \<in> live_timers i' \<or> tm_cancelled (mem' p) \<or> tm_oneshot (mem p) \<and> p \<in> set ps" by blast
        with same [of p] show ?thesis by (auto simp: same_timer_def)
      next
        case 2
        with f same [of p] show ?thesis by (auto simp: same_timer_def)
      qed
    qed (use same [of p] in \<open>auto simp: same_timer_def\<close>)
  qed
qed

section \<open>Invariants of the system\<close>

fun in_loop :: "tq_pc \<Rightarrow> bool" where
  "in_loop (W_lock i) \<longleftrightarrow> True" | "in_loop (W_process rs i) \<longleftrightarrow> True" | "in_loop W_none \<longleftrightarrow> False" | "in_loop W_exited \<longleftrightarrow> False"

definition worker_list :: "tq_sys \<Rightarrow> nat list" where
  "worker_list s = (case tq_worker s of None \<Rightarrow> [] | Some w \<Rightarrow> [w])"

definition threads_inv :: "tq_sys \<Rightarrow> bool" where
  "threads_inv s \<longleftrightarrow>
     (\<forall>n. tq_pc s n = W_none \<longleftrightarrow> tq_threads s \<le> n) \<and>
     (\<forall>n. in_loop (tq_pc s n) \<longrightarrow> tq_worker s = Some n \<and> \<not> tq_idle s) \<and>
     (\<not> tq_idle s \<and> \<not> tq_abort s \<longrightarrow> (\<exists>w. tq_worker s = Some w \<and> in_loop (tq_pc s w))) \<and>
     mset (tq_joined s @ tq_olds s @ worker_list s) = mset [0..<tq_threads s]"

definition stop_inv :: "tq_sys \<Rightarrow> bool" where
  "stop_inv s \<longleftrightarrow>
     (tq_atomic_abort s \<longleftrightarrow> tq_stop s \<noteq> Q_running) \<and>
     (case tq_stop s of
        Q_running \<Rightarrow> \<not> tq_abort s | Q_requested \<Rightarrow> \<not> tq_abort s
      | Q_joining w \<Rightarrow> tq_abort s \<and> tq_worker s = Some w
      | Q_stopped \<Rightarrow> tq_abort s \<and> tq_worker s = None)"

text \<open>The collection and the taken requests of the thread in the loop.\<close>

fun timers_of :: "tq_pc \<Rightarrow> timer_queue_internal \<times> request_queue" where
  "timers_of (W_lock i) = (i, [])" | "timers_of (W_process rs i) = (i, rs)"
| "timers_of W_none = (internal_init, [])" | "timers_of W_exited = (internal_init, [])"

definition current_timers :: "tq_sys \<Rightarrow> timer_queue_internal \<times> request_queue" where
  "current_timers s = timers_of (case tq_worker s of None \<Rightarrow> W_none | Some w \<Rightarrow> tq_pc s w)"

definition tq_internal :: "tq_sys \<Rightarrow> timer_queue_internal" where
  "tq_internal s = fst (current_timers s)"

definition tq_pending :: "tq_sys \<Rightarrow> request_queue" where
  "tq_pending s = snd (current_timers s) @ tq_requests s"

definition tq_inv :: "tq_sys \<Rightarrow> bool" where
  "tq_inv s \<longleftrightarrow>
     threads_inv s \<and> stop_inv s \<and> (tq_idle s \<longrightarrow> adds (tq_requests s) = []) \<and>
     timer_facts (tq_mem s) (tq_internal s) (tq_pending s) (tq_history s) \<and>
     (\<not> tq_abort s \<longrightarrow> timers_kept (tq_mem s) (tq_internal s) (tq_pending s) (tq_history s) (tq_posted s))"

lemmas tq_current_defs = tq_internal_def tq_pending_def current_timers_def

lemma tq_inv_init: "tq_inv (tq_init mem)"
  by (simp add: tq_inv_def threads_inv_def stop_inv_def tq_init_def tq_current_defs timer_facts_def timers_kept_def
      ti_inv_def internal_init_def live_timers_def worker_list_def)

lemma internal_init_empty [simp]: "live_timers internal_init = {}" "ti_inv mem internal_init"
  by (simp_all add: live_timers_def internal_init_def ti_inv_def)

text \<open>Stores to the fields of a timer other than the deadline.\<close>

lemma tq_inv_mem:
  assumes "tq_inv s" "\<And>p. same_timer (tq_mem s p) (mem p)" "\<And>p. tm_deadline (mem p) = tm_deadline (tq_mem s p)"
  shows "tq_inv (s\<lparr>tq_mem := mem\<rparr>)"
proof -
  have eq: "tq_internal (s\<lparr>tq_mem := mem\<rparr>) = tq_internal s" "tq_pending (s\<lparr>tq_mem := mem\<rparr>) = tq_pending s"
    "worker_list (s\<lparr>tq_mem := mem\<rparr>) = worker_list s"
    by (simp_all add: tq_current_defs worker_list_def cong: option.case_cong)
  have "timer_facts mem (tq_internal s) (tq_pending s) (tq_history s)"
    by (rule timer_facts_mem [of "tq_mem s"]) (use assms in \<open>auto simp: tq_inv_def\<close>)
  moreover have "\<not> tq_abort s \<longrightarrow> timers_kept mem (tq_internal s) (tq_pending s) (tq_history s) (tq_posted s)"
    using timers_kept_mem [of "tq_mem s"] assms(1,2) by (simp add: tq_inv_def)
  ultimately show ?thesis using assms(1) by (simp add: tq_inv_def threads_inv_def stop_inv_def eq cong: tq_stop.case_cong)
qed

lemma tq_inv_make:
  assumes "tq_inv s" "\<not> known p s" "make_timer_impl now due frequency (Some ex) oneshot callable p s = Inr s'"
  shows "tq_inv s'"
proof -
  obtain t where t: "timer_state_new now due frequency (Some ex) 0 oneshot callable = Inr t"
    "add_timer p (s\<lparr>tq_mem := (tq_mem s)(p := t)\<rparr>) = Inr s'"
    using assms(3) by (auto simp: make_timer_impl_def bind_outcome_Inr_iff)
  then have ex: "tm_executor t \<noteq> None" by (auto simp: timer_state_new_def bind_outcome_Inr_iff)
  have new: "p \<notin> fst ` set (tq_history s)" using assms(2) by (simp add: known_def)
  have ab: "\<not> tq_abort s" using t(2) by (auto simp: add_timer_def split: if_splits)
  let ?mem = "(tq_mem s)(p := t)" and ?r = "[(p, Add_timer)]"
  have f: "timer_facts ?mem (tq_internal s) (tq_pending s @ ?r) (tq_history s @ ?r)"
    "timers_kept ?mem (tq_internal s) (tq_pending s @ ?r) (tq_history s @ ?r) (tq_posted s)"
    using timer_facts_add [OF _ new ex] timers_kept_add [OF _ new] assms(1) ab by (simp_all add: tq_inv_def)
  have th: "threads_inv s" and st: "stop_inv s" using assms(1) by (simp_all add: tq_inv_def)
  show ?thesis
  proof (cases "tq_idle s")
    case False
    then have s': "s' = s\<lparr>tq_mem := ?mem, tq_requests := tq_requests s @ ?r, tq_history := tq_history s @ ?r\<rparr>"
      using t(2) ab by (simp add: add_timer_def ensure_worker_thread_def add_internal_timer_def)
    have "tq_internal s' = tq_internal s" "tq_pending s' = tq_pending s @ ?r"
      by (simp_all add: s' tq_current_defs cong: option.case_cong)
    moreover have "threads_inv s'" using th by (simp add: s' threads_inv_def worker_list_def)
    moreover have "stop_inv s'" using st by (simp add: s' stop_inv_def cong: tq_stop.case_cong)
    ultimately show ?thesis using f False by (simp add: tq_inv_def s')
  next
    case True
    then have s': "s' = s\<lparr>tq_mem := ?mem, tq_worker := Some (tq_threads s),
        tq_pc := (tq_pc s)(tq_threads s := W_lock internal_init), tq_threads := tq_threads s + 1, tq_idle := False,
        tq_requests := tq_requests s @ ?r, tq_history := tq_history s @ ?r, tq_olds := tq_olds s @ worker_list s\<rparr>"
      using t(2) ab by (simp add: add_timer_def ensure_worker_thread_def add_internal_timer_def worker_list_def)
    have none: "\<not> in_loop (tq_pc s w)" for w using th True by (auto simp: threads_inv_def)
    have cur: "current_timers s = (internal_init, [])"
    proof (cases "tq_worker s")
      case (Some w)
      with none [of w] show ?thesis by (cases "tq_pc s w") (simp_all add: current_timers_def)
    qed (simp add: current_timers_def)
    have "tq_internal s' = tq_internal s" "tq_pending s' = tq_pending s @ ?r"
      using cur by (simp_all add: s' tq_internal_def tq_pending_def current_timers_def)
    moreover have "threads_inv s'"
    proof -
      have "mset (tq_joined s @ tq_olds s @ worker_list s) = mset [0..<tq_threads s]"
        "\<forall>n. tq_pc s n = W_none \<longleftrightarrow> tq_threads s \<le> n" using th by (simp_all add: threads_inv_def)
      then show ?thesis using none by (auto simp: s' threads_inv_def worker_list_def)
    qed
    moreover have "stop_inv s'" using st ab by (auto simp: s' stop_inv_def split: tq_stop.splits)
    ultimately show ?thesis using f by (simp add: tq_inv_def s')
  qed
qed

lemma tq_inv_remove:
  assumes "tq_inv s" "known p s" "tm_cancelled (tq_mem s p)"
  shows "tq_inv (remove_internal_timer p s)"
proof -
  let ?s = "remove_internal_timer p s" and ?r = "[(p, Remove_timer)]"
  have "tq_internal ?s = tq_internal s" "tq_pending ?s = tq_pending s @ ?r"
    by (simp_all add: remove_internal_timer_def tq_current_defs cong: option.case_cong)
  moreover have "threads_inv ?s" "stop_inv ?s"
    using assms(1)
    by (simp_all add: tq_inv_def remove_internal_timer_def threads_inv_def worker_list_def stop_inv_def cong: tq_stop.case_cong)
  moreover have "timer_facts (tq_mem s) (tq_internal s) (tq_pending s @ ?r) (tq_history s @ ?r)"
    using assms by (auto simp: tq_inv_def timer_facts_def known_def)
  moreover have "\<not> tq_abort s \<longrightarrow> timers_kept (tq_mem s) (tq_internal s) (tq_pending s @ ?r) (tq_history s @ ?r) (tq_posted s)"
    using assms(1) by (simp add: tq_inv_def timers_kept_def)
  moreover have "tq_idle s \<longrightarrow> adds (tq_requests s) = []" using assms(1) by (simp add: tq_inv_def)
  ultimately show ?thesis by (simp add: tq_inv_def remove_internal_timer_def)
qed

text \<open>A step of the thread in the loop changes its own program counter only.\<close>

lemma threads_inv_pc:
  assumes "threads_inv s" "in_loop (tq_pc s n)" "q \<noteq> W_none" "in_loop q \<or> b \<or> tq_abort s" "in_loop q \<longrightarrow> \<not> b"
  shows "threads_inv (s\<lparr>tq_idle := b, tq_pc := (tq_pc s)(n := q)\<rparr>)"
proof -
  have t: "tq_pc s m = W_none \<longleftrightarrow> tq_threads s \<le> m" "in_loop (tq_pc s m) \<Longrightarrow> tq_worker s = Some m"
    and j: "mset (tq_joined s @ tq_olds s @ worker_list s) = mset [0..<tq_threads s]" for m
    using assms(1) unfolding threads_inv_def by blast+
  let ?s = "s\<lparr>tq_idle := b, tq_pc := (tq_pc s)(n := q)\<rparr>"
  have w: "tq_worker s = Some n" using t(2) assms(2) .
  have "tq_pc s n \<noteq> W_none" using assms(2) by auto
  then have "tq_pc ?s m = W_none \<longleftrightarrow> tq_threads s \<le> m" for m using t(1) [of m] t(1) [of n] assms(3) by (simp del: t)
  moreover have "in_loop (tq_pc ?s m) \<longrightarrow> tq_worker s = Some m \<and> \<not> b" for m
    using t(2) [of m] w assms(5) by (cases "m = n") auto
  moreover have "\<not> b \<and> \<not> tq_abort s \<longrightarrow> (\<exists>w. tq_worker s = Some w \<and> in_loop (tq_pc ?s w))"
    using w assms(4) by auto
  moreover have "worker_list ?s = worker_list s" by (simp add: worker_list_def)
  ultimately show ?thesis using j unfolding threads_inv_def by simp
qed

lemma in_loop_current:
  assumes "threads_inv s" "in_loop (tq_pc s n)"
  shows "tq_worker s = Some n" "current_timers s = timers_of (tq_pc s n)"
  using assms by (auto simp: threads_inv_def current_timers_def)

lemma timer_facts_init: "timer_facts mem i pending history \<Longrightarrow> timer_facts mem internal_init pending history"
  by (simp add: timer_facts_def)

lemma tq_inv_empty:
  assumes "tq_inv s" "tq_pc s n = W_lock i"
  shows "internal_empty i = Inr (ti_timers i = [])"
proof -
  have "current_timers s = (i, [])" using in_loop_current(2) [of s n] assms by (simp add: tq_inv_def)
  then have "ti_inv (tq_mem s) i" using assms(1) by (simp add: tq_inv_def timer_facts_def tq_internal_def)
  from ti_inv_mapper(3) [OF this] show ?thesis by (simp add: internal_empty_def)
qed

lemma tq_inv_wait:
  assumes "tq_inv s" "work_wait timed_out n s = Some r"
  shows "\<exists>s'. r = Inr s' \<and> tq_inv s'"
proof -
  obtain i where pc: "tq_pc s n = W_lock i" using assms(2) by (cases "tq_pc s n") (simp_all add: work_wait_def)
  have th: "threads_inv s" and st: "stop_inv s" using assms(1) by (simp_all add: tq_inv_def)
  have loop: "in_loop (tq_pc s n)" using pc by simp
  have cur: "tq_worker s = Some n" "current_timers s = (i, [])" using in_loop_current [OF th loop] pc by simp_all
  have f: "timer_facts (tq_mem s) i (tq_requests s) (tq_history s)"
    "\<not> tq_abort s \<longrightarrow> timers_kept (tq_mem s) i (tq_requests s) (tq_history s) (tq_posted s)"
    using assms(1) cur(2) by (simp_all add: tq_inv_def tq_internal_def tq_pending_def)
  note emp = tq_inv_empty [OF assms(1) pc]
  let ?exit = "s\<lparr>tq_pc := (tq_pc s)(n := W_exited)\<rparr>"
  consider (idle) "ti_timers i = []" "tq_requests s = []" "\<not> tq_abort s" "r = Inr (s\<lparr>tq_idle := True, tq_pc := (tq_pc s)(n := W_exited)\<rparr>)"
    | (stop) "tq_abort s" "r = Inr ?exit"
    | (work) "\<not> tq_abort s" "r = Inr (s\<lparr>tq_requests := [], tq_pc := (tq_pc s)(n := W_process (tq_requests s) i)\<rparr>)"
    using assms(2) pc emp by (auto simp: work_wait_def Let_def split: if_splits)
  then show ?thesis
  proof cases
    case idle
    let ?s = "s\<lparr>tq_idle := True, tq_pc := (tq_pc s)(n := W_exited)\<rparr>"
    have "current_timers ?s = (internal_init, [])" using cur(1) by (simp add: current_timers_def)
    moreover have "stop_inv ?s" using st by (simp add: stop_inv_def cong: tq_stop.case_cong)
    moreover have "timers_kept (tq_mem s) internal_init [] (tq_history s) (tq_posted s)"
      using f(2) idle by (simp add: timers_kept_def live_timers_def [of i])
    ultimately have "tq_inv ?s"
      using threads_inv_pc [OF th loop, of W_exited True] timer_facts_init [OF f(1)] idle by (simp add: tq_inv_def tq_internal_def tq_pending_def)
    with idle show ?thesis by blast
  next
    case stop
    have "current_timers ?exit = (internal_init, [])" using cur(1) by (simp add: current_timers_def)
    moreover have "stop_inv ?exit" using st by (simp add: stop_inv_def cong: tq_stop.case_cong)
    moreover have "threads_inv ?exit" using threads_inv_pc [OF th loop, of W_exited "tq_idle s"] stop by simp
    ultimately have "tq_inv ?exit"
      using timer_facts_init [OF f(1)] stop assms(1) by (simp add: tq_inv_def tq_internal_def tq_pending_def)
    with stop show ?thesis by blast
  next
    case work
    have idle: "\<not> tq_idle s" using th loop by (auto simp: threads_inv_def)
    let ?s = "s\<lparr>tq_requests := [], tq_pc := (tq_pc s)(n := W_process (tq_requests s) i)\<rparr>"
    have "threads_inv (s\<lparr>tq_idle := False, tq_pc := (tq_pc s)(n := W_process (tq_requests s) i)\<rparr>)"
      by (rule threads_inv_pc [OF th loop]) simp_all
    then have "threads_inv ?s" using idle by (simp add: threads_inv_def worker_list_def)
    moreover have "current_timers ?s = (i, tq_requests s)" using cur(1) by (simp add: current_timers_def)
    moreover have "stop_inv ?s" using st by (simp add: stop_inv_def cong: tq_stop.case_cong)
    ultimately have "tq_inv ?s" using f work(1) by (simp add: tq_inv_def tq_internal_def tq_pending_def)
    with work show ?thesis by blast
  qed
qed

lemma tq_inv_process:
  assumes "tq_inv s" "timer_env env" "work_process fuel refuses clock env n s = Some r"
  shows "(\<exists>s'. r = Inr s' \<and> tq_inv s') \<or>
         (\<exists>e. r = Inl (Terminated e) \<and> (e = Undefined_behaviour ''signed overflow'' \<or> (\<exists>ex. refuses ex = Some e)))"
proof -
  obtain rs i where pc: "tq_pc s n = W_process rs i" using assms(3) by (cases "tq_pc s n") (simp_all add: work_process_def)
  have th: "threads_inv s" and st: "stop_inv s" using assms(1) by (simp_all add: tq_inv_def)
  have loop: "in_loop (tq_pc s n)" using pc by simp
  have cur: "tq_worker s = Some n" "current_timers s = (i, rs)" using in_loop_current [OF th loop] pc by simp_all
  have f: "timer_facts (tq_mem s) i (rs @ tq_requests s) (tq_history s)"
    "\<not> tq_abort s \<longrightarrow> timers_kept (tq_mem s) i (rs @ tq_requests s) (tq_history s) (tq_posted s)"
    using assms(1) cur(2) by (simp_all add: tq_inv_def tq_internal_def tq_pending_def)
  note ff = f(1) [unfolded timer_facts_def]
  have ro: "requests_ok (tq_mem s) (live_timers i) rs" "requested_set (live_timers i) rs \<subseteq> live_timers i \<union> set (adds rs)"
    using requests_ok_adds [of rs "live_timers i" "tq_mem s"] ff by (auto simp: Int_Un_distrib2)
  have "set (adds rs) \<subseteq> fst ` set (rs @ tq_requests s)" by (auto simp: adds_def)
  with ff ro(2) have ex: "tm_executor (tq_mem s p) \<noteq> None" if "p \<in> requested_set (live_timers i) rs" for p
    using that by (meson Un_iff Un_least subsetD)
  obtain l where l: "process_timers fuel refuses clock env rs (tq_mem s) i = Some l"
    using assms(3) pc by (auto simp: work_process_def)
  obtain ti1 where safe: "live_timers ti1 = requested_set (live_timers i) rs"
    "loop_safe refuses (tq_mem s) ti1 (map_sum id (\<lambda>(ps, nx, mem', ti'). (ps, mem', ti')) l)"
    using process_timers_safe [OF assms(2) _ ro(1) ex l] ff by blast
  show ?thesis
  proof (cases l)
    case (Inl e)
    with assms(3) pc l have "r = Inl (Terminated e)" by (simp add: work_process_def)
    with Inl safe(2) show ?thesis by (simp add: loop_safe_def)
  next
    case (Inr x)
    obtain ps nx mem' i' where x: "x = (ps, nx, mem', i')" by (cases x)
    let ?s = "s\<lparr>tq_mem := mem', tq_posted := tq_posted s @ ps, tq_pc := (tq_pc s)(n := W_lock i')\<rparr>"
    have r: "r = Inr ?s" using assms(3) pc l Inr x by (simp add: work_process_def)
    have ls: "loop_safe refuses (tq_mem s) ti1 (Inr (ps, mem', i'))" using safe(2) Inr x by simp
    have g: "timer_facts mem' i' (tq_requests s) (tq_history s)"
      "\<not> tq_abort s \<longrightarrow> timers_kept mem' i' (tq_requests s) (tq_history s) (tq_posted s @ ps)"
      using timer_facts_process [OF f(1) safe(1) ls] f(2) by blast+
    have idle: "\<not> tq_idle s" using th loop by (auto simp: threads_inv_def)
    have "threads_inv (s\<lparr>tq_idle := False, tq_pc := (tq_pc s)(n := W_lock i')\<rparr>)"
      by (rule threads_inv_pc [OF th loop]) simp_all
    then have "threads_inv ?s" using idle by (simp add: threads_inv_def worker_list_def)
    moreover have "current_timers ?s = (i', [])" using cur(1) by (simp add: current_timers_def)
    moreover have "stop_inv ?s" using st by (simp add: stop_inv_def cong: tq_stop.case_cong)
    ultimately have "tq_inv ?s" using g idle by (simp add: tq_inv_def tq_internal_def tq_pending_def)
    with r show ?thesis by blast
  qed
qed

lemma old_exited:
  assumes "threads_inv s" "n \<in> set (tq_olds s) \<union> set (tq_joined s)"
  shows "tq_pc s n = W_exited" "tq_worker s \<noteq> Some n"
proof -
  have j: "mset (tq_joined s @ tq_olds s @ worker_list s) = mset [0..<tq_threads s]"
    and t: "tq_pc s n = W_none \<longleftrightarrow> tq_threads s \<le> n" "in_loop (tq_pc s n) \<longrightarrow> tq_worker s = Some n"
    using assms(1) unfolding threads_inv_def by blast+
  have "n < tq_threads s" using assms(2) mset_eq_setD [OF j] by auto
  have "distinct (tq_joined s @ tq_olds s @ worker_list s)" using mset_eq_imp_distinct_iff [OF j] by simp
  with assms(2) show w: "tq_worker s \<noteq> Some n" by (auto simp: worker_list_def)
  with t \<open>n < tq_threads s\<close> show "tq_pc s n = W_exited" by (cases "tq_pc s n") auto
qed

lemma tq_inv_join:
  assumes "tq_inv s" "n \<in> set (tq_olds s)"
  shows "tq_inv (s\<lparr>tq_olds := remove1 n (tq_olds s), tq_joined := tq_joined s @ [n]\<rparr>)"
proof -
  let ?s = "s\<lparr>tq_olds := remove1 n (tq_olds s), tq_joined := tq_joined s @ [n]\<rparr>"
  have "worker_list ?s = worker_list s" by (simp add: worker_list_def)
  then have m: "mset (tq_joined ?s @ tq_olds ?s @ worker_list ?s) = mset (tq_joined s @ tq_olds s @ worker_list s)"
    using assms(2) by simp
  have "threads_inv s" using assms(1) by (simp add: tq_inv_def)
  then have "threads_inv ?s" unfolding threads_inv_def m by simp
  moreover have "tq_internal ?s = tq_internal s" "tq_pending ?s = tq_pending s"
    by (simp_all add: tq_current_defs cong: option.case_cong)
  moreover have "stop_inv ?s" using assms(1) by (simp add: tq_inv_def stop_inv_def cong: tq_stop.case_cong)
  ultimately show ?thesis using assms(1) by (simp add: tq_inv_def)
qed

lemma tq_inv_shutdown:
  assumes "tq_inv s" "tq_shutdown_step s = Some s'"
  shows "tq_inv s'"
proof -
  have th: "threads_inv s" and st: "stop_inv s" using assms(1) by (simp_all add: tq_inv_def)
  show ?thesis
  proof (cases "tq_stop s")
    case Q_running
    then have s': "s' = s\<lparr>tq_atomic_abort := True, tq_stop := Q_requested\<rparr>" using assms(2) by (simp add: tq_shutdown_step_def)
    have "threads_inv s'" using th by (simp add: s' threads_inv_def worker_list_def)
    moreover have "stop_inv s'" using st Q_running by (simp add: s' stop_inv_def)
    moreover have "tq_internal s' = tq_internal s" "tq_pending s' = tq_pending s"
      by (simp_all add: s' tq_current_defs cong: option.case_cong)
    ultimately show ?thesis using assms(1) by (simp add: tq_inv_def s')
  next
    case Q_requested
    show ?thesis
    proof (cases "tq_worker s")
      case None
      then have s': "s' = s\<lparr>tq_abort := True, tq_stop := Q_stopped\<rparr>" using assms(2) Q_requested by (simp add: tq_shutdown_step_def)
      have "threads_inv s'" using th by (simp add: s' threads_inv_def worker_list_def)
      moreover have "stop_inv s'" using st Q_requested None by (simp add: s' stop_inv_def)
      moreover have "tq_internal s' = tq_internal s" "tq_pending s' = tq_pending s"
        by (simp_all add: s' tq_current_defs cong: option.case_cong)
      ultimately show ?thesis using assms(1) by (simp add: tq_inv_def s')
    next
      case (Some w)
      then have s': "s' = s\<lparr>tq_abort := True, tq_requests := [], tq_stop := Q_joining w\<rparr>"
        using assms(2) Q_requested by (simp add: tq_shutdown_step_def)
      have "threads_inv s'" using th by (simp add: s' threads_inv_def worker_list_def)
      moreover have "stop_inv s'" using st Q_requested Some by (simp add: s' stop_inv_def)
      moreover have "tq_internal s' = tq_internal s" "tq_pending s' = snd (current_timers s)"
        by (simp_all add: s' tq_current_defs cong: option.case_cong)
      moreover have "timer_facts (tq_mem s) (tq_internal s) (snd (current_timers s) @ tq_requests s) (tq_history s)"
        using assms(1) by (simp add: tq_inv_def tq_pending_def)
      then have "timer_facts (tq_mem s) (tq_internal s) (snd (current_timers s)) (tq_history s)"
        unfolding timer_facts_def by auto
      ultimately show ?thesis by (simp add: tq_inv_def s')
    qed
  next
    case (Q_joining w)
    then have s': "s' = s\<lparr>tq_worker := None, tq_joined := tq_joined s @ [w], tq_stop := Q_stopped\<rparr>" and ex: "tq_pc s w = W_exited"
      using assms(2) by (simp_all add: tq_shutdown_step_def split: if_splits)
    have w: "tq_worker s = Some w" "tq_abort s" using st Q_joining by (simp_all add: stop_inv_def)
    have t: "tq_pc s n = W_none \<longleftrightarrow> tq_threads s \<le> n" "in_loop (tq_pc s n) \<longrightarrow> tq_worker s = Some n"
      and j: "mset (tq_joined s @ tq_olds s @ worker_list s) = mset [0..<tq_threads s]" for n
      using th unfolding threads_inv_def by blast+
    have "\<not> in_loop (tq_pc s n)" for n using t(2) [of n] w ex by auto
    then have "threads_inv s'" using t(1) j w unfolding s' threads_inv_def by (simp add: worker_list_def)
    moreover have "stop_inv s'" using st Q_joining by (simp add: s' stop_inv_def)
    moreover have "tq_internal s' = tq_internal s" "tq_pending s' = tq_pending s"
      using w ex by (simp_all add: s' tq_current_defs)
    ultimately show ?thesis using assms(1) w by (simp add: tq_inv_def s')
  qed (use assms(2) in \<open>simp add: tq_shutdown_step_def\<close>)
qed

text \<open>What a step may lead to: a state that satisfies the invariant, an overflow in the arithmetic of a deadline, or
  an exception of an executor in the thread of the queue.\<close>

fun tq_failure :: "tq_event \<Rightarrow> exn \<Rightarrow> bool" where
  "tq_failure (E_make now due frequency ex oneshot callable p) e \<longleftrightarrow> e = Undefined_behaviour ''signed overflow''"
| "tq_failure (E_process fuel refuses clock env n) e \<longleftrightarrow>
     e = Terminated (Undefined_behaviour ''signed overflow'') \<or> (\<exists>ex x. refuses ex = Some x \<and> e = Terminated x)"
| "tq_failure _ e \<longleftrightarrow> False"

lemma tq_exec_safe:
  assumes "tq_inv s" "tq_event_ok ev" "tq_exec ev s = Some r"
  shows "(\<exists>s'. r = Inr s' \<and> tq_inv s') \<or> (\<exists>e. r = Inl e \<and> tq_failure ev e)"
proof (cases ev)
  case (E_make now due frequency ex oneshot callable p)
  show ?thesis
  proof (cases "make_timer_impl now due frequency (Some ex) oneshot callable p s")
    case (Inl e)
    then have "e = Runtime_shutdown k_timer_queue_shutdown_err_msg \<or> e = Undefined_behaviour ''signed overflow''"
      by (auto simp: make_timer_impl_def timer_state_new_def make_deadline_def add_timer_def Let_def split: if_splits prod.splits)
    with Inl E_make assms show ?thesis by (auto split: if_splits)
  next
    case (Inr s1)
    with E_make assms(3) have "r = Inr s1" "\<not> known p s" by (simp_all split: if_splits)
    with tq_inv_make [OF assms(1) _ Inr] show ?thesis by blast
  qed
next
  case (E_cancel p)
  have "tq_inv (s\<lparr>tq_mem := (tq_mem s)(p := (tq_mem s p)\<lparr>tm_cancelled := True\<rparr>)\<rparr>)"
    by (rule tq_inv_mem [OF assms(1)]) (auto simp: same_timer_def)
  with E_cancel assms(3) show ?thesis by (auto split: if_splits)
next
  case (E_remove p)
  with assms tq_inv_remove [OF assms(1), of p] show ?thesis by (auto split: if_splits)
next
  case (E_frequency p f)
  have "tq_inv (s\<lparr>tq_mem := (tq_mem s)(p := (tq_mem s p)\<lparr>tm_frequency := f\<rparr>)\<rparr>)"
    by (rule tq_inv_mem [OF assms(1)]) (auto simp: same_timer_def)
  with E_frequency assms(3) show ?thesis by (auto split: if_splits)
next
  case (E_wait timed_out n)
  with assms tq_inv_wait [OF assms(1), of timed_out n r] show ?thesis by auto
next
  case (E_process fuel refuses clock env n)
  with assms tq_inv_process [OF assms(1), of env fuel refuses clock n r] show ?thesis by auto
next
  case (E_join n)
  with assms tq_inv_join [OF assms(1), of n] show ?thesis by (auto split: if_splits)
next
  case E_shutdown
  with assms tq_inv_shutdown [OF assms(1)] show ?thesis by auto
qed

lemma tq_reachable_inv: "tq_reachable s \<Longrightarrow> tq_inv s"
proof (induction rule: tq_reachable.induct)
  case (tq_start mem)
  show ?case by (rule tq_inv_init)
next
  case (tq_step s e s')
  from tq_exec_safe [OF tq_step.IH tq_step.hyps(2,3)] show ?case by auto
qed

section \<open>Properties\<close>

fun tq_run :: "tq_event list \<Rightarrow> tq_sys \<Rightarrow> tq_sys option" where
  "tq_run [] s = Some s"
| "tq_run (e # es) s = (case tq_exec e s of Some (Inr s') \<Rightarrow> tq_run es s' | _ \<Rightarrow> None)"

lemma tq_run_reachable:
  "tq_reachable s \<Longrightarrow> list_all tq_event_ok es \<Longrightarrow> tq_run es s = Some s' \<Longrightarrow> tq_reachable s'"
proof (induction es arbitrary: s)
  case (Cons e es)
  then show ?case by (auto split: option.splits sum.splits intro: tq_step)
qed simp

text \<open>A timer with a single shot is created, the thread takes the request and fires it, and the queue is shut down.\<close>

definition tq_demo :: "tq_event list" where
  "tq_demo = [E_make 0 5 7 1 True 0 1, E_wait False 0, E_process 3 (\<lambda>_. None) (\<lambda>_. 9000000) (\<lambda>_. id) 0]"

lemmas tq_demo_defs = tq_demo_def tq_init_def known_def make_timer_impl_def timer_state_new_def make_deadline_def in_int64_def
  add_timer_def ensure_worker_thread_def add_internal_timer_def work_wait_def internal_empty_def internal_init_def
  work_process_def process_timers_def add_timer_internal_def timer_expired_def timer_fire_def mapper_erase_def
  tq_shutdown_step_def tq_destructor_def

lemma tq_demo_ok: "list_all tq_event_ok tq_demo"
  using env_ok_id by (simp add: tq_demo_def env_ok_def)





text \<open>A delay object does nothing to a queue that has been shut down, and otherwise makes one request.\<close>

lemma delay_await_requests:
  assumes "make_deadline now (word_of_int due_time) = Inr d"
  shows "tq_history (delay_await_suspend now due_time ex functor p s) =
           (if tq_abort s then tq_history s else tq_history s @ [(p, Add_timer)])"
  using assms
  by (simp add: delay_await_suspend_def make_timer_impl_def timer_state_new_def add_timer_def ensure_worker_thread_def
      add_internal_timer_def)

text \<open>An executor that refuses the task of a timer, for example because it has been shut down, ends the program: nothing
  catches the exception between \<^verbatim>\<open>fire\<close> and the thread.\<close>

lemma refused_timer_terminates:
  assumes "tq_pc s n = W_process [] i" "ti_timers i = (m, p) # rest" "timer_expired (clock 0) (tq_mem s p)"
    "\<not> tm_cancelled (tq_mem s p)" "make_deadline (clock 1) (tm_frequency (tq_mem s p)) = Inr d"
    "tm_executor (tq_mem s p) = Some ex" "refuses ex = Some e"
  shows "work_process (Suc fuel) refuses clock (\<lambda>_. id) n s = Some (Inl (Terminated e))"
  using assms by (simp add: work_process_def process_timers_def timer_fire_def Let_def)

end
