(* ===== verification/Http_Request.thy ===== *)
theory Http_Request
  imports Prelude "HOL-Library.Sublist"
begin

text \<open>
  The incremental parser of HTTP requests (\<^verbatim>\<open>net/http/http_request.hpp\<close>): a state machine that consumes one character at a
  time and fills a request.  A character is passed as a signed \<^verbatim>\<open>char\<close>, so codes above 127 are negative.  The numbers of the
  HTTP version are 32-bit integers whose overflow is undefined, and so is the access to the last header of an empty list.
\<close>

section \<open>Requests\<close>

record header =
  hd_name :: string
  hd_value :: string

record request =
  rq_method :: string
  rq_uri :: string
  rq_major :: int
  rq_minor :: int
  rq_headers :: "header list"

definition request_init :: request where
  "request_init = \<lparr>rq_method = [], rq_uri = [], rq_major = 0, rq_minor = 0, rq_headers = []\<rparr>"

section \<open>Character classes\<close>

definition schar :: "char \<Rightarrow> int" where
  "schar c = (let n = of_char c :: int in if n < 128 then n else n - 256)"

definition is_char :: "char \<Rightarrow> bool" where
  "is_char c \<longleftrightarrow> 0 \<le> schar c \<and> schar c \<le> 127"

definition is_ctl :: "char \<Rightarrow> bool" where
  "is_ctl c \<longleftrightarrow> 0 \<le> schar c \<and> schar c \<le> 31 \<or> schar c = 127"

definition tspecials :: string where
  "tspecials = ''()<>@,;:'' @ [CHR 92, CHR 34] @ ''/[]?={} '' @ [CHR 9]"

definition is_tspecial :: "char \<Rightarrow> bool" where
  "is_tspecial c \<longleftrightarrow> c \<in> set tspecials"

definition is_digit :: "char \<Rightarrow> bool" where
  "is_digit c \<longleftrightarrow> 48 \<le> schar c \<and> schar c \<le> 57"

text \<open>The characters the parser accepts in methods and header names.\<close>

definition is_token :: "char \<Rightarrow> bool" where
  "is_token c \<longleftrightarrow> is_char c \<and> \<not> is_ctl c \<and> \<not> is_tspecial c"

abbreviation cr :: char where "cr \<equiv> CHR 13"
abbreviation lf :: char where "lf \<equiv> CHR 10"
abbreviation tab :: char where "tab \<equiv> CHR 9"

section \<open>The parser\<close>

datatype parser_state =
    method_start | http_method | uri | http_version_h | http_version_t_1 | http_version_t_2 | http_version_p
  | http_version_slash | http_version_major_start | http_version_major | http_version_minor_start
  | http_version_minor | expecting_newline_1 | header_line_start | header_lws | header_name
  | space_before_header_value | header_value | expecting_newline_2 | expecting_newline_3

datatype result_type = Good | Bad | Indeterminate

definition in_int32 :: "int \<Rightarrow> bool" where
  "in_int32 x \<longleftrightarrow> - (2 ^ 31) \<le> x \<and> x < 2 ^ 31"

text \<open>\<^verbatim>\<open>version * 10 + input - '0'\<close>, evaluated from left to right.\<close>

definition version_digit :: "int \<Rightarrow> char \<Rightarrow> int outcome" where
  "version_digit v c =
     (if in_int32 (v * 10) \<and> in_int32 (v * 10 + schar c) then Inr (v * 10 + schar c - 48)
      else Inl (Undefined_behaviour ''signed overflow''))"

text \<open>\<^verbatim>\<open>headers.back()\<close>.\<close>

definition headers_back :: "(header \<Rightarrow> header) \<Rightarrow> request \<Rightarrow> request outcome" where
  "headers_back f req =
     (if rq_headers req = [] then Inl (Undefined_behaviour ''back of an empty vector'')
      else Inr (req\<lparr>rq_headers := butlast (rq_headers req) @ [f (last (rq_headers req))]\<rparr>))"

definition expect :: "char \<Rightarrow> parser_state \<Rightarrow> parser_state \<Rightarrow> request \<Rightarrow> char \<Rightarrow> (result_type \<times> parser_state \<times> request) outcome" where
  "expect wanted st' st req c = (if c = wanted then Inr (Indeterminate, st', req) else Inr (Bad, st, req))"

definition push_name :: "char \<Rightarrow> header \<Rightarrow> header" where
  "push_name c h = h\<lparr>hd_name := hd_name h @ [c]\<rparr>"

definition push_value :: "char \<Rightarrow> header \<Rightarrow> header" where
  "push_value c h = h\<lparr>hd_value := hd_value h @ [c]\<rparr>"

fun consume :: "parser_state \<Rightarrow> request \<Rightarrow> char \<Rightarrow> (result_type \<times> parser_state \<times> request) outcome" where
  "consume method_start req c =
     (if \<not> is_char c \<or> is_ctl c \<or> is_tspecial c then Inr (Bad, method_start, req)
      else Inr (Indeterminate, http_method, req\<lparr>rq_method := rq_method req @ [c]\<rparr>))"
| "consume http_method req c =
     (if c = CHR '' '' then Inr (Indeterminate, uri, req)
      else if \<not> is_char c \<or> is_ctl c \<or> is_tspecial c then Inr (Bad, http_method, req)
      else Inr (Indeterminate, http_method, req\<lparr>rq_method := rq_method req @ [c]\<rparr>))"
| "consume uri req c =
     (if c = CHR '' '' then Inr (Indeterminate, http_version_h, req)
      else if is_ctl c then Inr (Bad, uri, req)
      else Inr (Indeterminate, uri, req\<lparr>rq_uri := rq_uri req @ [c]\<rparr>))"
| "consume http_version_h req c = expect (CHR ''H'') http_version_t_1 http_version_h req c"
| "consume http_version_t_1 req c = expect (CHR ''T'') http_version_t_2 http_version_t_1 req c"
| "consume http_version_t_2 req c = expect (CHR ''T'') http_version_p http_version_t_2 req c"
| "consume http_version_p req c = expect (CHR ''P'') http_version_slash http_version_p req c"
| "consume http_version_slash req c =
     (if c = CHR ''/'' then Inr (Indeterminate, http_version_major_start, req\<lparr>rq_major := 0, rq_minor := 0\<rparr>)
      else Inr (Bad, http_version_slash, req))"
| "consume http_version_major_start req c =
     (if is_digit c
      then bind_outcome (version_digit (rq_major req) c) (\<lambda>v. Inr (Indeterminate, http_version_major, req\<lparr>rq_major := v\<rparr>))
      else Inr (Bad, http_version_major_start, req))"
| "consume http_version_major req c =
     (if c = CHR ''.'' then Inr (Indeterminate, http_version_minor_start, req)
      else if is_digit c
      then bind_outcome (version_digit (rq_major req) c) (\<lambda>v. Inr (Indeterminate, http_version_major, req\<lparr>rq_major := v\<rparr>))
      else Inr (Bad, http_version_major, req))"
| "consume http_version_minor_start req c =
     (if is_digit c
      then bind_outcome (version_digit (rq_minor req) c) (\<lambda>v. Inr (Indeterminate, http_version_minor, req\<lparr>rq_minor := v\<rparr>))
      else Inr (Bad, http_version_minor_start, req))"
| "consume http_version_minor req c =
     (if c = cr then Inr (Indeterminate, expecting_newline_1, req)
      else if is_digit c
      then bind_outcome (version_digit (rq_minor req) c) (\<lambda>v. Inr (Indeterminate, http_version_minor, req\<lparr>rq_minor := v\<rparr>))
      else Inr (Bad, http_version_minor, req))"
| "consume expecting_newline_1 req c = expect lf header_line_start expecting_newline_1 req c"
| "consume header_line_start req c =
     (if c = cr then Inr (Indeterminate, expecting_newline_3, req)
      else if rq_headers req \<noteq> [] \<and> (c = CHR '' '' \<or> c = tab) then Inr (Indeterminate, header_lws, req)
      else if \<not> is_char c \<or> is_ctl c \<or> is_tspecial c then Inr (Bad, header_line_start, req)
      else Inr (Indeterminate, header_name, req\<lparr>rq_headers := rq_headers req @ [\<lparr>hd_name = [c], hd_value = []\<rparr>]\<rparr>))"
| "consume header_lws req c =
     (if c = cr then Inr (Indeterminate, expecting_newline_2, req)
      else if c = CHR '' '' \<or> c = tab then Inr (Indeterminate, header_lws, req)
      else if is_ctl c then Inr (Bad, header_lws, req)
      else bind_outcome (headers_back (push_value c) req) (\<lambda>req'. Inr (Indeterminate, header_value, req')))"
| "consume header_name req c =
     (if c = CHR '':'' then Inr (Indeterminate, space_before_header_value, req)
      else if \<not> is_char c \<or> is_ctl c \<or> is_tspecial c then Inr (Bad, header_name, req)
      else bind_outcome (headers_back (push_name c) req) (\<lambda>req'. Inr (Indeterminate, header_name, req')))"
| "consume space_before_header_value req c = expect (CHR '' '') header_value space_before_header_value req c"
| "consume header_value req c =
     (if c = cr then Inr (Indeterminate, expecting_newline_2, req)
      else if is_ctl c then Inr (Bad, header_value, req)
      else bind_outcome (headers_back (push_value c) req) (\<lambda>req'. Inr (Indeterminate, header_value, req')))"
| "consume expecting_newline_2 req c = expect lf header_line_start expecting_newline_2 req c"
| "consume expecting_newline_3 req c = Inr (if c = lf then Good else Bad, expecting_newline_3, req)"

text \<open>\<^verbatim>\<open>parse\<close> returns the verdict, the state, the request and the input that is left.\<close>

fun parse :: "parser_state \<Rightarrow> request \<Rightarrow> string \<Rightarrow> (result_type \<times> parser_state \<times> request \<times> string) outcome" where
  "parse st req [] = Inr (Indeterminate, st, req, [])"
| "parse st req (c # cs) =
     bind_outcome (consume st req c) (\<lambda>(r, st', req').
       if r = Good \<or> r = Bad then Inr (r, st', req', cs) else parse st' req' cs)"

section \<open>Feeding the input in pieces\<close>

text \<open>The server reads into a buffer and hands over what has arrived; it goes on while the verdict is open.\<close>

fun parse_chunks :: "parser_state \<Rightarrow> request \<Rightarrow> string list \<Rightarrow> (result_type \<times> parser_state \<times> request \<times> string) outcome" where
  "parse_chunks st req [] = Inr (Indeterminate, st, req, [])"
| "parse_chunks st req (xs # xss) =
     bind_outcome (parse st req xs) (\<lambda>(r, st', req', rest).
       if r = Indeterminate then parse_chunks st' req' xss else Inr (r, st', req', rest @ concat xss))"

lemma parse_indeterminate_rest: "parse st req xs = Inr (Indeterminate, st', req', rest) \<Longrightarrow> rest = []"
  by (induction st req xs rule: parse.induct) (auto simp: bind_outcome_Inr_iff split: if_splits)

lemma parse_append:
  "parse st req (xs @ ys) =
     bind_outcome (parse st req xs) (\<lambda>(r, st', req', rest).
       if r = Indeterminate then parse st' req' ys else Inr (r, st', req', rest @ ys))"
proof (induction st req xs rule: parse.induct)
  case (2 st req c cs)
  show ?case
  proof (cases "consume st req c")
    case (Inr x)
    obtain r st' req' where x: "x = (r, st', req')" by (cases x)
    with Inr 2 show ?thesis by (cases r) auto
  qed simp
qed simp

text \<open>The verdict does not depend on how the input is cut.  Feeding a request to the parser in any pieces, empty ones
  included, gives the same verdict, the same request, the same state and the same unread rest as feeding it at once.\<close>

lemma request_parser_chunking: "parse_chunks st req xss = parse st req (concat xss)"
proof (induction st req xss rule: parse_chunks.induct)
  case (2 st req xs xss)
  show ?case
  proof (cases "parse st req xs")
    case (Inr x)
    obtain r st' req' rest where x: "x = (r, st', req', rest)" by (cases x)
    with Inr 2 show ?thesis by (simp add: parse_append)
  qed (simp add: parse_append)
qed simp

section \<open>Only well-formed requests are accepted\<close>

definition uri_char :: "char \<Rightarrow> bool" where
  "uri_char c \<longleftrightarrow> \<not> is_ctl c \<and> c \<noteq> CHR '' ''"

definition header_ok :: "header \<Rightarrow> bool" where
  "header_ok h \<longleftrightarrow> hd_name h \<noteq> [] \<and> list_all is_token (hd_name h) \<and> list_all (\<lambda>c. \<not> is_ctl c) (hd_value h)"

definition request_ok :: "request \<Rightarrow> bool" where
  "request_ok req \<longleftrightarrow>
     list_all is_token (rq_method req) \<and> list_all uri_char (rq_uri req) \<and>
     0 \<le> rq_major req \<and> rq_major req < 2 ^ 31 \<and> 0 \<le> rq_minor req \<and> rq_minor req < 2 ^ 31 \<and> list_all header_ok (rq_headers req)"

fun in_header :: "parser_state \<Rightarrow> bool" where
  "in_header header_lws \<longleftrightarrow> True" | "in_header header_name \<longleftrightarrow> True" | "in_header space_before_header_value \<longleftrightarrow> True"
| "in_header header_value \<longleftrightarrow> True" | "in_header expecting_newline_2 \<longleftrightarrow> True" | "in_header _ \<longleftrightarrow> False"

definition parser_inv :: "parser_state \<Rightarrow> request \<Rightarrow> bool" where
  "parser_inv st req \<longleftrightarrow>
     request_ok req \<and> (st \<noteq> method_start \<longrightarrow> rq_method req \<noteq> []) \<and> (in_header st \<longrightarrow> rq_headers req \<noteq> [])"

lemma headers_back_ok:
  assumes "request_ok req" "rq_headers req \<noteq> []" "\<And>h. header_ok h \<Longrightarrow> header_ok (f h)"
  shows "\<exists>req'. headers_back f req = Inr req' \<and> request_ok req' \<and> rq_method req' = rq_method req \<and> rq_headers req' \<noteq> []"
proof -
  obtain hs h where h: "rq_headers req = hs @ [h]" using assms(2) by (cases "rq_headers req" rule: rev_cases) auto
  with assms show ?thesis by (auto simp: headers_back_def request_ok_def)
qed

lemma push_value_ok: "\<not> is_ctl c \<Longrightarrow> header_ok h \<Longrightarrow> header_ok (push_value c h)"
  by (simp add: header_ok_def push_value_def)

lemma push_name_ok: "is_token c \<Longrightarrow> header_ok h \<Longrightarrow> header_ok (push_name c h)"
  by (simp add: header_ok_def push_name_def)

lemma version_digit_ok:
  assumes "is_digit c" "0 \<le> v"
  shows "version_digit v c = Inl (Undefined_behaviour ''signed overflow'') \<or>
         (\<exists>v'. version_digit v c = Inr v' \<and> 0 \<le> v' \<and> v' < 2 ^ 31)"
  using assms by (auto simp: version_digit_def is_digit_def in_int32_def)

definition consume_safe :: "(result_type \<times> parser_state \<times> request) outcome \<Rightarrow> bool" where
  "consume_safe r \<longleftrightarrow>
     (case r of Inl e \<Rightarrow> e = Undefined_behaviour ''signed overflow''
      | Inr (v, st, req) \<Rightarrow> parser_inv st req \<and> (v = Good \<longrightarrow> st = expecting_newline_3))"

lemma consume_safe_back:
  assumes "parser_inv st req" "in_header st" "in_header st'" "\<And>h. header_ok h \<Longrightarrow> header_ok (f h)" "st \<noteq> method_start"
  shows "consume_safe (bind_outcome (headers_back f req) (\<lambda>req'. Inr (Indeterminate, st', req')))"
  using headers_back_ok [of req f] assms by (auto simp: consume_safe_def parser_inv_def)

lemma consume_safe_major:
  assumes "parser_inv st req" "is_digit c" "st \<noteq> method_start" "st' \<noteq> method_start" "\<not> in_header st'"
  shows "consume_safe (bind_outcome (version_digit (rq_major req) c) (\<lambda>v. Inr (Indeterminate, st', req\<lparr>rq_major := v\<rparr>)))"
    "consume_safe (bind_outcome (version_digit (rq_minor req) c) (\<lambda>v. Inr (Indeterminate, st', req\<lparr>rq_minor := v\<rparr>)))"
  using version_digit_ok [OF assms(2), of "rq_major req"] version_digit_ok [OF assms(2), of "rq_minor req"] assms
  by (auto simp: consume_safe_def parser_inv_def request_ok_def)

lemma consume_ok:
  assumes "parser_inv st req"
  shows "consume_safe (consume st req c)"
proof (cases st)
  case header_lws
  with assms show ?thesis
    using consume_safe_back [OF assms, of header_value "push_value c"] push_value_ok [of c]
    by (auto simp: consume_safe_def [of "Inr _"] parser_inv_def)
next
  case header_name
  with assms show ?thesis
    using consume_safe_back [OF assms, of header_name "push_name c"] push_name_ok [of c]
    by (auto simp: consume_safe_def [of "Inr _"] parser_inv_def is_token_def)
next
  case header_value
  with assms show ?thesis
    using consume_safe_back [OF assms, of header_value "push_value c"] push_value_ok [of c]
    by (auto simp: consume_safe_def [of "Inr _"] parser_inv_def)
next
  case http_version_major_start
  with assms show ?thesis
    using consume_safe_major [OF assms, of c http_version_major] by (auto simp: consume_safe_def [of "Inr _"])
next
  case http_version_major
  with assms show ?thesis
    using consume_safe_major [OF assms, of c http_version_major] by (auto simp: consume_safe_def [of "Inr _"] parser_inv_def)
next
  case http_version_minor_start
  with assms show ?thesis
    using consume_safe_major [OF assms, of c http_version_minor] by (auto simp: consume_safe_def [of "Inr _"])
next
  case http_version_minor
  with assms show ?thesis
    using consume_safe_major [OF assms, of c http_version_minor] by (auto simp: consume_safe_def [of "Inr _"] parser_inv_def)
qed (use assms in \<open>auto simp: consume_safe_def parser_inv_def request_ok_def is_token_def uri_char_def header_ok_def expect_def\<close>)

lemma parse_inv:
  assumes "parser_inv st req"
  shows "case parse st req xs of
           Inl e \<Rightarrow> e = Undefined_behaviour ''signed overflow''
         | Inr (r, st', req', rest) \<Rightarrow> parser_inv st' req' \<and> suffix rest xs \<and> (r = Good \<longrightarrow> st' = expecting_newline_3)"
  using assms
proof (induction st req xs rule: parse.induct)
  case (2 st req c cs)
  show ?case
  proof (cases "consume st req c")
    case (Inl e)
    with consume_ok [OF 2(2), of c] show ?thesis by (simp add: consume_safe_def)
  next
    case (Inr x)
    obtain r st' req' where x: "x = (r, st', req')" by (cases x)
    have inv: "parser_inv st' req'" "r = Good \<longrightarrow> st' = expecting_newline_3"
      using consume_ok [OF 2(2), of c] Inr x by (simp_all add: consume_safe_def)
    show ?thesis
    proof (cases r)
      case Indeterminate
      with 2(1) [of r st' req'] Inr x inv show ?thesis by (auto split: sum.splits intro: suffix_ConsI)
    qed (use Inr x inv in \<open>auto intro: suffix_ConsI\<close>)
  qed
qed simp

lemma parser_inv_start: "parser_inv method_start request_init"
  by (simp add: parser_inv_def request_ok_def request_init_def)

text \<open>C31: what the parser accepts is a request.  For every input, the parser never touches the last header of an empty list; the
  method and the names of the headers consist of token characters, the URI has neither spaces nor control characters, the
  values of the headers have no control characters, the version numbers fit their type, and the unread rest is a suffix
  of the input.  When the verdict is good, the method and all header names are not empty.\<close>

theorem parsed_request_wf:
  "(\<forall>e. parse method_start request_init xs = Inl e \<longrightarrow> e = Undefined_behaviour ''signed overflow'') \<and>
   (\<forall>r st req rest. parse method_start request_init xs = Inr (r, st, req, rest) \<longrightarrow>
      request_ok req \<and> suffix rest xs \<and> (r = Good \<longrightarrow> rq_method req \<noteq> []))"
  using parse_inv [OF parser_inv_start, of xs] by (auto simp: parser_inv_def)

theorem parsed_request_wf_witness:
  "parse method_start request_init (''GET /'' @ [CHR 127]) =
     Inr (Bad, uri, \<lparr>rq_method = ''GET'', rq_uri = ''/'', rq_major = 0, rq_minor = 0, rq_headers = []\<rparr>, []) \<and>
   request_ok \<lparr>rq_method = ''GET'', rq_uri = ''/'', rq_major = 0, rq_minor = 0, rq_headers = []\<rparr>"
proof -
  have "parse method_start request_init (''GET /'' @ [CHR 127]) =
      Inr (Bad, uri, \<lparr>rq_method = ''GET'', rq_uri = ''/'', rq_major = 0, rq_minor = 0, rq_headers = []\<rparr>, [])"
    by code_simp
  with parsed_request_wf [of "''GET /'' @ [CHR 127]"] show ?thesis by blast
qed

section \<open>Version numbers\<close>

text \<open>At most nine digits in a row, after \<open>k\<close> digits.\<close>

fun nine_digits :: "nat \<Rightarrow> string \<Rightarrow> bool" where
  "nine_digits k [] \<longleftrightarrow> True"
| "nine_digits k (c # cs) \<longleftrightarrow> (if is_digit c then k < 9 \<and> nine_digits (Suc k) cs else nine_digits 0 cs)"

fun version_bound :: "nat \<Rightarrow> parser_state \<Rightarrow> request \<Rightarrow> bool" where
  "version_bound k http_version_major_start req \<longleftrightarrow> 0 \<le> rq_major req \<and> rq_major req < 10 ^ k \<and> rq_minor req = 0"
| "version_bound k http_version_major req \<longleftrightarrow> 0 \<le> rq_major req \<and> rq_major req < 10 ^ k \<and> rq_minor req = 0"
| "version_bound k http_version_minor_start req \<longleftrightarrow> 0 \<le> rq_minor req \<and> rq_minor req < 10 ^ k"
| "version_bound k http_version_minor req \<longleftrightarrow> 0 \<le> rq_minor req \<and> rq_minor req < 10 ^ k"
| "version_bound k _ req \<longleftrightarrow> True"

lemma version_digit_small:
  assumes "0 \<le> v" "v < 10 ^ k" "k < 9" "is_digit c"
  shows "\<exists>v'. version_digit v c = Inr v' \<and> 0 \<le> v' \<and> v' < 10 ^ Suc k"
proof -
  have "(10::int) ^ k \<le> 10 ^ 8" using assms(3) by (intro power_increasing) auto
  then have "v < 100000000" using assms(2) by simp
  with assms(1,2,4) show ?thesis by (auto simp: version_digit_def is_digit_def in_int32_def)
qed

lemma consume_bound:
  assumes "parser_inv st req" "version_bound k st req" "nine_digits k (c # cs)"
  shows "\<exists>r st' req'. consume st req c = Inr (r, st', req') \<and> parser_inv st' req' \<and>
           (r = Indeterminate \<longrightarrow> version_bound (if is_digit c then Suc k else 0) st' req')"
proof -
  have "\<exists>r st' req'. consume st req c = Inr (r, st', req') \<and>
      (r = Indeterminate \<longrightarrow> version_bound (if is_digit c then Suc k else 0) st' req')"
    using assms(2,3) version_digit_small [of "rq_major req" k c] version_digit_small [of "rq_minor req" k c] assms(1)
    by (cases st) (auto simp: expect_def headers_back_def parser_inv_def is_digit_def schar_def)
  with consume_ok [OF assms(1), of c] show ?thesis by (auto simp: consume_safe_def)
qed

lemma parse_bound:
  assumes "parser_inv st req" "version_bound k st req" "nine_digits k xs"
  shows "\<exists>r st' req' rest. parse st req xs = Inr (r, st', req', rest)"
  using assms
proof (induction st req xs arbitrary: k rule: parse.induct)
  case (2 st req c cs)
  obtain r st' req' where c: "consume st req c = Inr (r, st', req')" "parser_inv st' req'"
    "r = Indeterminate \<longrightarrow> version_bound (if is_digit c then Suc k else 0) st' req'"
    using consume_bound [OF 2(2,3,4)] by blast
  show ?case
  proof (cases r)
    case Indeterminate
    have "nine_digits (if is_digit c then Suc k else 0) cs" using 2(4) by (auto split: if_splits)
    with 2(1) [of r st' req'] c Indeterminate show ?thesis by auto
  qed (use c in auto)
qed simp



section \<open>Printing and parsing\<close>

text \<open>Decimal digits, as \<^verbatim>\<open>std::to_string\<close> writes them.\<close>

fun nat_to_string :: "nat \<Rightarrow> string" where
  "nat_to_string n = (if n < 10 then [char_of (48 + n)] else nat_to_string (n div 10) @ [char_of (48 + n mod 10)])"

declare nat_to_string.simps [simp del]

lemma schar_digit:
  assumes "d < 10"
  shows "schar (char_of (48 + d)) = 48 + int d"
proof -
  have "of_char (char_of (48 + d)) = (48 + d :: nat)" using assms by (simp add: take_bit_eq_mod)
  then have "(of_char (char_of (48 + d)) :: int) = int (48 + d)" by (metis of_nat_of_char)
  with assms show ?thesis by (simp add: schar_def Let_def)
qed

lemma is_digit_char: "d < 10 \<Longrightarrow> is_digit (char_of (48 + d :: nat))"
  by (simp add: is_digit_def schar_digit)

lemma nat_to_string_digits: "list_all is_digit (nat_to_string n)" "nat_to_string n \<noteq> []"
proof -
  show "list_all is_digit (nat_to_string n)"
    by (induction n rule: nat_to_string.induct) (subst nat_to_string.simps, simp add: is_digit_char)
  show "nat_to_string n \<noteq> []" by (subst nat_to_string.simps) simp
qed

definition print_header :: "header \<Rightarrow> string" where
  "print_header h = hd_name h @ '': '' @ hd_value h @ [cr, lf]"

definition print_request :: "request \<Rightarrow> string" where
  "print_request req =
     rq_method req @ '' '' @ rq_uri req @ '' HTTP/'' @ nat_to_string (nat (rq_major req)) @ ''.'' @
     nat_to_string (nat (rq_minor req)) @ [cr, lf] @ concat (map print_header (rq_headers req)) @ [cr, lf]"

text \<open>Reading a sequence of digits.\<close>

fun read_digits :: "int \<Rightarrow> string \<Rightarrow> int outcome" where
  "read_digits v [] = Inr v"
| "read_digits v (c # cs) = bind_outcome (version_digit v c) (\<lambda>v'. read_digits v' cs)"

lemma read_digits_append: "read_digits v (xs @ ys) = bind_outcome (read_digits v xs) (\<lambda>v'. read_digits v' ys)"
  by (induction xs arbitrary: v) (auto simp: bind_outcome_def split: sum.splits)

lemma read_nat_to_string:
  "int n + 48 < 2 ^ 31 \<Longrightarrow> read_digits 0 (nat_to_string n) = Inr (int n)"
proof (induction n rule: nat_to_string.induct)
  case (1 n)
  show ?case
  proof (cases "n < 10")
    case True
    then show ?thesis by (subst nat_to_string.simps) (simp add: version_digit_def schar_digit in_int32_def)
  next
    case False
    have e: "int (n div 10) * 10 + int (n mod 10) = int n" by (metis add.commute mult.commute of_nat_add of_nat_mult of_nat_numeral mod_mult_div_eq)
    have "read_digits 0 (nat_to_string (n div 10)) = Inr (int (n div 10))"
      using 1 False by simp
    moreover have "version_digit (int (n div 10)) (char_of (48 + n mod 10)) = Inr (int n)"
    proof -
      have "int (n div 10) * 10 + (48 + int (n mod 10)) = int n + 48" using e by simp
      moreover have "int (n div 10) * 10 \<le> int n" using e by linarith
      ultimately show ?thesis using 1(2) by (simp add: version_digit_def schar_digit in_int32_def)
    qed
    ultimately show ?thesis using False by (subst nat_to_string.simps) (simp add: read_digits_append)
  qed
qed

lemma token_not:
  assumes "is_token c"
  shows "c \<noteq> CHR '' ''" "c \<noteq> CHR '':''" "c \<noteq> tab" "c \<noteq> cr" "is_char c" "\<not> is_ctl c" "\<not> is_tspecial c"
proof -
  have "is_ctl cr" by code_simp
  with assms show "c \<noteq> CHR '' ''" "c \<noteq> CHR '':''" "c \<noteq> tab" "c \<noteq> cr" "is_char c" "\<not> is_ctl c" "\<not> is_tspecial c"
    by (auto simp: is_token_def is_tspecial_def tspecials_def)
qed

lemma digit_not: "is_digit c \<Longrightarrow> c \<noteq> CHR ''.''" "is_digit c \<Longrightarrow> c \<noteq> cr"
  by (auto simp: is_digit_def schar_def)

lemma ctl_cr: "\<not> is_ctl c \<Longrightarrow> c \<noteq> cr"
  using token_not by (auto simp: is_ctl_def schar_def)

lemma parse_method:
  "list_all is_token xs \<Longrightarrow> parse http_method req (xs @ CHR '' '' # ys) = parse uri (req\<lparr>rq_method := rq_method req @ xs\<rparr>) ys"
  by (induction xs arbitrary: req) (simp_all add: token_not)

lemma parse_uri:
  "list_all uri_char xs \<Longrightarrow> parse uri req (xs @ CHR '' '' # ys) = parse http_version_h (req\<lparr>rq_uri := rq_uri req @ xs\<rparr>) ys"
  by (induction xs arbitrary: req) (simp_all add: uri_char_def)

lemma parse_major:
  "list_all is_digit xs \<Longrightarrow> read_digits (rq_major req) xs = Inr v \<Longrightarrow>
     parse http_version_major req (xs @ CHR ''.'' # ys) = parse http_version_minor_start (req\<lparr>rq_major := v\<rparr>) ys"
  by (induction xs arbitrary: req) (auto simp: digit_not bind_outcome_Inr_iff)

lemma parse_minor:
  "list_all is_digit xs \<Longrightarrow> read_digits (rq_minor req) xs = Inr v \<Longrightarrow>
     parse http_version_minor req (xs @ cr # lf # ys) = parse header_line_start (req\<lparr>rq_minor := v\<rparr>) ys"
  by (induction xs arbitrary: req) (auto simp: digit_not bind_outcome_Inr_iff expect_def)

lemma parse_version_start:
  assumes "list_all is_digit xs" "xs \<noteq> []"
  shows "parse http_version_major_start req (xs @ ys) = parse http_version_major req (xs @ ys)"
    "parse http_version_minor_start req (xs @ ys) = parse http_version_minor req (xs @ ys)"
  using assms by (cases xs; simp add: digit_not)+

lemma request_headers_idem: "rq_headers req = hs \<Longrightarrow> req\<lparr>rq_headers := hs\<rparr> = req"
  by (cases req) simp

lemma parse_name:
  "list_all is_token xs \<Longrightarrow> rq_headers req = hs @ [\<lparr>hd_name = n, hd_value = v\<rparr>] \<Longrightarrow>
     parse header_name req (xs @ '': '' @ ys) = parse header_value (req\<lparr>rq_headers := hs @ [\<lparr>hd_name = n @ xs, hd_value = v\<rparr>]\<rparr>) ys"
  by (induction xs arbitrary: req n) (simp_all add: token_not headers_back_def push_name_def expect_def request_headers_idem)

lemma parse_value:
  "list_all (\<lambda>c. \<not> is_ctl c) xs \<Longrightarrow> rq_headers req = hs @ [\<lparr>hd_name = n, hd_value = v\<rparr>] \<Longrightarrow>
     parse header_value req (xs @ cr # lf # ys) =
       parse header_line_start (req\<lparr>rq_headers := hs @ [\<lparr>hd_name = n, hd_value = v @ xs\<rparr>]\<rparr>) ys"
  by (induction xs arbitrary: req v) (simp_all add: ctl_cr headers_back_def push_value_def expect_def request_headers_idem)

lemma parse_header:
  assumes "header_ok h"
  shows "parse header_line_start req (print_header h @ ys) =
           parse header_line_start (req\<lparr>rq_headers := rq_headers req @ [h]\<rparr>) ys"
proof -
  obtain c cs where n: "hd_name h = c # cs" "is_token c" "list_all is_token cs"
    using assms by (cases "hd_name h") (auto simp: header_ok_def)
  have v: "list_all (\<lambda>c. \<not> is_ctl c) (hd_value h)" using assms by (simp add: header_ok_def)
  let ?r = "\<lambda>n v. req\<lparr>rq_headers := rq_headers req @ [\<lparr>hd_name = n, hd_value = v\<rparr>]\<rparr>"
  have "parse header_line_start req (print_header h @ ys) = parse header_name (?r [c] []) (cs @ '': '' @ hd_value h @ cr # lf # ys)"
    using n(1,2) by (simp add: print_header_def token_not)
  also have "\<dots> = parse header_value (?r (c # cs) []) (hd_value h @ cr # lf # ys)"
    using parse_name [OF n(3), of "?r [c] []" "rq_headers req" "[c]" "[]"] by simp
  also have "\<dots> = parse header_line_start (?r (c # cs) (hd_value h)) ys"
    using parse_value [OF v, of "?r (c # cs) []" "rq_headers req" "c # cs" "[]"] by simp
  finally show ?thesis using n(1) by (cases h) simp
qed

lemma parse_headers:
  "list_all header_ok hs \<Longrightarrow> parse header_line_start req (concat (map print_header hs) @ ys) =
     parse header_line_start (req\<lparr>rq_headers := rq_headers req @ hs\<rparr>) ys"
  by (induction hs arbitrary: req) (simp_all add: parse_header)

text \<open>Parsing inverts printing.  A well-formed request that is written out, with the version numbers in decimal, followed by
  anything, is parsed to itself with a good verdict, and what follows it is left unread.\<close>

lemma request_print_parse:
  assumes "request_ok req" "rq_method req \<noteq> []" "rq_major req + 48 < 2 ^ 31" "rq_minor req + 48 < 2 ^ 31"
  shows "parse method_start request_init (print_request req @ body) = Inr (Good, expecting_newline_3, req, body)"
proof -
  obtain c cs where m: "rq_method req = c # cs" "is_token c" "list_all is_token cs"
    using assms(1,2) by (cases "rq_method req") (auto simp: request_ok_def)
  have ok: "list_all uri_char (rq_uri req)" "list_all header_ok (rq_headers req)" "0 \<le> rq_major req" "0 \<le> rq_minor req"
    using assms(1) by (simp_all add: request_ok_def)
  let ?maj = "nat_to_string (nat (rq_major req))" and ?min = "nat_to_string (nat (rq_minor req))"
  have r: "read_digits 0 ?maj = Inr (rq_major req)" "read_digits 0 ?min = Inr (rq_minor req)"
    using read_nat_to_string [of "nat (rq_major req)"] read_nat_to_string [of "nat (rq_minor req)"] ok assms(3,4) by simp_all
  let ?hs = "concat (map print_header (rq_headers req)) @ [cr, lf] @ body"
  let ?r = "\<lambda>maj min hs. \<lparr>rq_method = rq_method req, rq_uri = rq_uri req, rq_major = maj, rq_minor = min, rq_headers = hs\<rparr>"
  have "parse method_start request_init (print_request req @ body) =
      parse http_method (request_init\<lparr>rq_method := [c]\<rparr>) (cs @ CHR '' '' # rq_uri req @ CHR '' '' # ''HTTP/'' @ ?maj @ CHR ''.'' # ?min @ cr # lf # ?hs)"
    using m(1,2) by (simp add: print_request_def token_not request_init_def)
  also have "\<dots> = parse http_version_h (?r 0 0 []) (''HTTP/'' @ ?maj @ CHR ''.'' # ?min @ cr # lf # ?hs)"
    unfolding parse_method [OF m(3)] parse_uri [OF ok(1)] using m(1) by (simp add: request_init_def)
  also have "\<dots> = parse http_version_major_start (?r 0 0 []) (?maj @ CHR ''.'' # ?min @ cr # lf # ?hs)"
    by (simp add: expect_def)
  also have "\<dots> = parse http_version_minor_start (?r (rq_major req) 0 []) (?min @ cr # lf # ?hs)"
    unfolding parse_version_start(1) [OF nat_to_string_digits]
    by (subst parse_major [OF nat_to_string_digits(1), where v = "rq_major req"]) (simp_all add: r)
  also have "\<dots> = parse header_line_start (?r (rq_major req) (rq_minor req) []) ?hs"
    unfolding parse_version_start(2) [OF nat_to_string_digits]
    by (subst parse_minor [OF nat_to_string_digits(1), where v = "rq_minor req"]) (simp_all add: r)
  also have "\<dots> = parse header_line_start (?r (rq_major req) (rq_minor req) (rq_headers req)) ([cr, lf] @ body)"
    unfolding parse_headers [OF ok(2)] by simp
  also have "\<dots> = Inr (Good, expecting_newline_3, req, body)" by simp
  finally show ?thesis .
qed

definition demo_request :: request where
  "demo_request = \<lparr>rq_method = ''GET'', rq_uri = ''/a%20b'', rq_major = 1, rq_minor = 1,
     rq_headers = [\<lparr>hd_name = ''Host'', hd_value = ''x:80''\<rparr>, \<lparr>hd_name = ''Accept'', hd_value = []\<rparr>]\<rparr>"

lemma demo_request_parsed:
  "parse method_start request_init (print_request demo_request @ ''rest'') =
     Inr (Good, expecting_newline_3, demo_request, ''rest'')"
proof (rule request_print_parse)
  show "request_ok demo_request" "rq_method demo_request \<noteq> []" "rq_major demo_request + 48 < 2 ^ 31"
    "rq_minor demo_request + 48 < 2 ^ 31" by code_simp+
qed

end
