(* ===== verification/Http_Response.thy ===== *)
theory Http_Response
  imports Http_Request
begin

text \<open>
  Responses of the HTTP server (\<^verbatim>\<open>net/http/http_response.hpp\<close>): the status lines and the default pages, the types of files by
  extension, and the sequence of buffers a response is written from.
\<close>

section \<open>Status\<close>

datatype status_type =
    St_ok | St_created | St_accepted | St_no_content
  | St_multiple_choices | St_moved_permanently | St_moved_temporarily | St_not_modified
  | St_bad_request | St_unauthorized | St_forbidden | St_not_found
  | St_internal_server_error | St_not_implemented | St_bad_gateway | St_service_unavailable

fun status_code :: "status_type \<Rightarrow> nat" where
  "status_code St_ok = 200"
| "status_code St_created = 201"
| "status_code St_accepted = 202"
| "status_code St_no_content = 204"
| "status_code St_multiple_choices = 300"
| "status_code St_moved_permanently = 301"
| "status_code St_moved_temporarily = 302"
| "status_code St_not_modified = 304"
| "status_code St_bad_request = 400"
| "status_code St_unauthorized = 401"
| "status_code St_forbidden = 403"
| "status_code St_not_found = 404"
| "status_code St_internal_server_error = 500"
| "status_code St_not_implemented = 501"
| "status_code St_bad_gateway = 502"
| "status_code St_service_unavailable = 503"

text \<open>\<^verbatim>\<open>status_line::status_to_buffer\<close>.\<close>

fun status_to_buffer :: "status_type \<Rightarrow> string" where
  "status_to_buffer St_ok = ''HTTP/1.1 200 OK'' @ [cr, lf]"
| "status_to_buffer St_created = ''HTTP/1.1 201 Created'' @ [cr, lf]"
| "status_to_buffer St_accepted = ''HTTP/1.1 202 Accepted'' @ [cr, lf]"
| "status_to_buffer St_no_content = ''HTTP/1.1 204 No Content'' @ [cr, lf]"
| "status_to_buffer St_multiple_choices = ''HTTP/1.1 300 Multiple Choices'' @ [cr, lf]"
| "status_to_buffer St_moved_permanently = ''HTTP/1.1 301 Moved Permanently'' @ [cr, lf]"
| "status_to_buffer St_moved_temporarily = ''HTTP/1.1 302 Moved Temporarily'' @ [cr, lf]"
| "status_to_buffer St_not_modified = ''HTTP/1.1 304 Not Modified'' @ [cr, lf]"
| "status_to_buffer St_bad_request = ''HTTP/1.1 400 Bad Request'' @ [cr, lf]"
| "status_to_buffer St_unauthorized = ''HTTP/1.1 401 Unauthorized'' @ [cr, lf]"
| "status_to_buffer St_forbidden = ''HTTP/1.1 403 Forbidden'' @ [cr, lf]"
| "status_to_buffer St_not_found = ''HTTP/1.1 404 Not Found'' @ [cr, lf]"
| "status_to_buffer St_internal_server_error = ''HTTP/1.1 500 Internal Server Error'' @ [cr, lf]"
| "status_to_buffer St_not_implemented = ''HTTP/1.1 501 Not Implemented'' @ [cr, lf]"
| "status_to_buffer St_bad_gateway = ''HTTP/1.1 502 Bad Gateway'' @ [cr, lf]"
| "status_to_buffer St_service_unavailable = ''HTTP/1.1 503 Service Unavailable'' @ [cr, lf]"

text \<open>\<^verbatim>\<open>response_content::to_string\<close>.\<close>

fun response_content :: "status_type \<Rightarrow> string" where
  "response_content St_ok =
     ''<html><head><title>Hello</title></head>'' @
     ''<body><h1>Hello async_simple</h1></body></html>''"
| "response_content St_created =
     ''<html><head><title>Created</title></head>'' @
     ''<body><h1>201 Created</h1></body></html>''"
| "response_content St_accepted =
     ''<html><head><title>Accepted</title></head>'' @
     ''<body><h1>202 Accepted</h1></body></html>''"
| "response_content St_no_content =
     ''<html><head><title>No Content</title></head>'' @
     ''<body><h1>204 Content</h1></body></html>''"
| "response_content St_multiple_choices =
     ''<html><head><title>Multiple Choices</title></head>'' @
     ''<body><h1>300 Multiple Choices</h1></body></html>''"
| "response_content St_moved_permanently =
     ''<html><head><title>Moved Permanently</title></head>'' @
     ''<body><h1>301 Moved Permanently</h1></body></html>''"
| "response_content St_moved_temporarily =
     ''<html><head><title>Moved Temporarily</title></head>'' @
     ''<body><h1>302 Moved Temporarily</h1></body></html>''"
| "response_content St_not_modified =
     ''<html><head><title>Not Modified</title></head>'' @
     ''<body><h1>304 Not Modified</h1></body></html>''"
| "response_content St_bad_request =
     ''<html><head><title>Bad Request</title></head>'' @
     ''<body><h1>400 Bad Request</h1></body></html>''"
| "response_content St_unauthorized =
     ''<html><head><title>Unauthorized</title></head>'' @
     ''<body><h1>401 Unauthorized</h1></body></html>''"
| "response_content St_forbidden =
     ''<html><head><title>Forbidden</title></head>'' @
     ''<body><h1>403 Forbidden</h1></body></html>''"
| "response_content St_not_found =
     ''<html><head><title>Not Found</title></head>'' @
     ''<body><h1>404 Not Found</h1></body></html>''"
| "response_content St_internal_server_error =
     ''<html><head><title>Internal Server Error</title></head>'' @
     ''<body><h1>500 Internal Server Error</h1></body></html>''"
| "response_content St_not_implemented =
     ''<html><head><title>Not Implemented</title></head>'' @
     ''<body><h1>501 Not Implemented</h1></body></html>''"
| "response_content St_bad_gateway =
     ''<html><head><title>Bad Gateway</title></head>'' @
     ''<body><h1>502 Bad Gateway</h1></body></html>''"
| "response_content St_service_unavailable =
     ''<html><head><title>Service Unavailable</title></head>'' @
     ''<body><h1>503 Service Unavailable</h1></body></html>''"

text \<open>Every status line consists of the version, the three digits of the code, a text and the end of the line.\<close>

definition status_text :: "status_type \<Rightarrow> string" where
  "status_text s = takeWhile (\<lambda>c. c \<noteq> cr) (drop 13 (status_to_buffer s))"

lemma status_to_buffer_line:
  "status_to_buffer s = ''HTTP/1.1 '' @ nat_to_string (status_code s) @ '' '' @ status_text s @ [cr, lf]"
  "lf \<notin> set (status_text s)"
proof -
  show "status_to_buffer s = ''HTTP/1.1 '' @ nat_to_string (status_code s) @ '' '' @ status_text s @ [cr, lf]"
    by (cases s; hypsubst; code_simp)
  show "lf \<notin> set (status_text s)"
    by (cases s; hypsubst; code_simp)
qed

section \<open>Responses\<close>

definition mime_map :: "(string \<times> string) list" where
  "mime_map = [(''gif'', ''image/gif''), (''htm'', ''text/html''), (''html'', ''text/html''), (''jpg'', ''image/jpeg''),
     (''png'', ''image/png'')]"

definition extension_to_type :: "string \<Rightarrow> string" where
  "extension_to_type extension = (case map_of mime_map extension of Some t \<Rightarrow> t | None \<Rightarrow> ''text/plain'')"

record response =
  rp_status :: status_type
  rp_headers :: "header list"
  rp_content :: string

definition header_buffers :: "header \<Rightarrow> string list" where
  "header_buffers h = [hd_name h, '': '', hd_value h, [cr, lf]]"

definition to_buffers :: "response \<Rightarrow> string list" where
  "to_buffers rep = status_to_buffer (rp_status rep) # concat (map header_buffers (rp_headers rep)) @ [[cr, lf], rp_content rep]"

definition build_response :: "status_type \<Rightarrow> response" where
  "build_response status =
     (let content = response_content status in
      \<lparr>rp_status = status,
       rp_headers = [\<lparr>hd_name = ''Content-Length'', hd_value = nat_to_string (length content)\<rparr>,
                     \<lparr>hd_name = ''Content-Type'', hd_value = ''text/html''\<rparr>],
       rp_content = content\<rparr>)"

lemma concat_header_buffers: "concat (header_buffers h) = print_header h"
  by (simp add: header_buffers_def print_header_def)

lemma concat_map_header_buffers: "concat (concat (map header_buffers hs)) = concat (map print_header hs)"
  by (induction hs) (simp_all add: concat_header_buffers)

lemma concat_to_buffers:
  "concat (to_buffers rep) =
     status_to_buffer (rp_status rep) @ concat (map print_header (rp_headers rep)) @ [cr, lf] @ rp_content rep"
  by (simp add: to_buffers_def concat_map_header_buffers)

end
