(* ===== verification/Std_String.thy ===== *)
theory Std_String
  imports Http_Request
begin

text \<open>
  The operations of \<^verbatim>\<open>std::string\<close>, \<^verbatim>\<open><cctype>\<close> (in the default locale) and the number readers of the standard library
  that the HTTP server and client use.  \<^verbatim>\<open>npos\<close> is \<open>None\<close>.
\<close>

section \<open>Characters\<close>

definition isspace :: "char \<Rightarrow> bool" where
  "isspace c \<longleftrightarrow> c \<in> {CHR 32, CHR 9, CHR 10, CHR 11, CHR 12, CHR 13}"

definition tolower :: "char \<Rightarrow> char" where
  "tolower c = (let n = of_char c :: nat in if 65 \<le> n \<and> n \<le> 90 then char_of (n + 32) else c)"

definition lowercase :: "string \<Rightarrow> string" where
  "lowercase s = map tolower s"

definition xdigit :: "char \<Rightarrow> nat option" where
  "xdigit c =
     (let n = of_char c :: nat in
      if 48 \<le> n \<and> n \<le> 57 then Some (n - 48)
      else if 65 \<le> n \<and> n \<le> 70 then Some (n - 55)
      else if 97 \<le> n \<and> n \<le> 102 then Some (n - 87) else None)"

section \<open>Searching\<close>

fun string_find :: "string \<Rightarrow> string \<Rightarrow> nat option" where
  "string_find pat s =
     (if take (length pat) s = pat then Some 0
      else case s of [] \<Rightarrow> None | c # cs \<Rightarrow> map_option Suc (string_find pat cs))"

declare string_find.simps [simp del]

definition string_rfind :: "char \<Rightarrow> string \<Rightarrow> nat option" where
  "string_rfind c s =
     (if c \<in> set s then Some (length s - 1 - length (takeWhile (\<lambda>x. x \<noteq> c) (rev s))) else None)"

definition substr :: "nat \<Rightarrow> string \<Rightarrow> string" where
  "substr pos s = drop pos s"

text \<open>Removing the white space at both ends.\<close>

definition trim :: "string \<Rightarrow> string" where
  "trim s = rev (dropWhile isspace (rev (dropWhile isspace s)))"

lemma string_find_None_iff: "string_find pat s = None \<longleftrightarrow> \<not> sublist pat s"
proof (induction s)
  case Nil
  show ?case by (subst string_find.simps) simp
next
  case (Cons c s)
  have "take (length pat) (c # s) = pat \<longleftrightarrow> prefix pat (c # s)" by (metis append_eq_conv_conj prefix_def)
  with Cons show ?case by (subst string_find.simps) (simp add: sublist_Cons_right)
qed

lemma string_find_first: "p \<notin> set xs \<Longrightarrow> string_find (p # ps) (xs @ p # ps @ ys) = Some (length xs)"
proof (induction xs)
  case Nil
  show ?case by (subst string_find.simps) simp
next
  case (Cons x xs)
  then show ?case by (subst string_find.simps) auto
qed

lemma string_find_char_Some: "c \<notin> set xs \<Longrightarrow> string_find [c] (xs @ c # ys) = Some (length xs)"
  using string_find_first [of c xs "[]" ys] by simp

lemma string_find_char_None: "string_find [c] s = None \<longleftrightarrow> c \<notin> set s"
  by (simp add: string_find_None_iff sublist_def) (metis in_set_conv_decomp)

lemma string_rfind_append: "c \<notin> set ys \<Longrightarrow> string_rfind c (xs @ c # ys) = Some (length xs)"
  by (auto simp: string_rfind_def takeWhile_append)

lemma trim_around:
  assumes "xs \<noteq> []" "\<not> isspace (hd xs)" "\<not> isspace (last xs)" "isspace a" "isspace b"
  shows "trim (a # xs @ [b]) = xs"
proof -
  have "dropWhile isspace (xs @ [b]) = xs @ [b]" using assms(1,2) by (cases xs) simp_all
  moreover have "dropWhile isspace (rev xs) = rev xs" using assms(1,3) by (cases xs rule: rev_cases) simp_all
  ultimately show ?thesis using assms(4,5) by (simp add: trim_def)
qed

section \<open>Reading numbers\<close>

definition read_sign :: "string \<Rightarrow> bool \<times> string" where
  "read_sign s = (case s of c # cs \<Rightarrow> (if c = CHR ''-'' then (True, cs) else if c = CHR ''+'' then (False, cs) else (False, s)) | [] \<Rightarrow> (False, s))"

definition digits_value :: "nat \<Rightarrow> (char \<Rightarrow> nat option) \<Rightarrow> string \<Rightarrow> nat" where
  "digits_value base digit ds = fold (\<lambda>c v. v * base + the (digit c)) ds 0"

text \<open>\<^verbatim>\<open>stream >> std::hex >> value\<close> for an \<^verbatim>\<open>int\<close> and a short field: white space, a sign, the prefix \<^verbatim>\<open>0x\<close>, and
  as many hexadecimal digits as there are, at least one.\<close>

definition read_hex :: "string \<Rightarrow> int option" where
  "read_hex s =
     (let (neg, s1) = read_sign (dropWhile isspace s);
          s2 = (if take 2 s1 \<in> {''0x'', ''0X''} then drop 2 s1 else s1);
          ds = takeWhile (\<lambda>c. xdigit c \<noteq> None) s2 in
      if ds = [] then None
      else let v = int (digits_value 16 xdigit ds) in Some (if neg then - v else v))"

definition decimal :: "char \<Rightarrow> nat option" where
  "decimal c = (if is_digit c then Some (of_char c - 48) else None)"

text \<open>The conversion behind \<^verbatim>\<open>std::stoull\<close> and \<^verbatim>\<open>stream >> unsigned\<close>, for \<open>w\<close> bits: a negative number wraps around, a number out of
  range is an error.  The result comes with the unread rest.\<close>

definition read_unsigned :: "nat \<Rightarrow> string \<Rightarrow> (nat \<times> string) option" where
  "read_unsigned w s =
     (let (neg, s1) = read_sign (dropWhile isspace s);
          ds = takeWhile is_digit s1;
          v = digits_value 10 decimal ds in
      if ds = [] \<or> 2 ^ w \<le> v then None
      else Some (if neg then (2 ^ w - v) mod 2 ^ w else v, drop (length ds) s1))"

lemma decimal_digit: "d < 10 \<Longrightarrow> decimal (char_of (48 + d :: nat)) = Some d"
  by (simp add: decimal_def is_digit_char take_bit_eq_mod)

lemma digits_value_snoc: "digits_value base digit (xs @ [c]) = digits_value base digit xs * base + the (digit c)"
  by (simp add: digits_value_def)

lemma digits_value_nat_to_string: "digits_value 10 decimal (nat_to_string n) = n"
proof (induction n rule: nat_to_string.induct)
  case (1 n)
  show ?case
  proof (cases "n < 10")
    case True
    then show ?thesis by (subst nat_to_string.simps) (simp add: digits_value_def decimal_digit)
  next
    case False
    with 1 show ?thesis by (subst nat_to_string.simps) (simp add: digits_value_snoc decimal_digit)
  qed
qed

lemma digit_not_space_sign: "is_digit c \<Longrightarrow> \<not> isspace c" "is_digit c \<Longrightarrow> c \<noteq> CHR ''-''" "is_digit c \<Longrightarrow> c \<noteq> CHR ''+''"
  by (auto simp: is_digit_def schar_def isspace_def)

text \<open>A number that was printed is read back.\<close>

lemma read_unsigned_print:
  assumes "n < 2 ^ w" "rest = [] \<or> \<not> is_digit (hd rest)"
  shows "read_unsigned w (nat_to_string n @ rest) = Some (n, rest)"
proof -
  obtain c cs where c: "nat_to_string n = c # cs" "is_digit c"
    using nat_to_string_digits [of n] by (cases "nat_to_string n") auto
  have "takeWhile is_digit (nat_to_string n @ rest) = nat_to_string n"
    using assms(2) nat_to_string_digits(1) [of n] by (cases rest) (auto simp: list_all_iff takeWhile_append2)
  moreover have "read_sign (dropWhile isspace (nat_to_string n @ rest)) = (False, nat_to_string n @ rest)"
    using c by (simp add: read_sign_def digit_not_space_sign)
  ultimately show ?thesis
    using assms(1) nat_to_string_digits(2) [of n] by (simp add: read_unsigned_def digits_value_nat_to_string)
qed

end
