(* ===== verification/Http_Connection.thy ===== *)
theory Http_Connection
  imports Http_Response Std_String
begin

text \<open>
  The connection of the HTTP server (\<^verbatim>\<open>net/http/connection.hpp\<close>): decoding of the path, the answer to a request from the files
  below the document root, and the loop that reads, parses, answers and keeps the connection alive.

  The file system is a parameter: \<open>files p\<close> is the content that opening and reading the path \<open>p\<close> gives, \<open>None\<close> when it cannot
  be opened.  The socket is the sequence of what the reads and writes return.
\<close>

section \<open>Decoding the path\<close>

text \<open>\<^verbatim>\<open>url_decode\<close>.\<close>

fun url_decode :: "string \<Rightarrow> string option" where
  "url_decode [] = Some []"
| "url_decode (c # cs) =
     (if c = CHR ''%'' then
        (case cs of
           a # b # rest \<Rightarrow>
             (case read_hex [a, b] of
                Some v \<Rightarrow> map_option ((#) (char_of (v mod 256))) (url_decode rest)
              | None \<Rightarrow> None)
         | _ \<Rightarrow> None)
      else if c = CHR ''+'' then map_option ((#) (CHR '' '')) (url_decode cs)
      else map_option ((#) c) (url_decode cs))"

text \<open>The reference encoder: two hexadecimal digits for every character that is not kept as it is.\<close>

definition hex_digit :: "nat \<Rightarrow> char" where
  "hex_digit d = (if d < 10 then char_of (48 + d) else char_of (55 + d))"

definition percent :: "char \<Rightarrow> string" where
  "percent c = [CHR ''%'', hex_digit (of_char c div 16), hex_digit (of_char c mod 16)]"

definition url_encode :: "(char \<Rightarrow> bool) \<Rightarrow> string \<Rightarrow> string" where
  "url_encode keep s = concat (map (\<lambda>c. if keep c then [c] else percent c) s)"

lemma of_char_hex_digit: "d < 16 \<Longrightarrow> of_char (hex_digit d) = (if d < 10 then 48 + d else 55 + d)"
  by (simp add: hex_digit_def take_bit_eq_mod)

lemma xdigit_hex_digit: "d < 16 \<Longrightarrow> xdigit (hex_digit d) = Some d"
  by (auto simp: xdigit_def of_char_hex_digit Let_def)

lemma hex_digit_plain:
  assumes "d < 16"
  shows "\<not> isspace (hex_digit d)" "hex_digit d \<noteq> CHR ''-''" "hex_digit d \<noteq> CHR ''+''" "hex_digit d \<noteq> CHR ''x''" "hex_digit d \<noteq> CHR ''X''"
proof -
  let ?n = "of_char (hex_digit d) :: nat"
  have n: "48 \<le> ?n" "?n \<le> 70" using of_char_hex_digit [OF assms] assms by auto
  show "\<not> isspace (hex_digit d)" using n by (auto simp: isspace_def)
  show "hex_digit d \<noteq> CHR ''-''" "hex_digit d \<noteq> CHR ''+''" "hex_digit d \<noteq> CHR ''x''" "hex_digit d \<noteq> CHR ''X''"
    using n by auto
qed

lemma read_hex_digits:
  assumes "a < 16" "b < 16"
  shows "read_hex [hex_digit a, hex_digit b] = Some (int (16 * a + b))"
  using assms by (simp add: read_hex_def read_sign_def hex_digit_plain xdigit_hex_digit digits_value_def)

lemma of_char_less: "(of_char c :: nat) < 256"
  by (metis of_char_mod_256 mod_less_divisor zero_less_numeral)

lemma url_decode_percent: "url_decode (percent c @ s) = map_option ((#) c) (url_decode s)"
proof -
  let ?n = "of_char c :: nat"
  have n: "?n div 16 < 16" "?n mod 16 < 16" "16 * (?n div 16) + ?n mod 16 = ?n"
    using of_char_less [of c] by (simp_all add: less_mult_imp_div_less)
  have "read_hex [hex_digit (?n div 16), hex_digit (?n mod 16)] = Some (int ?n)"
    unfolding read_hex_digits [OF n(1,2)] n(3) ..
  moreover have "char_of (int ?n mod 256) = c" by simp
  ultimately show ?thesis by (simp add: percent_def)
qed



text \<open>The digits are read with a stream, so a sign, a blank and a half-valid escape pass as well.\<close>

lemma url_decode_lenient:
  "url_decode ''%-1'' = Some [CHR 255]" "url_decode ''%+7'' = Some [CHR 7]" "url_decode ''% 7'' = Some [CHR 7]"
  "url_decode ''%1g'' = Some [CHR 0x01]" "url_decode ''%0x'' = None" "url_decode ''%g1'' = None"
  by code_simp+

section \<open>Answering a request\<close>

text \<open>A file is read in blocks of 2048 bytes.\<close>

function read_blocks :: "string \<Rightarrow> string" where
  "read_blocks rest = (let buf = take 2048 rest in if buf = [] then [] else buf @ read_blocks (drop 2048 rest))"
  by auto
termination by (relation "measure length") auto

declare read_blocks.simps [simp del]

lemma read_blocks_all: "read_blocks s = s"
  by (induction s rule: read_blocks.induct) (subst read_blocks.simps, auto simp: Let_def)

definition path_extension :: "string \<Rightarrow> string" where
  "path_extension path =
     (case string_rfind (CHR ''.'') path of
        None \<Rightarrow> []
      | Some dot \<Rightarrow> (case string_rfind (CHR ''/'') path of
          None \<Rightarrow> []
        | Some slash \<Rightarrow> if slash < dot then substr (dot + 1) path else []))"

text \<open>\<^verbatim>\<open>full_path.c_str()\<close> ends at the first null character.\<close>

definition c_str :: "string \<Rightarrow> string" where
  "c_str s = takeWhile (\<lambda>c. c \<noteq> CHR 0x00) s"

definition path_refused :: "string \<Rightarrow> bool" where
  "path_refused path \<longleftrightarrow> path = [] \<or> hd path \<noteq> CHR ''/'' \<or> string_find ''..'' path \<noteq> None"

text \<open>\<^verbatim>\<open>handle_request\<close>.\<close>

definition handle_request :: "(string \<Rightarrow> string option) \<Rightarrow> string \<Rightarrow> request \<Rightarrow> response \<Rightarrow> response" where
  "handle_request files doc_root req rep =
     (case url_decode (rq_uri req) of
        None \<Rightarrow> build_response St_bad_request
      | Some path \<Rightarrow>
          if path_refused path then build_response St_bad_request
          else if last path = CHR ''/'' then build_response St_ok
          else
            (case files (c_str (doc_root @ path)) of
               None \<Rightarrow> build_response St_not_found
             | Some file \<Rightarrow>
                 let content = rp_content rep @ read_blocks file in
                 \<lparr>rp_status = St_ok,
                  rp_headers = [\<lparr>hd_name = ''Content-Length'', hd_value = nat_to_string (length content)\<rparr>,
                                \<lparr>hd_name = ''Content-Type'', hd_value = extension_to_type (path_extension path)\<rparr>],
                  rp_content = content\<rparr>))"

text \<open>A path that may be opened lies below the document root: it is the root followed by a slash and has no step upwards.\<close>

definition below_root :: "string \<Rightarrow> string \<Rightarrow> bool" where
  "below_root doc_root p \<longleftrightarrow> (\<exists>q. p = doc_root @ CHR ''/'' # q \<and> \<not> sublist ''..'' (CHR ''/'' # q))"

lemma opened_path_below_root:
  assumes "\<not> path_refused path" "CHR 0x00 \<notin> set doc_root"
  shows "below_root doc_root (c_str (doc_root @ path))"
proof -
  obtain q where q: "path = CHR ''/'' # q" "\<not> sublist ''..'' path"
    using assms(1) by (cases path) (auto simp: path_refused_def string_find_None_iff)
  let ?q = "takeWhile (\<lambda>c. c \<noteq> CHR 0x00) q"
  have "c_str (doc_root @ path) = doc_root @ CHR ''/'' # ?q"
    using assms(2) by (auto simp: c_str_def q(1) takeWhile_append)
  moreover have "sublist (CHR ''/'' # ?q) path"
    by (rule prefix_imp_sublist) (simp add: q(1) takeWhile_is_prefix)
  then have "\<not> sublist ''..'' (CHR ''/'' # ?q)" using q(2) sublist_order.order_trans by blast
  ultimately show ?thesis unfolding below_root_def by blast
qed

text \<open>C34: no request reaches a file outside the document root.  Two file systems that agree below the root give every request the
  same answer, whatever its path and its escapes: what lies elsewhere is neither sent nor probed for.\<close>

theorem handle_request_confined:
  assumes "CHR 0x00 \<notin> set doc_root" "\<And>p. below_root doc_root p \<Longrightarrow> files p = files' p"
  shows "handle_request files doc_root req rep = handle_request files' doc_root req rep"
proof (cases "url_decode (rq_uri req)")
  case (Some path)
  show ?thesis
  proof (cases "path_refused path")
    case False
    with assms have "files (c_str (doc_root @ path)) = files' (c_str (doc_root @ path))"
      by (simp add: opened_path_below_root)
    with Some show ?thesis by (simp add: handle_request_def)
  qed (use Some in \<open>simp add: handle_request_def\<close>)
qed (simp add: handle_request_def)

theorem handle_request_confined_witness:
  "let files = map_of [(''/srv/a.gif'', ''GIF''), (''/etc/passwd'', ''secret'')]; files' = map_of [(''/srv/a.gif'', ''GIF'')];
       req = (\<lambda>u. request_init\<lparr>rq_uri := u\<rparr>) in
   handle_request files ''/srv'' (req ''/a%2Egif'') (build_response St_ok) =
     handle_request files' ''/srv'' (req ''/a%2Egif'') (build_response St_ok) \<and>
   rp_status (handle_request files ''/srv'' (req ''/%2e%2E/etc/passwd'') (build_response St_ok)) = St_bad_request"
proof -
  have s: "rp_status (handle_request (map_of [(''/srv/a.gif'', ''GIF''), (''/etc/passwd'', ''secret'')]) ''/srv''
      (request_init\<lparr>rq_uri := ''/%2e%2E/etc/passwd''\<rparr>) (build_response St_ok)) = St_bad_request" by code_simp
  have "handle_request (map_of [(''/srv/a.gif'', ''GIF''), (''/etc/passwd'', ''secret'')]) ''/srv''
      (request_init\<lparr>rq_uri := ''/a%2Egif''\<rparr>) (build_response St_ok) =
    handle_request (map_of [(''/srv/a.gif'', ''GIF'')]) ''/srv'' (request_init\<lparr>rq_uri := ''/a%2Egif''\<rparr>) (build_response St_ok)"
    by (rule handle_request_confined) (auto simp: below_root_def)
  with s show ?thesis by (simp add: Let_def)
qed

section \<open>The connection\<close>

text \<open>\<^verbatim>\<open>is_keep_alive\<close>.\<close>

definition is_keep_alive :: "request \<Rightarrow> bool" where
  "is_keep_alive req \<longleftrightarrow>
     \<not> list_ex (\<lambda>h. lowercase (hd_name h) = ''connection'' \<and> lowercase (hd_value h) = ''close'') (rq_headers req)"

text \<open>A value-initialised response.  Its status is no enumerator; \<^verbatim>\<open>status_to_buffer\<close> treats it as an internal error, and it is
  overwritten before a response is sent.\<close>

definition response_init :: response where
  "response_init = \<lparr>rp_status = St_internal_server_error, rp_headers = [], rp_content = []\<rparr>"

definition push_header :: "string \<Rightarrow> string \<Rightarrow> response \<Rightarrow> response" where
  "push_header name val rep = rep\<lparr>rp_headers := rp_headers rep @ [\<lparr>hd_name = name, hd_value = val\<rparr>]\<rparr>"

text \<open>The members of a connection, with whether its loop still runs and what it has handed to \<^verbatim>\<open>async_write\<close>.\<close>

record connection =
  cn_parser :: parser_state
  cn_request :: request
  cn_response :: response
  cn_running :: bool
  cn_sent :: "string list"

definition connection_init :: connection where
  "connection_init = \<lparr>cn_parser = method_start, cn_request = request_init, cn_response = response_init,
     cn_running = True, cn_sent = []\<rparr>"

text \<open>What a read returns, with the result of the write that answers it.\<close>

datatype socket_event = Read_failed | Received string bool

definition connection_send :: "response \<Rightarrow> bool \<Rightarrow> connection \<Rightarrow> connection" where
  "connection_send rep go_on c = c\<lparr>cn_response := rep, cn_sent := cn_sent c @ [concat (to_buffers rep)], cn_running := go_on\<rparr>"

definition connection_reset :: "connection \<Rightarrow> connection" where
  "connection_reset c = c\<lparr>cn_request := request_init, cn_response := response_init, cn_parser := method_start\<rparr>"

text \<open>One round of the loop of \<^verbatim>\<open>start\<close>.\<close>

definition connection_round ::
  "(string \<Rightarrow> string option) \<Rightarrow> string \<Rightarrow> socket_event \<Rightarrow> connection \<Rightarrow> connection outcome" where
  "connection_round files doc_root ev c =
     (case ev of
        Read_failed \<Rightarrow> Inr (c\<lparr>cn_running := False\<rparr>)
      | Received xs written \<Rightarrow>
          bind_outcome (parse (cn_parser c) (cn_request c) xs) (\<lambda>(result, st, req, ignored).
            let c1 = c\<lparr>cn_parser := st, cn_request := req\<rparr> in
            Inr (case result of
                Good \<Rightarrow>
                  let keep_alive = is_keep_alive req;
                      rep = push_header ''Connection'' (if keep_alive then ''keep-alive'' else ''close'')
                              (handle_request files doc_root req (cn_response c)) in
                  if written \<and> keep_alive then connection_reset (connection_send rep True c1)
                  else connection_send rep False c1
              | Bad \<Rightarrow>
                  connection_send (push_header ''Connection'' ''close'' (build_response St_bad_request)) False c1
              | Indeterminate \<Rightarrow> c1)))"

text \<open>\<^verbatim>\<open>start\<close>, on the events of the socket so far.\<close>

fun connection_start ::
  "(string \<Rightarrow> string option) \<Rightarrow> string \<Rightarrow> socket_event list \<Rightarrow> connection \<Rightarrow> connection outcome" where
  "connection_start files doc_root [] c = Inr c"
| "connection_start files doc_root (ev # evs) c =
     (if cn_running c then bind_outcome (connection_round files doc_root ev c) (connection_start files doc_root evs) else Inr c)"


definition answer :: "(string \<Rightarrow> string option) \<Rightarrow> string \<Rightarrow> request \<Rightarrow> response" where
  "answer files doc_root req =
     push_header ''Connection'' (if is_keep_alive req then ''keep-alive'' else ''close'')
       (handle_request files doc_root req response_init)"

definition received :: "string \<Rightarrow> socket_event" where
  "received xs = Received xs True"

definition servable :: "request \<Rightarrow> bool" where
  "servable req \<longleftrightarrow> request_ok req \<and> rq_method req \<noteq> [] \<and> rq_major req + 48 < 2 ^ 31 \<and> rq_minor req + 48 < 2 ^ 31"

definition responded ::
  "(string \<Rightarrow> string option) \<Rightarrow> string \<Rightarrow> request \<Rightarrow> connection \<Rightarrow> connection" where
  "responded files doc_root req c =
     (if is_keep_alive req then connection_reset (connection_send (answer files doc_root req) True c)
      else connection_send (answer files doc_root req) False c)"

lemma connection_start_closed: "\<not> cn_running c \<Longrightarrow> connection_start files doc_root evs c = Inr c"
  by (cases evs) simp_all

lemma connection_round_open:
  "parse (cn_parser c) (cn_request c) xs = Inr (Indeterminate, st, req, rest) \<Longrightarrow>
   connection_round files doc_root (received xs) c = Inr (c\<lparr>cn_parser := st, cn_request := req\<rparr>)"
  by (simp add: connection_round_def received_def Let_def)

lemma connection_round_good:
  "parse (cn_parser c) (cn_request c) xs = Inr (Good, st, req, rest) \<Longrightarrow> cn_response c = response_init \<Longrightarrow>
   connection_round files doc_root (received xs) c = Inr (responded files doc_root req (c\<lparr>cn_parser := st, cn_request := req\<rparr>))"
  by (simp add: connection_round_def received_def responded_def answer_def Let_def)

lemma connection_skip_empty:
  "concat xss = [] \<Longrightarrow> connection_start files doc_root (map received xss @ evs) c = connection_start files doc_root evs c"
proof (induction xss)
  case (Cons xs xss)
  then have "xs = []" by simp
  with Cons show ?case by (cases "cn_running c") (simp_all add: connection_round_open connection_start_closed)
qed simp

lemma connection_chunks:
  assumes "parse (cn_parser c) (cn_request c) (concat xss) = Inr (Good, st, req, [])" "cn_running c" "cn_response c = response_init"
  shows "connection_start files doc_root (map received xss @ evs) c =
    connection_start files doc_root evs (responded files doc_root req (c\<lparr>cn_parser := st, cn_request := req\<rparr>))"
  using assms
proof (induction xss arbitrary: c)
  case (Cons xs xss)
  then obtain r st1 req1 rest where p: "parse (cn_parser c) (cn_request c) xs = Inr (r, st1, req1, rest)"
    and q: "(if r = Indeterminate then parse st1 req1 (concat xss) else Inr (r, st1, req1, rest @ concat xss)) = Inr (Good, st, req, [])"
    by (auto simp: parse_append bind_outcome_Inr_iff)
  show ?case
  proof (cases "r = Indeterminate")
    case True
    with p q Cons.IH [of "c\<lparr>cn_parser := st1, cn_request := req1\<rparr>"] Cons.prems(2,3) show ?thesis
      by (simp add: connection_round_open)
  next
    case False
    with q have e: "r = Good" "st1 = st" "req1 = req" "concat xss = []" by auto
    with p Cons.prems(2,3) show ?thesis by (simp add: connection_round_good connection_skip_empty)
  qed
qed simp

text \<open>A connection that waits for its next request.\<close>

definition waiting :: "string list \<Rightarrow> connection" where
  "waiting sent = connection_init\<lparr>cn_sent := sent\<rparr>"

lemma connection_serves_one:
  assumes "servable req" "concat xss = print_request req"
  shows "connection_start files doc_root (map received xss @ evs) (waiting sent) =
    connection_start files doc_root evs
      (responded files doc_root req ((waiting sent)\<lparr>cn_parser := expecting_newline_3, cn_request := req\<rparr>))"
  by (rule connection_chunks)
    (use assms request_print_parse [of req "[]"] in \<open>simp_all add: waiting_def connection_init_def servable_def\<close>)

lemma responded_keep_alive:
  "is_keep_alive req \<Longrightarrow> responded files doc_root req ((waiting sent)\<lparr>cn_parser := st, cn_request := req\<rparr>) =
     waiting (sent @ [concat (to_buffers (answer files doc_root req))])"
  by (simp add: responded_def waiting_def connection_init_def connection_reset_def connection_send_def)

text \<open>The requests that are answered: up to the first one that asks to close.\<close>

fun answered :: "request list \<Rightarrow> request list" where
  "answered [] = []"
| "answered (req # reqs) = req # (if is_keep_alive req then answered reqs else [])"

lemma connection_serves_from:
  assumes "list_all2 (\<lambda>req xss. servable req \<and> concat xss = print_request req) reqs xsss"
  shows "\<exists>c. connection_start files doc_root (map received (concat xsss)) (waiting sent) = Inr c \<and>
    cn_sent c = sent @ map (\<lambda>req. concat (to_buffers (answer files doc_root req))) (answered reqs) \<and>
    cn_running c = list_all is_keep_alive reqs"
  using assms
proof (induction reqs xsss arbitrary: sent rule: list_all2_induct)
  case Nil
  show ?case by (simp add: waiting_def connection_init_def)
next
  case (Cons req reqs xss xsss)
  have s: "connection_start files doc_root (map received (concat (xss # xsss))) (waiting sent) =
    connection_start files doc_root (map received (concat xsss))
      (responded files doc_root req ((waiting sent)\<lparr>cn_parser := expecting_newline_3, cn_request := req\<rparr>))"
    using connection_serves_one [of req xss files doc_root "map received (concat xsss)" sent] Cons.hyps by simp
  show ?case
  proof (cases "is_keep_alive req")
    case True
    with Cons.IH [of "sent @ [concat (to_buffers (answer files doc_root req))]"] show ?thesis
      unfolding s responded_keep_alive [OF True] by simp
  next
    case False
    then show ?thesis unfolding s by (simp add: responded_def connection_send_def connection_start_closed waiting_def)
  qed
qed



text \<open>What follows a request in the same read is lost.  The rest of the buffer after a complete request is dropped, so a
  client that sends a second request without waiting gets no answer to it: the connection ends in the state it would have had
  without those bytes.\<close>

lemma pipelined_bytes_dropped:
  assumes "servable req" "is_keep_alive req"
  shows "connection_start files doc_root [received (print_request req @ tail)] connection_init =
    Inr (waiting [concat (to_buffers (answer files doc_root req))])"
proof -
  let ?c = "connection_init\<lparr>cn_parser := expecting_newline_3, cn_request := req\<rparr>"
  have "parse method_start request_init (print_request req @ tail) = Inr (Good, expecting_newline_3, req, tail)"
    using assms(1) by (simp add: servable_def request_print_parse)
  then have "connection_round files doc_root (received (print_request req @ tail)) connection_init =
      Inr (responded files doc_root req ?c)"
    by (intro connection_round_good [where rest = tail]) (simp_all add: connection_init_def)
  moreover have "responded files doc_root req ?c = waiting [concat (to_buffers (answer files doc_root req))]"
    using responded_keep_alive [OF assms(2), where sent = "[]"] by (simp add: waiting_def connection_init_def)
  ultimately show ?thesis by (simp add: connection_init_def)
qed

lemma pipelined_bytes_dropped_witness:
  "connection_start (\<lambda>p. None) ''/srv'' [received (print_request demo_request @ print_request demo_request)] connection_init =
     Inr (waiting [concat (to_buffers (answer (\<lambda>p. None) ''/srv'' demo_request))])"
proof (rule pipelined_bytes_dropped)
  show "servable demo_request" "is_keep_alive demo_request" by code_simp+
qed

end
