(* ===== verification/Http_Client.thy ===== *)
theory Http_Client
  imports Http_Connection
begin

text \<open>
  The HTTP client (\<^verbatim>\<open>net/http/http_client.hpp\<close>): splitting a URL, building the request, reading the status line and the
  headers, and the loops that read the body, over the sequence of what the socket returns.  With the server of
  \<^verbatim>\<open>Http_Connection\<close> it gives the round trip of a call.
\<close>

section \<open>URLs\<close>

record parsed_url =
  pu_scheme :: string
  pu_host :: string
  pu_port :: string
  pu_path :: string

definition k_missing_host_err_msg :: string where
  "k_missing_host_err_msg = ''invalid url: missing host''"

definition k_scheme_err_msg :: string where
  "k_scheme_err_msg = ''only http scheme is supported''"

definition split_scheme :: "string \<Rightarrow> string \<times> string" where
  "split_scheme s =
     (case string_find ''://'' s of None \<Rightarrow> (''http'', s) | Some pos \<Rightarrow> (take pos s, substr (pos + 3) s))"

definition split_path :: "string \<Rightarrow> string \<times> string" where
  "split_path s =
     (case string_find ''/'' s of None \<Rightarrow> (s, ''/'') | Some pos \<Rightarrow> (take pos s, substr pos s))"

text \<open>The host and the port, which is empty when it is not given.\<close>

definition split_hostport :: "string \<Rightarrow> string \<times> string" where
  "split_hostport hostport =
     (if hostport \<noteq> [] \<and> hd hostport = CHR ''['' then
        (case string_find '']'' hostport of
           None \<Rightarrow> (hostport, [])
         | Some e \<Rightarrow>
             (take (e - 1) (substr 1 hostport),
              if e + 1 < length hostport \<and> hostport ! (e + 1) = CHR '':'' then substr (e + 2) hostport else []))
      else
        (case string_rfind (CHR '':'') hostport of
           None \<Rightarrow> (hostport, [])
         | Some pos \<Rightarrow> (take pos hostport, substr (pos + 1) hostport)))"

text \<open>\<^verbatim>\<open>parse_url\<close>.\<close>

definition parse_url :: "string \<Rightarrow> parsed_url outcome" where
  "parse_url url =
     (let (scheme, s) = split_scheme (trim url);
          (hostport, path) = split_path s;
          (host, port) = split_hostport hostport;
          port' = (if port = [] then (if scheme = ''https'' then ''443'' else ''80'') else port) in
      if host = [] then Inl (Invalid_argument k_missing_host_err_msg)
      else Inr \<lparr>pu_scheme = scheme, pu_host = host, pu_port = port', pu_path = path\<rparr>)"

lemma parse_url_examples:
  "parse_url ''  http://[::1]:8080/a '' = Inr \<lparr>pu_scheme = ''http'', pu_host = ''::1'', pu_port = ''8080'', pu_path = ''/a''\<rparr>"
  "parse_url ''localhost'' = Inr \<lparr>pu_scheme = ''http'', pu_host = ''localhost'', pu_port = ''80'', pu_path = ''/''\<rparr>"
  "parse_url ''https://h'' = Inr \<lparr>pu_scheme = ''https'', pu_host = ''h'', pu_port = ''443'', pu_path = ''/''\<rparr>"
  "parse_url ''http://:80/'' = Inl (Invalid_argument k_missing_host_err_msg)"
  "parse_url ''h/?u=ftp://x'' = Inr \<lparr>pu_scheme = ''h/?u=ftp'', pu_host = ''x'', pu_port = ''80'', pu_path = ''/''\<rparr>"
  by code_simp+

text \<open>A full URL, with blanks around it, is split at its separators.\<close>

lemma parse_url_parts:
  assumes "scheme \<noteq> []" "\<not> isspace (hd scheme)" "CHR '':'' \<notin> set scheme"
    and "host \<noteq> []" "hd host \<noteq> CHR ''[''" "CHR ''/'' \<notin> set host"
    and "port \<noteq> []" "CHR '':'' \<notin> set port" "CHR ''/'' \<notin> set port"
    and "\<not> isspace (last (CHR ''/'' # path))" "isspace a" "isspace b"
  shows "parse_url (a # (scheme @ ''://'' @ host @ '':'' @ port @ ''/'' @ path) @ [b]) =
    Inr \<lparr>pu_scheme = scheme, pu_host = host, pu_port = port, pu_path = CHR ''/'' # path\<rparr>"
proof -
  let ?rest = "host @ '':'' @ port @ ''/'' @ path"
  have t: "trim (a # (scheme @ ''://'' @ ?rest) @ [b]) = scheme @ ''://'' @ ?rest"
    by (rule trim_around) (use assms in simp_all)
  have s: "split_scheme (scheme @ ''://'' @ ?rest) = (scheme, ?rest)"
    using string_find_first [OF assms(3), of "''//''" ?rest] by (simp add: split_scheme_def substr_def)
  have "string_find ''/'' ((host @ '':'' @ port) @ ''/'' @ path) = Some (length (host @ '':'' @ port))"
    using string_find_first [of "CHR ''/''" "host @ '':'' @ port" "[]" path] assms(6,9) by simp
  then have p: "split_path ?rest = (host @ '':'' @ port, CHR ''/'' # path)"
    by (simp add: split_path_def substr_def)
  have "string_rfind (CHR '':'') (host @ '':'' @ port) = Some (length host)"
    using string_rfind_append [OF assms(8), of host] by simp
  then have "split_hostport (host @ '':'' @ port) = (host, port)"
    using assms(4,5) by (simp add: split_hostport_def substr_def)
  with t s p assms(4,7) show ?thesis by (simp add: parse_url_def)
qed

text \<open>\<^verbatim>\<open>build_request\<close>.\<close>

definition build_request :: "parsed_url \<Rightarrow> string" where
  "build_request u =
     ''GET '' @ (if pu_path u = [] then ''/'' else pu_path u) @ '' HTTP/1.1'' @ [cr, lf] @
     ''Host: '' @ pu_host u @ '':'' @ pu_port u @ [cr, lf] @
     ''Accept: */*'' @ [cr, lf] @
     ''User-Agent: Wget/1.14 (linux-gnu)'' @ [cr, lf] @
     ''Connection: close'' @ [cr, lf, cr, lf]"

definition url_request :: "parsed_url \<Rightarrow> request" where
  "url_request u =
     \<lparr>rq_method = ''GET'', rq_uri = (if pu_path u = [] then ''/'' else pu_path u), rq_major = 1, rq_minor = 1,
      rq_headers =
        [\<lparr>hd_name = ''Host'', hd_value = pu_host u @ '':'' @ pu_port u\<rparr>,
         \<lparr>hd_name = ''Accept'', hd_value = ''*/*''\<rparr>,
         \<lparr>hd_name = ''User-Agent'', hd_value = ''Wget/1.14 (linux-gnu)''\<rparr>,
         \<lparr>hd_name = ''Connection'', hd_value = ''close''\<rparr>]\<rparr>"

lemma build_request_prints: "build_request u = print_request (url_request u)"
proof -
  have "nat_to_string 1 = ''1''" by code_simp
  then show ?thesis by (simp add: build_request_def print_request_def url_request_def print_header_def)
qed

text \<open>A URL without control characters, and without blanks in its path.\<close>

definition url_ok :: "parsed_url \<Rightarrow> bool" where
  "url_ok u \<longleftrightarrow> list_all uri_char (pu_path u) \<and> list_all (\<lambda>c. \<not> is_ctl c) (pu_host u @ pu_port u)"

lemma url_request_servable:
  assumes "url_ok u"
  shows "servable (url_request u)"
proof -
  have c: "list_all is_token ''GET''" "list_all uri_char ''/''" "list_all is_token ''Host''" "list_all is_token ''Accept''"
      "list_all is_token ''User-Agent''" "list_all is_token ''Connection''" "\<not> is_ctl (CHR '':'')" "list_all (\<lambda>c. \<not> is_ctl c) ''*/*''"
      "list_all (\<lambda>c. \<not> is_ctl c) ''Wget/1.14 (linux-gnu)''" "list_all (\<lambda>c. \<not> is_ctl c) ''close''"
    by code_simp+
  with assms show ?thesis
    by (simp add: servable_def url_request_def request_ok_def url_ok_def header_ok_def)
qed

lemma url_request_closes: "\<not> is_keep_alive (url_request u)"
proof -
  have "lowercase ''Connection'' = ''connection''" "lowercase ''close'' = ''close''" by code_simp+
  then show ?thesis by (simp add: is_keep_alive_def url_request_def)
qed

section \<open>Reading the response\<close>

text \<open>What the socket returns: data, the end of the stream, an error.  When there is nothing left the peer is silent, and the
  timer of the call cancels the read.\<close>

datatype client_read = Data string | Eof | Failed nat

definition operation_aborted :: nat where
  "operation_aborted = 125"

definition timed_out :: nat where
  "timed_out = 110"

definition rethrow_error :: "nat \<Rightarrow> exn" where
  "rethrow_error ec = System_error (if ec = operation_aborted then timed_out else ec) []"

text \<open>\<^verbatim>\<open>async_read_until\<close>; its error is not looked at.\<close>

fun read_until :: "string \<Rightarrow> string \<Rightarrow> client_read list \<Rightarrow> string \<times> client_read list" where
  "read_until delim buf [] = (buf, [])"
| "read_until delim buf (ev # evs) =
     (if string_find delim buf \<noteq> None then (buf, ev # evs)
      else case ev of Data xs \<Rightarrow> read_until delim (buf @ xs) evs | _ \<Rightarrow> (buf, ev # evs))"

text \<open>\<^verbatim>\<open>std::getline\<close>: the line and the rest.\<close>

definition getline :: "string \<Rightarrow> string \<times> string" where
  "getline s = (takeWhile (\<lambda>c. c \<noteq> lf) s, drop (Suc (length (takeWhile (\<lambda>c. c \<noteq> lf) s))) s)"

text \<open>The status line: the version, the code, the rest of the input, and whether the stream is still good.\<close>

definition read_status_line :: "string \<Rightarrow> (string \<times> nat \<times> string \<times> bool) option" where
  "read_status_line s =
     (let s1 = dropWhile isspace s;
          version = takeWhile (\<lambda>c. \<not> isspace c) s1 in
      if version = [] then None
      else case read_unsigned 32 (dropWhile (\<lambda>c. \<not> isspace c) s1) of
             None \<Rightarrow> None
           | Some (code, s2) \<Rightarrow> if s2 = [] then None else Some (version, code, snd (getline s2), lf \<in> set s2))"

text \<open>One header line of \<^verbatim>\<open>parse_headers_and_content_length\<close>.\<close>

definition header_length :: "string \<Rightarrow> bool \<times> nat \<Rightarrow> bool \<times> nat" where
  "header_length line acc =
     (if fst acc then acc
      else case string_find '':'' line of
             None \<Rightarrow> acc
           | Some pos \<Rightarrow>
               if lowercase (take pos line) = ''content-length'' then
                 (case read_unsigned 64 (trim (substr (pos + 1) line)) of None \<Rightarrow> acc | Some (n, rest) \<Rightarrow> (True, n))
               else acc)"

function read_headers :: "string \<Rightarrow> bool \<times> nat \<Rightarrow> (bool \<times> nat) \<times> string" where
  "read_headers s acc =
     (if s = [] then (acc, [])
      else let (line, rest) = getline s in
        if line = [cr] then (acc, rest) else read_headers rest (header_length line acc))"
  by auto
termination by (relation "measure (\<lambda>(s, acc). length s)") (auto simp: getline_def)

declare read_headers.simps [simp del]

text \<open>\<^verbatim>\<open>async_read_some\<close> into a buffer of the given size.\<close>

definition read_some :: "nat \<Rightarrow> string \<Rightarrow> client_read list \<Rightarrow> string \<times> client_read list" where
  "read_some n xs evs = (take n xs, if length xs \<le> n then evs else Data (drop n xs) # evs)"

text \<open>The loop that reads a body of known length; \<open>out\<close> is what has been printed.\<close>

function body_loop :: "nat \<Rightarrow> string \<Rightarrow> client_read list \<Rightarrow> string outcome" where
  "body_loop remaining out evs =
     (if remaining = 0 then Inr out
      else case evs of
        [] \<Rightarrow> Inl (rethrow_error operation_aborted)
      | Eof # _ \<Rightarrow> Inr out
      | Failed ec # _ \<Rightarrow> Inl (rethrow_error ec)
      | Data xs # evs1 \<Rightarrow>
          let (got, evs2) = read_some (min remaining 8192) xs evs1 in
          if got = [] then Inr out else body_loop (remaining - length got) (out @ got) evs2)"
  by auto
termination by (relation "measure (\<lambda>(remaining, out, evs). remaining)") (auto simp: read_some_def)

declare body_loop.simps [simp del]

text \<open>The loop that reads until the end of the stream.\<close>

definition pending :: "client_read list \<Rightarrow> nat" where
  "pending evs = sum_list (map (\<lambda>ev. case ev of Data xs \<Rightarrow> Suc (length xs) | _ \<Rightarrow> 0) evs)"

function open_loop :: "string \<Rightarrow> client_read list \<Rightarrow> string outcome" where
  "open_loop out evs =
     (case evs of
        [] \<Rightarrow> Inl (rethrow_error operation_aborted)
      | Eof # _ \<Rightarrow> Inr out
      | Failed ec # _ \<Rightarrow> Inl (rethrow_error ec)
      | Data xs # evs1 \<Rightarrow>
          let (got, evs2) = read_some 8192 xs evs1 in
          if got = [] then Inr out else open_loop (out @ got) evs2)"
  by auto
termination by (relation "measure (\<lambda>(out, evs). pending evs)") (auto simp: read_some_def pending_def)

declare open_loop.simps [simp del]

datatype call_result = Invalid_response | Bad_status nat | Body string

text \<open>\<^verbatim>\<open>http_call\<close> from the status line on.\<close>

definition read_response :: "client_read list \<Rightarrow> call_result outcome" where
  "read_response evs =
     (let (buf, evs1) = read_until [cr, lf] [] evs in
      case read_status_line buf of
        None \<Rightarrow> Inr Invalid_response
      | Some (version, code, rest, good) \<Rightarrow>
          if take 5 version \<noteq> ''HTTP/'' then Inr Invalid_response
          else if code \<noteq> 200 then Inr (Bad_status code)
          else
            let (buf2, evs2) = read_until [cr, lf, cr, lf] rest evs1;
                ((has_content_length, content_length), body) =
                  (if good then read_headers buf2 (False, 0) else ((False, 0), buf2)) in
            bind_outcome
              (if has_content_length then body_loop (content_length - length body) body evs2 else open_loop body evs2)
              (\<lambda>out. Inr (Body out)))"

text \<open>\<^verbatim>\<open>http_call\<close>: \<open>connect\<close> is the error of the connection attempt, if any; the result has the request that was sent.\<close>

definition http_call ::
  "(string \<Rightarrow> string \<Rightarrow> nat option) \<Rightarrow> client_read list \<Rightarrow> string \<Rightarrow> (string \<times> call_result) outcome" where
  "http_call connect evs url =
     bind_outcome (parse_url url) (\<lambda>u.
       if pu_scheme u \<noteq> ''http'' then Inl (Invalid_argument k_scheme_err_msg)
       else case connect (pu_host u) (pu_port u) of
              Some ec \<Rightarrow> Inl (rethrow_error ec)
            | None \<Rightarrow> bind_outcome (read_response evs) (\<lambda>r. Inr (build_request u, r)))"

section \<open>Reading back what the server writes\<close>

lemma delimiter_complete:
  assumes "prefix buf (s @ d @ t)" "sublist d buf" "\<not> sublist d (s @ butlast d)" "d \<noteq> []"
  shows "prefix (s @ d) buf"
proof (rule ccontr)
  assume n: "\<not> prefix (s @ d) buf"
  have "prefix (s @ d) (s @ d @ t)" by simp
  with assms(1) n have "strict_prefix buf (s @ d)"
    using prefix_same_cases strict_prefixI by blast
  then have "prefix buf (butlast (s @ d))"
    by (metis assms(4) append_butlast_last_id append_is_Nil_conv prefix_snoc strict_prefix_def)
  then have "sublist d (s @ butlast d)"
    using assms(2,4) by (metis butlast_append prefix_imp_sublist sublist_order.order_trans)
  with assms(3) show False ..
qed

lemma read_until_data:
  assumes "sublist delim (buf @ concat xss)"
  shows "\<exists>buf' yss. read_until delim buf (map Data xss @ evs) = (buf', map Data yss @ evs) \<and> sublist delim buf' \<and>
    buf' @ concat yss = buf @ concat xss \<and> set yss \<subseteq> set xss"
  using assms
proof (induction xss arbitrary: buf)
  case Nil
  then have "string_find delim buf \<noteq> None" by (simp add: string_find_None_iff)
  then have "read_until delim buf evs = (buf, evs)" by (cases evs) simp_all
  with Nil show ?case by (intro exI [of _ buf] exI [of _ "[]"]) simp
next
  case (Cons xs xss)
  show ?case
  proof (cases "sublist delim buf")
    case True
    then have "string_find delim buf \<noteq> None" by (simp add: string_find_None_iff)
    with True show ?thesis by (intro exI [of _ buf] exI [of _ "xs # xss"]) simp
  next
    case False
    then have f: "string_find delim buf = None" by (simp add: string_find_None_iff)
    from Cons.IH [of "buf @ xs"] Cons.prems obtain buf' yss where
      "read_until delim (buf @ xs) (map Data xss @ evs) = (buf', map Data yss @ evs)" "sublist delim buf'"
      "buf' @ concat yss = buf @ concat (xs # xss)" "set yss \<subseteq> set xss" by auto
    with f show ?thesis by (intro exI [of _ buf'] exI [of _ yss]) auto
  qed
qed

text \<open>What is read up to a delimiter that ends a known part: that part, and possibly more.\<close>

lemma read_until_part:
  assumes "buf @ concat xss = s @ d @ t" "\<not> sublist d (s @ butlast d)" "d \<noteq> []"
  shows "\<exists>t1 yss. read_until d buf (map Data xss @ evs) = (s @ d @ t1, map Data yss @ evs) \<and> t1 @ concat yss = t \<and> set yss \<subseteq> set xss"
proof -
  have "sublist d (buf @ concat xss)" unfolding assms(1) by (auto simp: sublist_def)
  from read_until_data [OF this, of evs] obtain buf' yss where
    r: "read_until d buf (map Data xss @ evs) = (buf', map Data yss @ evs)" "sublist d buf'"
      "buf' @ concat yss = s @ d @ t" "set yss \<subseteq> set xss" using assms(1) by auto
  have "prefix buf' (s @ d @ t)" using r(3) by (metis prefixI)
  from delimiter_complete [OF this r(2) assms(2,3)] obtain t1 where b: "buf' = (s @ d) @ t1" by (rule prefixE)
  with r show ?thesis by (intro exI [of _ t1] exI [of _ yss]) auto
qed

lemma sublist_skip: "x \<noteq> p \<Longrightarrow> sublist (p # ps) (x # xs) \<longleftrightarrow> sublist (p # ps) xs"
  by (simp add: sublist_Cons_right)

lemma sublist_skip_all: "p \<notin> set xs \<Longrightarrow> sublist (p # ps) (xs @ ys) \<longleftrightarrow> sublist (p # ps) ys"
  by (induction xs) (auto simp: sublist_skip)

text \<open>Lines that are not blank contain no blank line.\<close>

definition plain_line :: "string \<Rightarrow> bool" where
  "plain_line l \<longleftrightarrow> l \<noteq> [] \<and> cr \<notin> set l \<and> lf \<notin> set l"

lemma no_blank_line:
  "list_all plain_line ls \<Longrightarrow> \<not> sublist [cr, lf, cr, lf] (concat (map (\<lambda>l. l @ [cr, lf]) ls) @ [cr])"
proof (induction ls)
  case Nil
  show ?case by (simp add: sublist_Cons_right)
next
  case (Cons l ls)
  let ?rest = "concat (map (\<lambda>l. l @ [cr, lf]) ls) @ [cr]"
  have l: "cr \<notin> set l" "\<not> sublist [cr, lf, cr, lf] ?rest" using Cons by (simp_all add: plain_line_def)
  have "\<not> prefix [cr, lf] ?rest" using Cons.prems by (cases ls) (auto simp: plain_line_def neq_Nil_conv)
  then have "\<not> sublist [cr, lf, cr, lf] (cr # lf # ?rest)"
    using l(2) by (simp add: sublist_Cons_right)
  then show ?case using sublist_skip_all [OF l(1), of "[lf, cr, lf]" "cr # lf # ?rest"] by simp
qed

lemma getline_line: "lf \<notin> set l \<Longrightarrow> getline (l @ lf # rest) = (l, rest)"
  by (auto simp: getline_def takeWhile_append)

lemma read_unsigned_space: "isspace c \<Longrightarrow> read_unsigned w (c # s) = read_unsigned w s"
  by (simp add: read_unsigned_def)

lemma read_status_line_server:
  "read_status_line (status_to_buffer st @ rest) = Some (''HTTP/1.1'', status_code st, rest, True)"
proof -
  have c: "status_code st < 2 ^ 32" by (cases st) simp_all
  let ?tail = "'' '' @ status_text st @ [cr, lf] @ rest"
  have "read_unsigned 32 (nat_to_string (status_code st) @ ?tail) = Some (status_code st, ?tail)"
    by (rule read_unsigned_print [OF c]) (simp add: is_digit_def schar_def)
  then have r: "read_unsigned 32 (CHR '' '' # nat_to_string (status_code st) @ ?tail) = Some (status_code st, ?tail)"
    by (simp add: read_unsigned_space isspace_def)
  have "lf \<notin> set ('' '' @ status_text st @ [cr])" using status_to_buffer_line(2) by simp
  from getline_line [OF this, of rest] have g: "snd (getline ?tail) = rest" by simp
  have "lf \<in> set ?tail" by simp
  with r g show ?thesis
    unfolding status_to_buffer_line(1) by (simp add: read_status_line_def isspace_def Let_def)
qed

definition header_line :: "header \<Rightarrow> string" where
  "header_line h = hd_name h @ '': '' @ hd_value h"

lemma read_headers_blank: "read_headers (cr # lf # body) acc = (acc, body)"
proof -
  have "getline (cr # lf # body) = ([cr], body)" using getline_line [of "[cr]" body] by simp
  then show ?thesis by (subst read_headers.simps) simp
qed

lemma read_headers_print:
  assumes "list_all plain_line (map header_line hs)"
  shows "read_headers (concat (map print_header hs) @ cr # lf # body) acc =
    (fold (\<lambda>h. header_length (header_line h @ [cr])) hs acc, body)"
  using assms
proof (induction hs arbitrary: acc)
  case Nil
  show ?case by (simp add: read_headers_blank)
next
  case (Cons h hs)
  let ?rest = "concat (map print_header hs) @ cr # lf # body"
  have h: "lf \<notin> set (header_line h @ [cr])" "header_line h \<noteq> []" using Cons.prems by (simp_all add: plain_line_def)
  have p: "concat (map print_header (h # hs)) @ cr # lf # body = (header_line h @ [cr]) @ lf # ?rest"
    by (simp add: print_header_def header_line_def)
  have "read_headers ((header_line h @ [cr]) @ lf # ?rest) acc = read_headers ?rest (header_length (header_line h @ [cr]) acc)"
    by (subst read_headers.simps) (use h getline_line [OF h(1), of ?rest] in \<open>simp add: append_eq_Cons_conv\<close>)
  with Cons show ?case unfolding p by simp
qed

lemma header_length_done: "header_length line (True, n) = (True, n)"
  by (simp add: header_length_def)

lemma header_length_name:
  assumes "CHR '':'' \<notin> set name"
  shows "header_length (name @ CHR '':'' # val) (False, n) =
    (if lowercase name = ''content-length'' then
       (case read_unsigned 64 (trim val) of None \<Rightarrow> (False, n) | Some (m, rest) \<Rightarrow> (True, m)) else (False, n))"
  using string_find_char_Some [OF assms, of val] by (simp add: header_length_def substr_def)

lemma header_length_content_length:
  assumes "n < 2 ^ 64"
  shows "header_length (''Content-Length: '' @ nat_to_string n @ [cr]) (False, 0) = (True, n)"
proof -
  let ?ds = "nat_to_string n"
  have d: "?ds \<noteq> []" "is_digit (hd ?ds)" "is_digit (last ?ds)"
    using nat_to_string_digits [of n] by (simp_all add: list_all_iff)
  have "trim (CHR '' '' # ?ds @ [cr]) = ?ds"
    by (rule trim_around) (use d digit_not_space_sign(1) in \<open>auto simp: isspace_def\<close>)
  moreover have "lowercase ''Content-Length'' = ''content-length''" by code_simp
  moreover have "read_unsigned 64 ?ds = Some (n, [])" using read_unsigned_print [OF assms, of "[]"] by simp
  ultimately have "header_length (''Content-Length'' @ CHR '':'' # CHR '' '' # ?ds @ [cr]) (False, 0) = (True, n)"
    by (subst header_length_name) simp_all
  then show ?thesis by simp
qed

lemma body_loop_data:
  assumes "length (concat xss) = n" "[] \<notin> set xss"
  shows "body_loop n out (map Data xss @ evs) = Inr (out @ concat xss)"
  using assms
proof (induction n arbitrary: out xss rule: less_induct)
  case (less n)
  show ?case
  proof (cases xss)
    case Nil
    with less.prems show ?thesis by (simp add: body_loop.simps)
  next
    case (Cons xs xss')
    let ?m = "min n 8192"
    have xs: "xs \<noteq> []" "length xs \<le> n" "0 < n" using less.prems Cons by auto
    show ?thesis
    proof (cases "length xs \<le> ?m")
      case True
      have "body_loop (n - length xs) (out @ xs) (map Data xss' @ evs) = Inr ((out @ xs) @ concat xss')"
        by (rule less.IH) (use less.prems Cons xs in auto)
      with True xs Cons show ?thesis by (subst body_loop.simps) (simp add: read_some_def)
    next
      case False
      have "body_loop (n - ?m) (out @ take ?m xs) (map Data (drop ?m xs # xss') @ evs) =
          Inr ((out @ take ?m xs) @ concat (drop ?m xs # xss'))"
        by (rule less.IH) (use less.prems Cons xs False in auto)
      with False xs Cons show ?thesis by (subst body_loop.simps) (simp add: read_some_def)
    qed
  qed
qed

text \<open>The response to a call has the length of its content first, and no line break inside a header.\<close>

lemma extension_type_plain: "cr \<notin> set (extension_to_type e)" "lf \<notin> set (extension_to_type e)"
  by (auto simp: extension_to_type_def mime_map_def split: if_splits)

lemma handle_request_headers:
  "\<exists>t. rp_headers (handle_request files doc_root req response_init) =
      [\<lparr>hd_name = ''Content-Length'', hd_value = nat_to_string (length (rp_content (handle_request files doc_root req response_init)))\<rparr>,
       \<lparr>hd_name = ''Content-Type'', hd_value = t\<rparr>] \<and> cr \<notin> set t \<and> lf \<notin> set t"
proof -
  have "\<exists>t. rp_headers (build_response st) =
      [\<lparr>hd_name = ''Content-Length'', hd_value = nat_to_string (length (rp_content (build_response st)))\<rparr>,
       \<lparr>hd_name = ''Content-Type'', hd_value = t\<rparr>] \<and> cr \<notin> set t \<and> lf \<notin> set t" for st
    by (simp add: build_response_def Let_def)
  then show ?thesis
    by (simp add: handle_request_def extension_type_plain Let_def split: option.split)
qed

lemma digits_plain: "cr \<notin> set (nat_to_string n)" "lf \<notin> set (nat_to_string n)"
proof -
  have "\<forall>c \<in> set (nat_to_string n). is_digit c" using nat_to_string_digits(1) [of n] by (simp add: list_all_iff)
  then show "cr \<notin> set (nat_to_string n)" "lf \<notin> set (nat_to_string n)"
    using digit_not_space_sign(1) by (auto simp: isspace_def)
qed

lemma status_line_part: "\<exists>s. status_to_buffer st = s @ [cr, lf] \<and> cr \<notin> set s"
proof -
  have "cr \<notin> set (status_text st)" by (auto simp: status_text_def dest: set_takeWhileD)
  then show ?thesis
    using status_to_buffer_line(1) [of st]
    by (intro exI [of _ "''HTTP/1.1 '' @ nat_to_string (status_code st) @ '' '' @ status_text st"]) (simp add: digits_plain)
qed

lemma read_response_server:
  assumes "rp_headers rep = [\<lparr>hd_name = ''Content-Length'', hd_value = nat_to_string (length (rp_content rep))\<rparr>,
      \<lparr>hd_name = ''Content-Type'', hd_value = t\<rparr>, \<lparr>hd_name = ''Connection'', hd_value = c\<rparr>]"
    and "list_all (\<lambda>s. cr \<notin> set s \<and> lf \<notin> set s) [t, c]" "length (rp_content rep) < 2 ^ 64"
    and "concat yss = concat (to_buffers rep)" "[] \<notin> set yss"
  shows "read_response (map Data yss @ evs) =
    Inr (if status_code (rp_status rep) = 200 then Body (rp_content rep) else Bad_status (status_code (rp_status rep)))"
proof -
  let ?st = "rp_status rep" and ?hs = "rp_headers rep" and ?body = "rp_content rep"
  let ?H = "concat (map print_header ?hs)"
  obtain s where s: "status_to_buffer ?st = s @ [cr, lf]" "cr \<notin> set s"
    using status_line_part by blast
  have nd: "\<not> sublist [cr, lf] (s @ butlast [cr, lf])"
    using sublist_skip_all [OF s(2), of "[lf]" "[cr]"] by (simp add: sublist_Cons_right)
  have "[] @ concat yss = s @ [cr, lf] @ (?H @ [cr, lf] @ ?body)"
    using assms(4) s(1) by (simp add: concat_to_buffers)
  from read_until_part [OF this nd, of evs] obtain t1 yss1 where
    u1: "read_until [cr, lf] [] (map Data yss @ evs) = (status_to_buffer ?st @ t1, map Data yss1 @ evs)"
      "t1 @ concat yss1 = ?H @ [cr, lf] @ ?body" "set yss1 \<subseteq> set yss" using s(1) by auto
  have lines: "list_all plain_line (map header_line ?hs)"
    using assms(1,2) by (simp add: plain_line_def header_line_def digits_plain)
  have H: "?H = concat (map (\<lambda>l. l @ [cr, lf]) (map header_line ?hs))"
    by (simp add: comp_def print_header_def [abs_def] header_line_def)
  obtain h where h: "?H = h @ [cr, lf]" unfolding H using assms(1) by simp
  have nb: "\<not> sublist [cr, lf, cr, lf] (h @ butlast [cr, lf, cr, lf])"
    using no_blank_line [OF lines] unfolding H [symmetric] h by simp
  have "t1 @ concat yss1 = h @ [cr, lf, cr, lf] @ ?body" using u1(2) h by simp
  from read_until_part [OF this nb, of evs] obtain t2 yss2 where
    u2: "read_until [cr, lf, cr, lf] t1 (map Data yss1 @ evs) = (?H @ cr # lf # t2, map Data yss2 @ evs)"
      "t2 @ concat yss2 = ?body" "set yss2 \<subseteq> set yss1" using h by auto
  have len: "fold (\<lambda>h. header_length (header_line h @ [cr])) ?hs (False, 0) = (True, length ?body)"
    using assms(1) header_length_content_length [OF assms(3)] by (simp add: header_line_def header_length_done)
  have hd: "read_headers (?H @ cr # lf # t2) (False, 0) = ((True, length ?body), t2)"
    unfolding read_headers_print [OF lines] len ..
  have "length (concat yss2) = length ?body - length t2" using u2(2) by (metis diff_add_inverse length_append)
  moreover have "[] \<notin> set yss2" using u1(3) u2(3) assms(5) by blast
  ultimately have bl: "body_loop (length ?body - length t2) t2 (map Data yss2 @ evs) = Inr ?body"
    using body_loop_data [of yss2 "length ?body - length t2" t2 evs] u2(2) by simp
  show ?thesis by (simp add: read_response_def u1(1) read_status_line_server u2(1) hd bl)
qed

section \<open>A call\<close>

lemma answer_shape:
  "rp_status (answer files doc_root req) = rp_status (handle_request files doc_root req response_init)"
  "rp_content (answer files doc_root req) = rp_content (handle_request files doc_root req response_init)"
  "rp_headers (answer files doc_root req) =
     rp_headers (handle_request files doc_root req response_init) @
     [\<lparr>hd_name = ''Connection'', hd_value = if is_keep_alive req then ''keep-alive'' else ''close''\<rparr>]"
  by (simp_all add: answer_def push_header_def)

lemma connection_closes_after:
  assumes "servable req" "\<not> is_keep_alive req" "concat xss = print_request req"
  shows "\<exists>c. connection_start files doc_root (map received xss) connection_init = Inr c \<and>
    cn_sent c = [concat (to_buffers (answer files doc_root req))] \<and> \<not> cn_running c"
proof -
  have "waiting [] = connection_init" by (simp add: waiting_def connection_init_def)
  with connection_serves_from [of "[req]" "[xss]" files doc_root "[]"] assms show ?thesis by simp
qed

text \<open>C36: a call gives the caller what the server holds.  For an \<^verbatim>\<open>http\<close> URL without blanks and control characters, the server's
  connection accepts the request the client builds, in whatever pieces it arrives, answers it once and closes; and the client,
  in whatever pieces the answer arrives and whatever the socket reports after it, ends with exactly the content of the server's
  response when the status is 200 and with the status otherwise.\<close>

theorem http_call_end_to_end:
  assumes "parse_url url = Inr u" "pu_scheme u = ''http''" "url_ok u" "connect (pu_host u) (pu_port u) = None"
    and "rep = handle_request files doc_root (url_request u) response_init" "length (rp_content rep) < 2 ^ 64"
    and "concat xss = build_request u"
    and "concat yss = concat (to_buffers (answer files doc_root (url_request u)))" "[] \<notin> set yss"
  shows "(\<exists>c. connection_start files doc_root (map received xss) connection_init = Inr c \<and> cn_sent c = [concat yss] \<and> \<not> cn_running c) \<and>
    http_call connect (map Data yss @ evs) url =
      Inr (build_request u, if rp_status rep = St_ok then Body (rp_content rep) else Bad_status (status_code (rp_status rep)))"
proof
  show "\<exists>c. connection_start files doc_root (map received xss) connection_init = Inr c \<and> cn_sent c = [concat yss] \<and> \<not> cn_running c"
    using connection_closes_after [OF url_request_servable [OF assms(3)] url_request_closes] assms(7,8)
    by (simp add: build_request_prints)
  obtain t where t: "rp_headers rep = [\<lparr>hd_name = ''Content-Length'', hd_value = nat_to_string (length (rp_content rep))\<rparr>,
      \<lparr>hd_name = ''Content-Type'', hd_value = t\<rparr>]" "cr \<notin> set t" "lf \<notin> set t"
    using handle_request_headers [of files doc_root "url_request u"] unfolding assms(5) by blast
  note shape = answer_shape [where files = files and doc_root = doc_root and req = "url_request u", folded assms(5)]
  have "read_response (map Data yss @ evs) =
      Inr (if status_code (rp_status rep) = 200 then Body (rp_content rep) else Bad_status (status_code (rp_status rep)))"
    unfolding shape(1,2) [symmetric]
    by (rule read_response_server [where t = t and c = "''close''"])
      (use assms(6,8,9) t url_request_closes in \<open>simp_all add: shape\<close>)
  moreover have "status_code (rp_status rep) = 200 \<longleftrightarrow> rp_status rep = St_ok" by (cases "rp_status rep") simp_all
  ultimately show "http_call connect (map Data yss @ evs) url =
      Inr (build_request u, if rp_status rep = St_ok then Body (rp_content rep) else Bad_status (status_code (rp_status rep)))"
    using assms(1,2,4) by (simp add: http_call_def)
qed

theorem http_call_end_to_end_witness:
  "\<exists>c w. connection_start (map_of [(''/srv/a.html'', ''<p>'')]) ''/srv''
       (map received [''GET /a.html HTTP'', drop 16 (build_request \<lparr>pu_scheme = ''http'', pu_host = ''h'', pu_port = ''80'', pu_path = ''/a.html''\<rparr>)])
       connection_init = Inr c \<and> cn_sent c = [w] \<and>
     http_call (\<lambda>host port. None) [Data w] ''http://h/a.html'' =
       Inr (build_request \<lparr>pu_scheme = ''http'', pu_host = ''h'', pu_port = ''80'', pu_path = ''/a.html''\<rparr>, Body ''<p>'')"
proof -
  let ?u = "\<lparr>pu_scheme = ''http'', pu_host = ''h'', pu_port = ''80'', pu_path = ''/a.html''\<rparr>"
  let ?f = "map_of [(''/srv/a.html'', ''<p>'')]" and ?root = "''/srv''"
  let ?xss = "[''GET /a.html HTTP'', drop 16 (build_request ?u)]" and ?w = "concat (to_buffers (answer ?f ?root (url_request ?u)))"
  let ?rep = "handle_request ?f ?root (url_request ?u) response_init"
  have h: "parse_url ''http://h/a.html'' = Inr ?u" "url_ok ?u" "concat ?xss = build_request ?u" by code_simp+
  have r: "rp_status ?rep = St_ok" "rp_content ?rep = ''<p>''" by code_simp+
  have l: "length (rp_content ?rep) < 2 ^ 64" unfolding r by simp
  have w: "[] \<notin> set [?w]" by (simp add: concat_to_buffers status_to_buffer_line(1))
  have "(\<exists>c. connection_start ?f ?root (map received ?xss) connection_init = Inr c \<and> cn_sent c = [concat [?w]] \<and> \<not> cn_running c) \<and>
    http_call (\<lambda>host port. None) (map Data [?w] @ []) ''http://h/a.html'' =
      Inr (build_request ?u, if rp_status ?rep = St_ok then Body (rp_content ?rep) else Bad_status (status_code (rp_status ?rep)))"
    by (rule http_call_end_to_end [OF h(1) _ h(2) _ refl l h(3) _ w]) simp_all
  then have e: "\<exists>c. connection_start ?f ?root (map received ?xss) connection_init = Inr c \<and> cn_sent c = [concat [?w]]"
    and f: "http_call (\<lambda>host port. None) (map Data [?w] @ []) ''http://h/a.html'' = Inr (build_request ?u, Body ''<p>'')"
    unfolding r by auto
  have "concat [?w] = ?w" "map Data [?w] @ [] = [Data ?w]" by simp_all
  with e f show ?thesis by metis
qed

end
