(* ===== verification/Generator.thy ===== *)
theory Generator
  imports Prelude Messages
begin

text \<open>
  Generators (\<^verbatim>\<open>results/generator.h\<close>, \<^verbatim>\<open>results/impl/generator_state.h\<close>).  The code of a generator coroutine is what it does from
  one suspension to the next: it yields a value, returns or throws.  It may go on forever, so the type is a codatatype.
\<close>

section \<open>The coroutine and its promise\<close>

codatatype 'v gen_code = Yields 'v "'v gen_code" | Returns | Throws exn

text \<open>The promise holds a pointer to the yielded object, which lives in the frame while the coroutine is suspended at that yield,
  and the exception that left the body.\<close>

record 'v gen_state =
  gs_code :: "'v gen_code"
  gs_value :: "'v option"
  gs_exception :: "exn option"
  gs_done :: bool

definition gen_new :: "'v gen_code \<Rightarrow> 'v gen_state" where
  "gen_new code = \<lparr>gs_code = code, gs_value = None, gs_exception = None, gs_done = False\<rparr>"

definition yield_value :: "'v \<Rightarrow> 'v gen_state \<Rightarrow> 'v gen_state" where
  "yield_value v g = g\<lparr>gs_value := Some v\<rparr>"

definition unhandled_exception :: "exn \<Rightarrow> 'v gen_state \<Rightarrow> 'v gen_state" where
  "unhandled_exception e g = g\<lparr>gs_exception := Some e\<rparr>"

text \<open>Resuming a suspended coroutine runs it to its next suspension.\<close>

definition gen_resume :: "'v gen_state \<Rightarrow> 'v gen_state" where
  "gen_resume g =
     (case gs_code g of
        Yields v code \<Rightarrow> (yield_value v g)\<lparr>gs_code := code\<rparr>
      | Returns \<Rightarrow> g\<lparr>gs_done := True\<rparr>
      | Throws e \<Rightarrow> (unhandled_exception e g)\<lparr>gs_done := True\<rparr>)"

definition throw_if_exception :: "'v gen_state \<Rightarrow> 'v gen_state outcome" where
  "throw_if_exception g = (case gs_exception g of Some e \<Rightarrow> Inl e | None \<Rightarrow> Inr g)"

text \<open>The value behind the pointer.  After the end the pointer still holds the address of an object that is gone.\<close>

definition gen_value :: "'v gen_state \<Rightarrow> 'v outcome" where
  "gen_value g =
     (case gs_value g of
        None \<Rightarrow> Inl (Assertion_failed ''m_value != nullptr'')
      | Some v \<Rightarrow> if gs_done g then Inl (Undefined_behaviour ''dangling value'') else Inr v)"

section \<open>Generators and iterators\<close>

text \<open>A generator owns at most one coroutine; the outcome of an operation that may throw comes with the generator it leaves.\<close>

type_synonym 'v generator = "'v gen_state option"

definition generator_move :: "'v generator \<Rightarrow> 'v generator \<times> 'v generator" where
  "generator_move rhs = (rhs, None)"

text \<open>The destructor: whether a frame is destroyed.\<close>

definition generator_destructor :: "'v generator \<Rightarrow> bool" where
  "generator_destructor g = (g \<noteq> None)"

lemma generator_move_destroys_once:
  "generator_destructor (fst (generator_move g)) = generator_destructor g" "\<not> generator_destructor (snd (generator_move g))"
  by (simp_all add: generator_move_def generator_destructor_def)

definition generator_bool :: "'v generator \<Rightarrow> bool" where
  "generator_bool g = (g \<noteq> None)"

definition resume_and_check :: "'v gen_state \<Rightarrow> unit outcome \<times> 'v generator" where
  "resume_and_check g =
     (if gs_done g then (Inl (Assertion_failed ''!m_coro_handle.done()''), Some g)
      else let g1 = gen_resume g in
        (if gs_done g1 then bind_outcome (throw_if_exception g1) (\<lambda>_. Inr ()) else Inr (), Some g1))"

text \<open>\<^verbatim>\<open>begin\<close>, \<^verbatim>\<open>operator++\<close>, \<^verbatim>\<open>operator*\<close> and the comparison with \<^verbatim>\<open>end\<close>.  An iterator is made by \<^verbatim>\<open>begin\<close> only, so
  it always has a coroutine.\<close>

definition generator_begin :: "'v generator \<Rightarrow> unit outcome \<times> 'v generator" where
  "generator_begin g =
     (case g of None \<Rightarrow> (Inl (Empty_generator k_empty_generator_begin_err_msg), None) | Some s \<Rightarrow> resume_and_check s)"

definition iterator_increment :: "'v generator \<Rightarrow> unit outcome \<times> 'v generator" where
  "iterator_increment g =
     (case g of None \<Rightarrow> (Inl (Assertion_failed ''static_cast<bool>(m_coro_handle)''), None) | Some s \<Rightarrow> resume_and_check s)"

definition iterator_deref :: "'v generator \<Rightarrow> 'v outcome" where
  "iterator_deref g =
     (case g of None \<Rightarrow> Inl (Assertion_failed ''static_cast<bool>(m_coro_handle)'') | Some s \<Rightarrow> gen_value s)"

definition iterator_at_end :: "'v generator \<Rightarrow> bool" where
  "iterator_at_end g = (case g of None \<Rightarrow> True | Some s \<Rightarrow> gs_done s)"

text \<open>The range-based \<^verbatim>\<open>for\<close> with a body that records the values, for at most \<open>n\<close> rounds: what was recorded, and how the loop
  ended, \<open>None\<close> when it has not.\<close>

fun for_rounds :: "nat \<Rightarrow> 'v list \<Rightarrow> unit outcome \<times> 'v generator \<Rightarrow> 'v list \<times> unit outcome option" where
  "for_rounds n log (Inl e, g) = (log, Some (Inl e))"
| "for_rounds n log (Inr u, g) =
     (if iterator_at_end g then (log, Some (Inr ()))
      else case n of
             0 \<Rightarrow> (log, None)
           | Suc m \<Rightarrow> (case iterator_deref g of
                 Inl e \<Rightarrow> (log, Some (Inl e))
               | Inr v \<Rightarrow> for_rounds m (log @ [v]) (iterator_increment g)))"

definition for_each :: "nat \<Rightarrow> 'v generator \<Rightarrow> 'v list \<times> unit outcome option" where
  "for_each n g = for_rounds n [] (generator_begin g)"

section \<open>The loop sees the values of the coroutine\<close>

text \<open>The reference: the first values of the code, and how it ends if it ends within them.\<close>

fun gen_values :: "nat \<Rightarrow> 'v gen_code \<Rightarrow> 'v list \<times> unit outcome option" where
  "gen_values n code =
     (case code of
        Returns \<Rightarrow> ([], Some (Inr ()))
      | Throws e \<Rightarrow> ([], Some (Inl e))
      | Yields v rest \<Rightarrow> (case n of 0 \<Rightarrow> ([], None) | Suc m \<Rightarrow> (let (vs, r) = gen_values m rest in (v # vs, r))))"

declare gen_values.simps [simp del]

lemma for_rounds_values:
  assumes "\<not> gs_done s" "gs_exception s = None"
  shows "for_rounds n log (resume_and_check s) = (let (vs, r) = gen_values n (gs_code s) in (log @ vs, r))"
  using assms
proof (induction n arbitrary: log s)
  case 0
  then show ?case
    by (subst gen_values.simps)
      (simp add: resume_and_check_def gen_resume_def throw_if_exception_def unhandled_exception_def yield_value_def
        iterator_at_end_def Let_def split: gen_code.split)
next
  case (Suc n)
  show ?case
  proof (cases "gs_code s")
    case (Yields v rest)
    let ?t = "(yield_value v s)\<lparr>gs_code := rest\<rparr>"
    have r: "resume_and_check s = (Inr (), Some ?t)" and t: "\<not> gs_done ?t" "gs_exception ?t = None" "gs_code ?t = rest"
      using Suc.prems Yields by (simp_all add: resume_and_check_def gen_resume_def yield_value_def)
    have v: "gs_value ?t = Some v" by (simp add: yield_value_def)
    have "for_rounds (Suc n) log (resume_and_check s) = for_rounds n (log @ [v]) (resume_and_check ?t)"
      using t(1) v by (simp add: r iterator_at_end_def iterator_deref_def gen_value_def iterator_increment_def)
    also have "\<dots> = (let (vs, r) = gen_values n rest in ((log @ [v]) @ vs, r))"
      using Suc.IH [OF t(1,2)] t(3) by simp
    also have "\<dots> = (let (vs, r) = gen_values (Suc n) (gs_code s) in (log @ vs, r))"
      unfolding Yields by (subst (2) gen_values.simps) (simp split: prod.split)
    finally show ?thesis .
  qed (use Suc.prems in \<open>subst gen_values.simps,
      simp add: resume_and_check_def gen_resume_def throw_if_exception_def unhandled_exception_def iterator_at_end_def Let_def\<close>)+
qed

text \<open>C37: a loop over a fresh generator sees the values of its coroutine.  For every coroutine, also one that never ends, and every
  number of rounds, the loop records exactly the values the coroutine yields in that many rounds, in order; it ends exactly
  when the coroutine has returned, and with the exception that left the coroutine when it threw.\<close>

theorem generator_for_each: "for_each n (Some (gen_new code)) = gen_values n code"
  using for_rounds_values [of "gen_new code" n "[]"] by (simp add: for_each_def generator_begin_def gen_new_def Let_def)

text \<open>A coroutine that ends is exhausted by the loop.\<close>

fun yield_all :: "'v list \<Rightarrow> 'v gen_code \<Rightarrow> 'v gen_code" where
  "yield_all [] end_code = end_code"
| "yield_all (v # vs) end_code = Yields v (yield_all vs end_code)"

lemma gen_values_yield_all:
  "length vs \<le> n \<Longrightarrow> gen_values n (yield_all vs Returns) = (vs, Some (Inr ()))"
  "length vs \<le> n \<Longrightarrow> gen_values n (yield_all vs (Throws e)) = (vs, Some (Inl e))"
proof -
  have "length vs \<le> n \<Longrightarrow> fin \<in> {Returns, Throws e} \<Longrightarrow>
      gen_values n (yield_all vs fin) = (vs, Some (if fin = Returns then Inr () else Inl e))" for fin
  proof (induction vs arbitrary: n)
    case Nil
    then show ?case by (subst gen_values.simps) auto
  next
    case (Cons v vs)
    then obtain m where "n = Suc m" by (cases n) auto
    with Cons show ?case by (subst gen_values.simps) simp
  qed
  then show "length vs \<le> n \<Longrightarrow> gen_values n (yield_all vs Returns) = (vs, Some (Inr ()))"
    "length vs \<le> n \<Longrightarrow> gen_values n (yield_all vs (Throws e)) = (vs, Some (Inl e))" by auto
qed

text \<open>An infinite coroutine.\<close>

primcorec gen_iterate :: "('v \<Rightarrow> 'v) \<Rightarrow> 'v \<Rightarrow> 'v gen_code" where
  "gen_iterate f x = Yields x (gen_iterate f (f x))"

lemma gen_values_iterate: "gen_values n (gen_iterate f x) = (map (\<lambda>k. (f ^^ k) x) [0..<n], None)"
proof (induction n arbitrary: x)
  case 0
  show ?case by (subst gen_values.simps, subst gen_iterate.code) simp
next
  case (Suc n)
  have "gen_values (Suc n) (gen_iterate f x) = (x # map (\<lambda>k. (f ^^ k) (f x)) [0..<n], None)"
    using Suc by (subst gen_values.simps, subst gen_iterate.code) simp
  then show ?case by (simp add: map_Suc_upt [symmetric] funpow_swap1 del: upt_Suc add: upt_conv_Cons)
qed

text \<open>A generator cannot be iterated again: a moved-from one throws, a finished one may not be resumed, and \<^verbatim>\<open>begin\<close> on one that is
  suspended drops the value it stands at.\<close>

lemma generator_begin_again:
  "generator_begin (snd (generator_move g)) = (Inl (Empty_generator k_empty_generator_begin_err_msg), None)"
  "gs_done s \<Longrightarrow> generator_begin (Some s) = (Inl (Assertion_failed ''!m_coro_handle.done()''), Some s)"
  "for_each n (snd (generator_begin (Some (gen_new (Yields v code))))) = gen_values n code"
proof -
  show "generator_begin (snd (generator_move g)) = (Inl (Empty_generator k_empty_generator_begin_err_msg), None)"
    by (simp add: generator_move_def generator_begin_def)
  show "gs_done s \<Longrightarrow> generator_begin (Some s) = (Inl (Assertion_failed ''!m_coro_handle.done()''), Some s)"
    by (simp add: generator_begin_def resume_and_check_def)
  let ?s = "(yield_value v (gen_new (Yields v code)))\<lparr>gs_code := code\<rparr>"
  have "snd (generator_begin (Some (gen_new (Yields v code)))) = Some ?s"
    by (simp add: generator_begin_def resume_and_check_def gen_resume_def gen_new_def yield_value_def)
  then show "for_each n (snd (generator_begin (Some (gen_new (Yields v code))))) = gen_values n code"
    using for_rounds_values [of ?s n "[]"] by (simp add: for_each_def generator_begin_def gen_new_def yield_value_def Let_def)
qed

end
