(* ===== verification/Lazy_Result.thy ===== *)
theory Lazy_Result
  imports Result_State
begin

text \<open>
  Lazy results (\<^verbatim>\<open>results/lazy_result.h\<close>, \<^verbatim>\<open>results/lazy_result_awaitable.h\<close>, \<^verbatim>\<open>results/impl/lazy_result_state.h\<close>).  The frames of
  the lazy coroutines live in a heap, in which \<open>None\<close> is a free or destroyed frame.  A frame is owned by one \<^verbatim>\<open>lazy_result\<close> object, or by
  the awaitable of the coroutine that waits for it.
\<close>

section \<open>Frames and handles\<close>

text \<open>A lazy coroutine is suspended at its start, on its way, or suspended at its end.\<close>

datatype lz_stage = Lz_initial | Lz_running | Lz_final

record 'a lz_frame =
  lf_producer :: "'a producer_context"
  lf_caller :: "addr option"
  lf_stage :: lz_stage

text \<open>\<open>lz_slots\<close> maps the \<^verbatim>\<open>lazy_result\<close> objects to their handles, \<open>lz_awaiting\<close> the coroutines to the handle of the awaitable they
  are suspended in, with \<open>True\<close> for \<^verbatim>\<open>lazy_resolve_awaitable\<close>.  The other fields record what has happened: the frames
  created, started and destroyed, what the bodies ended with, and what was handed to the coroutine that awaited a frame.\<close>

record 'a lz_sys =
  lz_frames :: "addr \<Rightarrow> 'a lz_frame option"
  lz_slots :: "addr \<Rightarrow> addr option"
  lz_awaiting :: "addr \<Rightarrow> (addr \<times> bool) option"
  lz_created :: "addr list"
  lz_started :: "addr list"
  lz_destroyed :: "addr list"
  lz_ended :: "addr \<Rightarrow> 'a outcome option"
  lz_delivered :: "(addr \<times> 'a outcome) list"

definition lz_init :: "'a lz_sys" where
  "lz_init = \<lparr>lz_frames = (\<lambda>_. None), lz_slots = (\<lambda>_. None), lz_awaiting = (\<lambda>_. None), lz_created = [], lz_started = [],
     lz_destroyed = [], lz_ended = (\<lambda>_. None), lz_delivered = []\<rparr>"

text \<open>\<^verbatim>\<open>get_return_object\<close> and the suspension at the start: calling the coroutine function.\<close>

definition lz_create :: "addr \<Rightarrow> addr \<Rightarrow> 'a lz_sys \<Rightarrow> 'a lz_sys" where
  "lz_create f x s =
     s\<lparr>lz_frames := (lz_frames s)(f \<mapsto> \<lparr>lf_producer = producer_init, lf_caller = None, lf_stage = Lz_initial\<rparr>),
       lz_slots := (lz_slots s)(x \<mapsto> f), lz_created := lz_created s @ [f]\<rparr>"

text \<open>\<^verbatim>\<open>destroy\<close> of a handle.\<close>

definition lz_destroy :: "addr \<Rightarrow> 'a lz_sys \<Rightarrow> 'a lz_sys outcome" where
  "lz_destroy f s =
     (case lz_frames s f of
        None \<Rightarrow> Inl (Undefined_behaviour ''destroy of a destroyed frame'')
      | Some fr \<Rightarrow>
          if lf_stage fr = Lz_running then Inl (Undefined_behaviour ''destroy of a running coroutine'')
          else bind_outcome (producer_destructor (lf_producer fr))
                 (\<lambda>_. Inr (s\<lparr>lz_frames := (lz_frames s)(f := None), lz_destroyed := lz_destroyed s @ [f]\<rparr>)))"

section \<open>The operations of lazy_result\<close>

definition lazy_throw_if_empty :: "string \<Rightarrow> addr \<Rightarrow> 'a lz_sys \<Rightarrow> addr outcome" where
  "lazy_throw_if_empty msg x s = (case lz_slots s x of None \<Rightarrow> Inl (Empty_result msg) | Some f \<Rightarrow> Inr f)"

definition lazy_bool :: "addr \<Rightarrow> 'a lz_sys \<Rightarrow> bool" where
  "lazy_bool x s = (lz_slots s x \<noteq> None)"

definition lazy_move :: "addr \<Rightarrow> addr \<Rightarrow> 'a lz_sys \<Rightarrow> 'a lz_sys" where
  "lazy_move x rhs s = s\<lparr>lz_slots := (lz_slots s)(rhs := None, x := lz_slots s rhs)\<rparr>"

definition lazy_destructor :: "addr \<Rightarrow> 'a lz_sys \<Rightarrow> 'a lz_sys outcome" where
  "lazy_destructor x s =
     (case lz_slots s x of
        None \<Rightarrow> Inr s
      | Some f \<Rightarrow> bind_outcome (lz_destroy f s) (\<lambda>t. Inr (t\<lparr>lz_slots := (lz_slots t)(x := None)\<rparr>)))"

definition lazy_assign :: "addr \<Rightarrow> addr \<Rightarrow> 'a lz_sys \<Rightarrow> 'a lz_sys outcome" where
  "lazy_assign x rhs s =
     (if rhs = x then Inr s else bind_outcome (lazy_destructor x s) (\<lambda>t. Inr (lazy_move x rhs t)))"

definition lazy_status :: "addr \<Rightarrow> 'a lz_sys \<Rightarrow> result_status outcome" where
  "lazy_status x s =
     bind_outcome (lazy_throw_if_empty k_empty_lazy_result_status_err_msg x s) (\<lambda>f.
       case lz_frames s f of
         None \<Rightarrow> Inl (Undefined_behaviour ''promise of a destroyed frame'')
       | Some fr \<Rightarrow> Inr (producer_status (lf_producer fr)))"

text \<open>\<^verbatim>\<open>operator co_await\<close> and \<^verbatim>\<open>resolve\<close> by the coroutine \<open>c\<close>: the handle moves to the awaitable; unless the frame is at its end
  the caller is noted in it and its coroutine is resumed.\<close>

definition lazy_await :: "bool \<Rightarrow> string \<Rightarrow> addr \<Rightarrow> addr \<Rightarrow> 'a lz_sys \<Rightarrow> 'a lz_sys outcome" where
  "lazy_await resolving msg x c s =
     bind_outcome (lazy_throw_if_empty msg x s) (\<lambda>f.
       let t = s\<lparr>lz_slots := (lz_slots s)(x := None), lz_awaiting := (lz_awaiting s)(c \<mapsto> (f, resolving))\<rparr> in
       case lz_frames s f of
         None \<Rightarrow> Inl (Undefined_behaviour ''done of a destroyed frame'')
       | Some fr \<Rightarrow>
           (case lf_stage fr of
              Lz_final \<Rightarrow> Inr t
            | Lz_running \<Rightarrow> Inl (Undefined_behaviour ''resume of a running coroutine'')
            | Lz_initial \<Rightarrow>
                Inr (t\<lparr>lz_frames := (lz_frames s)(f \<mapsto> fr\<lparr>lf_caller := Some c, lf_stage := Lz_running\<rparr>),
                       lz_started := lz_started s @ [f]\<rparr>)))"

definition lazy_co_await :: "addr \<Rightarrow> addr \<Rightarrow> 'a lz_sys \<Rightarrow> 'a lz_sys outcome" where
  "lazy_co_await = lazy_await False k_empty_lazy_result_operator_co_await_err_msg"

definition lazy_resolve :: "addr \<Rightarrow> addr \<Rightarrow> 'a lz_sys \<Rightarrow> 'a lz_sys outcome" where
  "lazy_resolve = lazy_await True k_empty_lazy_result_resolve_err_msg"

text \<open>\<^verbatim>\<open>run\<close>: the coroutine \<open>c\<close> of \<^verbatim>\<open>run_impl\<close> moves the object into its local \<open>self\<close> and awaits it.\<close>

definition lazy_run :: "addr \<Rightarrow> addr \<Rightarrow> addr \<Rightarrow> 'a lz_sys \<Rightarrow> 'a lz_sys outcome" where
  "lazy_run x self c s =
     bind_outcome (lazy_throw_if_empty k_empty_lazy_result_run_err_msg x s) (\<lambda>_. lazy_co_await self c (lazy_move self x s))"

text \<open>The end of a lazy coroutine: \<^verbatim>\<open>set_result\<close> or \<^verbatim>\<open>unhandled_exception\<close>, then the final awaiter, which resumes the caller.\<close>

definition lazy_finish :: "addr \<Rightarrow> 'a outcome \<Rightarrow> 'a lz_sys \<Rightarrow> 'a lz_sys outcome" where
  "lazy_finish f r s =
     (case lz_frames s f of
        None \<Rightarrow> Inl (Undefined_behaviour ''coroutine without a frame'')
      | Some fr \<Rightarrow>
          bind_outcome (case r of Inr v \<Rightarrow> producer_build_result (lf_producer fr) v | Inl e \<Rightarrow> producer_build_exception (lf_producer fr) e)
            (\<lambda>p. if lf_caller fr = None then Inl (Undefined_behaviour ''resume of a null handle'')
                 else Inr (s\<lparr>lz_frames := (lz_frames s)(f \<mapsto> fr\<lparr>lf_producer := p, lf_stage := Lz_final\<rparr>),
                             lz_ended := (lz_ended s)(f \<mapsto> r)\<rparr>)))"

text \<open>\<^verbatim>\<open>await_resume\<close> and the destruction of the awaitable, in the resumed coroutine \<open>c\<close>; \<^verbatim>\<open>resolve\<close> returns a new \<^verbatim>\<open>lazy_result\<close>.\<close>

definition lazy_await_resume :: "addr \<Rightarrow> addr \<Rightarrow> 'a lz_sys \<Rightarrow> 'a lz_sys outcome" where
  "lazy_await_resume c x s =
     (case lz_awaiting s c of
        None \<Rightarrow> Inl (Undefined_behaviour ''no awaitable'')
      | Some (f, True) \<Rightarrow> Inr (s\<lparr>lz_awaiting := (lz_awaiting s)(c := None), lz_slots := (lz_slots s)(x \<mapsto> f)\<rparr>)
      | Some (f, False) \<Rightarrow>
          (case lz_frames s f of
             None \<Rightarrow> Inl (Undefined_behaviour ''promise of a destroyed frame'')
           | Some fr \<Rightarrow>
               bind_outcome (producer_get (lf_producer fr)) (\<lambda>r.
               bind_outcome (lz_destroy f s) (\<lambda>t.
                 Inr (t\<lparr>lz_awaiting := (lz_awaiting t)(c := None), lz_delivered := lz_delivered t @ [(f, r)]\<rparr>)))))"

section \<open>Every sequence of operations\<close>

text \<open>The events of a program.  A new object and a new frame are at unused addresses, a coroutine waits for one thing at a time,
  a coroutine ends only while it runs, and a waiting coroutine goes on only when its callee has ended.\<close>

datatype 'a lz_event =
    Lz_create addr addr | Lz_move addr addr | Lz_assign addr addr | Lz_drop addr
  | Lz_await addr addr | Lz_resolve addr addr | Lz_run addr addr addr | Lz_finish addr "'a outcome" | Lz_resume addr addr

definition frame_at :: "lz_stage \<Rightarrow> addr \<Rightarrow> 'a lz_sys \<Rightarrow> bool" where
  "frame_at st f s = (case lz_frames s f of None \<Rightarrow> False | Some fr \<Rightarrow> lf_stage fr = st)"

fun lz_exec :: "'a lz_event \<Rightarrow> 'a lz_sys \<Rightarrow> 'a lz_sys outcome option" where
  "lz_exec (Lz_create f x) s = (if f \<in> set (lz_created s) \<or> lazy_bool x s then None else Some (Inr (lz_create f x s)))"
| "lz_exec (Lz_move x y) s = (if lazy_bool x s then None else Some (Inr (lazy_move x y s)))"
| "lz_exec (Lz_assign x y) s = Some (lazy_assign x y s)"
| "lz_exec (Lz_drop x) s = Some (lazy_destructor x s)"
| "lz_exec (Lz_await x c) s = (if lz_awaiting s c \<noteq> None then None else Some (lazy_co_await x c s))"
| "lz_exec (Lz_resolve x c) s = (if lz_awaiting s c \<noteq> None then None else Some (lazy_resolve x c s))"
| "lz_exec (Lz_run x self c) s = (if lz_awaiting s c \<noteq> None \<or> lazy_bool self s then None else Some (lazy_run x self c s))"
| "lz_exec (Lz_finish f r) s = (if frame_at Lz_running f s then Some (lazy_finish f r s) else None)"
| "lz_exec (Lz_resume c x) s =
     (case lz_awaiting s c of
        None \<Rightarrow> None
      | Some (f, resolving) \<Rightarrow>
          if frame_at Lz_final f s \<and> (resolving \<longrightarrow> \<not> lazy_bool x s) then Some (lazy_await_resume c x s) else None)"

inductive lz_reachable :: "'a lz_sys \<Rightarrow> bool" where
  start: "lz_reachable lz_init"
| step: "lz_reachable s \<Longrightarrow> lz_exec ev s = Some (Inr t) \<Longrightarrow> lz_reachable t"

section \<open>Ownership\<close>

datatype lz_owner = Held addr | Awaited addr

fun handles :: "(addr \<Rightarrow> addr option) \<Rightarrow> (addr \<Rightarrow> (addr \<times> bool) option) \<Rightarrow> lz_owner \<Rightarrow> addr option" where
  "handles sl aw (Held x) = sl x"
| "handles sl aw (Awaited c) = map_option fst (aw c)"

lemma handles_upd:
  "handles (sl(x := h)) aw = (handles sl aw)(Held x := h)"
  "handles sl (aw(c := g)) = (handles sl aw)(Awaited c := map_option fst g)"
proof -
  show "handles (sl(x := h)) aw = (handles sl aw)(Held x := h)"
    by (intro ext, rename_tac w, case_tac w) simp_all
  show "handles sl (aw(c := g)) = (handles sl aw)(Awaited c := map_option fst g)"
    by (intro ext, rename_tac w, case_tac w) simp_all
qed

text \<open>Every live frame has exactly one owner.\<close>

definition own_ok :: "(lz_owner \<Rightarrow> addr option) \<Rightarrow> addr set \<Rightarrow> bool" where
  "own_ok h live \<longleftrightarrow> ran h = live \<and> inj_on h (dom h)"

lemma own_ok_iff:
  "own_ok h live \<longleftrightarrow> (\<forall>f. f \<in> live \<longleftrightarrow> (\<exists>w. h w = Some f)) \<and> (\<forall>v w f. h v = Some f \<longrightarrow> h w = Some f \<longrightarrow> v = w)"
  unfolding own_ok_def inj_on_def ran_def dom_def by (auto; metis)

lemma own_ok_live: "own_ok h live \<Longrightarrow> h w = Some f \<Longrightarrow> f \<in> live"
  unfolding own_ok_iff by blast

lemma own_ok_unique: "own_ok h live \<Longrightarrow> h v = Some f \<Longrightarrow> h w = Some f \<Longrightarrow> v = w"
  unfolding own_ok_iff by blast

lemma own_ok_new:
  assumes "own_ok h live" "f \<notin> live" "h w = None"
  shows "own_ok (h(w \<mapsto> f)) (insert f live)"
proof -
  have "ran (h(w \<mapsto> f)) = insert f live" using assms(1,3) by (simp add: own_ok_def)
  moreover have "inj_on (h(w \<mapsto> f)) (dom (h(w \<mapsto> f)))"
  proof (rule inj_onI)
    fix u v
    assume d: "u \<in> dom (h(w \<mapsto> f))" and e: "(h(w \<mapsto> f)) u = (h(w \<mapsto> f)) v"
    have "h z \<noteq> Some f" for z using own_ok_live [OF assms(1)] assms(2) by blast
    with e have "u = w \<longleftrightarrow> v = w" by (metis fun_upd_other fun_upd_same)
    show "u = v"
    proof (cases "u = w")
      case False
      obtain g where g: "(h(w \<mapsto> f)) u = Some g" using d by blast
      with False have "h u = Some g" by simp
      moreover have "h v = Some g" using False g e \<open>u = w \<longleftrightarrow> v = w\<close> by simp
      ultimately show ?thesis by (rule own_ok_unique [OF assms(1)])
    qed (use \<open>u = w \<longleftrightarrow> v = w\<close> in simp)
  qed
  ultimately show ?thesis by (simp add: own_ok_def)
qed

lemma own_ok_drop:
  assumes "own_ok h live" "h w = Some f"
  shows "own_ok (h(w := None)) (live - {f})"
proof -
  have "h v = Some f \<longleftrightarrow> v = w" for v using own_ok_unique [OF assms(1)] assms(2) by metis
  then have "(h(w := None)) v = Some g \<longleftrightarrow> h v = Some g \<and> g \<noteq> f" for v g using assms(2) by (simp, metis option.inject)
  with assms(1) show ?thesis unfolding own_ok_iff by (simp only: Diff_iff singleton_iff) blast
qed

lemma own_ok_pass:
  assumes "own_ok h live" "h v = Some f" "h w = None"
  shows "own_ok (h(v := None, w \<mapsto> f)) live"
proof -
  have "f \<in> live" using assms(1,2) by (auto simp: own_ok_def ran_def)
  moreover have "own_ok (h(v := None, w \<mapsto> f)) (insert f (live - {f}))"
    by (rule own_ok_new [OF own_ok_drop [OF assms(1,2)]]) (use assms(2,3) in auto)
  ultimately show ?thesis by (simp add: insert_absorb)
qed

text \<open>What a frame holds at each stage, in the hands of its owner.\<close>

definition frame_ok :: "'a lz_frame \<Rightarrow> 'a outcome option \<Rightarrow> bool" where
  "frame_ok fr e \<longleftrightarrow>
     (case lf_stage fr of
        Lz_final \<Rightarrow> \<exists>r. e = Some r \<and> producer_get (lf_producer fr) = Inr r \<and> producer_destructor (lf_producer fr) = Inr ()
      | _ \<Rightarrow> e = None \<and> lf_producer fr = producer_init)"

fun held_ok :: "lz_owner \<Rightarrow> 'a lz_frame \<Rightarrow> bool" where
  "held_ok (Held x) fr \<longleftrightarrow> lf_stage fr \<noteq> Lz_running"
| "held_ok (Awaited c) fr \<longleftrightarrow> lf_stage fr \<noteq> Lz_initial \<and> (lf_stage fr = Lz_running \<longrightarrow> lf_caller fr = Some c)"

text \<open>What has happened to the frames.\<close>

definition history_ok :: "'a lz_sys \<Rightarrow> bool" where
  "history_ok s \<longleftrightarrow>
     distinct (lz_created s) \<and> distinct (lz_started s) \<and> distinct (lz_destroyed s) \<and> distinct (map fst (lz_delivered s)) \<and>
     set (lz_created s) = dom (lz_frames s) \<union> set (lz_destroyed s) \<and> dom (lz_frames s) \<inter> set (lz_destroyed s) = {} \<and>
     set (lz_started s) \<subseteq> set (lz_created s) \<and> dom (lz_ended s) \<subseteq> set (lz_started s) \<and>
     (\<forall>f fr. lz_frames s f = Some fr \<longrightarrow> (f \<in> set (lz_started s) \<longleftrightarrow> lf_stage fr \<noteq> Lz_initial)) \<and>
     (\<forall>f r. (f, r) \<in> set (lz_delivered s) \<longrightarrow> lz_ended s f = Some r \<and> f \<in> set (lz_destroyed s))"

definition lz_inv :: "'a lz_sys \<Rightarrow> bool" where
  "lz_inv s \<longleftrightarrow>
     own_ok (handles (lz_slots s) (lz_awaiting s)) (dom (lz_frames s)) \<and>
     (\<forall>f fr. lz_frames s f = Some fr \<longrightarrow> frame_ok fr (lz_ended s f)) \<and>
     (\<forall>w f fr. handles (lz_slots s) (lz_awaiting s) w = Some f \<longrightarrow> lz_frames s f = Some fr \<longrightarrow> held_ok w fr) \<and>
     history_ok s"

lemma lz_inv_init: "lz_inv lz_init"
proof -
  have "handles (\<lambda>_. None) (\<lambda>_. None) w = None" for w by (cases w) simp_all
  then show ?thesis by (simp add: lz_inv_def lz_init_def own_ok_def history_ok_def ran_def dom_def)
qed

lemma lz_inv_frame:
  assumes "lz_inv s" "handles (lz_slots s) (lz_awaiting s) w = Some f"
  obtains fr where "lz_frames s f = Some fr" "frame_ok fr (lz_ended s f)" "held_ok w fr"
proof -
  have "own_ok (handles (lz_slots s) (lz_awaiting s)) (dom (lz_frames s))" using assms(1) by (simp add: lz_inv_def)
  from own_ok_live [OF this assms(2)] have "f \<in> dom (lz_frames s)" .
  then obtain fr where fr: "lz_frames s f = Some fr" by auto
  show thesis
  proof (rule that [OF fr])
    show "frame_ok fr (lz_ended s f)" using assms(1) fr by (simp add: lz_inv_def)
    show "held_ok w fr" using assms fr unfolding lz_inv_def by blast
  qed
qed

text \<open>The frames that a step leaves alone stay as they are.\<close>

lemma lz_invI:
  assumes "own_ok (handles (lz_slots t) (lz_awaiting t)) (dom (lz_frames t))" "history_ok t"
    and "\<And>f fr. lz_frames t f = Some fr \<Longrightarrow> frame_ok fr (lz_ended t f)"
    and "\<And>w f fr. handles (lz_slots t) (lz_awaiting t) w = Some f \<Longrightarrow> lz_frames t f = Some fr \<Longrightarrow> held_ok w fr"
  shows "lz_inv t"
  using assms unfolding lz_inv_def by blast

lemma lz_invD:
  assumes "lz_inv s"
  shows "own_ok (handles (lz_slots s) (lz_awaiting s)) (dom (lz_frames s))" "history_ok s"
    and "lz_frames s f = Some fr \<Longrightarrow> frame_ok fr (lz_ended s f)"
    and "handles (lz_slots s) (lz_awaiting s) w = Some f \<Longrightarrow> lz_frames s f = Some fr \<Longrightarrow> held_ok w fr"
  using assms unfolding lz_inv_def by blast+

lemma lz_inv_create:
  assumes "lz_inv s" "f \<notin> set (lz_created s)" "lz_slots s x = None"
  shows "lz_inv (lz_create f x s)"
proof -
  let ?h = "handles (lz_slots s) (lz_awaiting s)" and ?t = "lz_create f x s"
  note inv = lz_invD [OF assms(1)]
  have new: "lz_frames s f = None" "lz_ended s f = None" "f \<notin> set (lz_started s)" "f \<notin> set (lz_destroyed s)"
    using inv(2) assms(2) unfolding history_ok_def by blast+
  then have nf: "f \<notin> dom (lz_frames s)" by auto
  have hs: "handles (lz_slots ?t) (lz_awaiting ?t) = ?h(Held x \<mapsto> f)" by (simp add: lz_create_def handles_upd)
  show ?thesis
  proof (rule lz_invI)
    show "own_ok (handles (lz_slots ?t) (lz_awaiting ?t)) (dom (lz_frames ?t))"
      unfolding hs using own_ok_new [OF inv(1) nf] assms(3) by (simp add: lz_create_def)
    show "history_ok ?t"
      using inv(2) new assms(2) unfolding history_ok_def lz_create_def by (auto split: if_splits)
    show "frame_ok fr (lz_ended ?t g)" if "lz_frames ?t g = Some fr" for g fr
      using that inv(3) [of g] new(2) by (cases "g = f") (auto simp: lz_create_def frame_ok_def)
    show "held_ok w fr" if "handles (lz_slots ?t) (lz_awaiting ?t) w = Some g" "lz_frames ?t g = Some fr" for w g fr
    proof (cases "w = Held x")
      case True
      with that show ?thesis unfolding hs by (auto simp: lz_create_def)
    next
      case False
      with that(1) have w: "?h w = Some g" unfolding hs by simp
      with own_ok_live [OF inv(1)] nf have "g \<noteq> f" by blast
      with that(2) inv(4) [OF w] show ?thesis by (simp add: lz_create_def)
    qed
  qed
qed

text \<open>A handle changes its owner; the frame may change with it.\<close>

lemma lz_inv_pass:
  assumes "lz_inv s" and h: "handles (lz_slots s) (lz_awaiting s) v = Some f" "handles (lz_slots s) (lz_awaiting s) w = None"
    and t: "handles (lz_slots t) (lz_awaiting t) = (handles (lz_slots s) (lz_awaiting s))(v := None, w \<mapsto> f)"
      "lz_frames t = (lz_frames s)(f \<mapsto> fr)" "lz_ended t = lz_ended s"
    and fr: "frame_ok fr (lz_ended s f)" "held_ok w fr" and "history_ok t"
  shows "lz_inv t"
proof (rule lz_invI)
  note inv = lz_invD [OF assms(1)]
  let ?h = "handles (lz_slots s) (lz_awaiting s)"
  have "f \<in> dom (lz_frames s)" by (rule own_ok_live [OF inv(1) h(1)])
  then have "dom (lz_frames t) = dom (lz_frames s)" using t(2) by auto
  then show "own_ok (handles (lz_slots t) (lz_awaiting t)) (dom (lz_frames t))"
    unfolding t(1) using own_ok_pass [OF inv(1) h] by simp
  show "frame_ok gr (lz_ended t g)" if "lz_frames t g = Some gr" for g gr
    using that inv(3) [of g gr] fr(1) t(2,3) by (cases "g = f") auto
  show "held_ok u gr" if "handles (lz_slots t) (lz_awaiting t) u = Some g" "lz_frames t g = Some gr" for u g gr
  proof (cases "u = w")
    case True
    with that fr(2) t(1,2) show ?thesis by auto
  next
    case False
    with that(1) t(1) have u: "u \<noteq> v" "?h u = Some g" by (auto split: if_splits)
    with own_ok_unique [OF inv(1) h(1)] have "g \<noteq> f" by blast
    with that(2) t(2) inv(4) [OF u(2)] show ?thesis by simp
  qed
  show "history_ok t" by fact
qed

text \<open>The last owner of a handle destroys the frame.\<close>

lemma lz_inv_drop:
  assumes "lz_inv s" and h: "handles (lz_slots s) (lz_awaiting s) w = Some f"
    and t: "handles (lz_slots t) (lz_awaiting t) = (handles (lz_slots s) (lz_awaiting s))(w := None)"
      "lz_frames t = (lz_frames s)(f := None)" "lz_ended t = lz_ended s"
    and "history_ok t"
  shows "lz_inv t"
proof (rule lz_invI)
  note inv = lz_invD [OF assms(1)]
  let ?h = "handles (lz_slots s) (lz_awaiting s)"
  show "own_ok (handles (lz_slots t) (lz_awaiting t)) (dom (lz_frames t))"
    unfolding t(1) using own_ok_drop [OF inv(1) h] t(2) by simp
  show "frame_ok gr (lz_ended t g)" if "lz_frames t g = Some gr" for g gr
    using that inv(3) [of g gr] t(2,3) by (auto split: if_splits)
  show "held_ok u gr" if "handles (lz_slots t) (lz_awaiting t) u = Some g" "lz_frames t g = Some gr" for u g gr
    using that t(1,2) inv(4) [of u g gr] by (auto split: if_splits)
  show "history_ok t" by fact
qed

lemma history_ok_destroy:
  assumes "history_ok s" "lz_frames s f = Some fr"
  shows "history_ok (s\<lparr>lz_frames := (lz_frames s)(f := None), lz_destroyed := lz_destroyed s @ [f]\<rparr>)"
  using assms unfolding history_ok_def by (auto split: if_splits)

lemma history_ok_cong:
  "history_ok (s\<lparr>lz_slots := sl\<rparr>) = history_ok s" "history_ok (s\<lparr>lz_awaiting := aw\<rparr>) = history_ok s"
  by (simp_all add: history_ok_def)

text \<open>Every operation either keeps the invariant or reports an empty result.\<close>

definition lz_safe :: "'a lz_sys outcome \<Rightarrow> bool" where
  "lz_safe r = (case r of Inr t \<Rightarrow> lz_inv t | Inl e \<Rightarrow> \<exists>msg. e = Empty_result msg)"

lemma lz_safe_simps [simp]: "lz_safe (Inr t) = lz_inv t" "lz_safe (Inl (Empty_result msg))"
  by (simp_all add: lz_safe_def)

lemma frame_ok_destructor: "frame_ok fr e \<Longrightarrow> lf_stage fr \<noteq> Lz_running \<Longrightarrow> producer_destructor (lf_producer fr) = Inr ()"
  by (cases "lf_stage fr") (auto simp: frame_ok_def producer_init_def producer_destructor_def)

lemma lz_destroy_ok:
  assumes "lz_frames s f = Some fr" "frame_ok fr e" "lf_stage fr \<noteq> Lz_running"
  shows "lz_destroy f s = Inr (s\<lparr>lz_frames := (lz_frames s)(f := None), lz_destroyed := lz_destroyed s @ [f]\<rparr>)"
  using assms by (simp add: lz_destroy_def frame_ok_destructor)

lemma lazy_destructor_ok:
  assumes "lz_inv s"
  shows "\<exists>t. lazy_destructor x s = Inr t \<and> lz_inv t \<and> lz_slots t = (lz_slots s)(x := None) \<and> lz_awaiting t = lz_awaiting s"
proof (cases "lz_slots s x")
  case None
  then have "(lz_slots s)(x := None) = lz_slots s" by auto
  with None assms show ?thesis by (simp add: lazy_destructor_def)
next
  case (Some f)
  then have h: "handles (lz_slots s) (lz_awaiting s) (Held x) = Some f" by simp
  obtain fr where fr: "lz_frames s f = Some fr" "frame_ok fr (lz_ended s f)" "held_ok (Held x) fr"
    by (rule lz_inv_frame [OF assms h])
  let ?d = "s\<lparr>lz_frames := (lz_frames s)(f := None), lz_destroyed := lz_destroyed s @ [f]\<rparr>"
  let ?t = "?d\<lparr>lz_slots := (lz_slots s)(x := None)\<rparr>"
  have "history_ok ?t" unfolding history_ok_cong by (rule history_ok_destroy [OF lz_invD(2) [OF assms] fr(1)])
  then have "lz_inv ?t" by (intro lz_inv_drop [OF assms h]) (simp_all add: handles_upd)
  moreover have "lazy_destructor x s = Inr ?t"
    using Some lz_destroy_ok [OF fr(1,2)] fr(3) by (simp add: lazy_destructor_def)
  ultimately show ?thesis by simp
qed

lemma lazy_move_inv:
  assumes "lz_inv s" "lz_slots s x = None"
  shows "lz_inv (lazy_move x y s)"
proof (cases "lz_slots s y")
  case None
  with assms(2) have "lazy_move x y s = s" by (simp add: lazy_move_def fun_upd_idem)
  with assms(1) show ?thesis by simp
next
  case (Some f)
  then have h: "handles (lz_slots s) (lz_awaiting s) (Held y) = Some f" by simp
  obtain fr where fr: "lz_frames s f = Some fr" "frame_ok fr (lz_ended s f)" "held_ok (Held y) fr"
    by (rule lz_inv_frame [OF assms(1) h])
  show ?thesis
    by (rule lz_inv_pass [OF assms(1) h, where w = "Held x" and fr = fr])
      (use assms fr Some lz_invD(2) [OF assms(1)] in \<open>auto simp: lazy_move_def handles_upd history_ok_cong\<close>)
qed

lemma lazy_assign_inv:
  assumes "lz_inv s"
  shows "\<exists>t. lazy_assign x y s = Inr t \<and> lz_inv t"
proof (cases "y = x")
  case False
  obtain t where t: "lazy_destructor x s = Inr t" "lz_inv t" "lz_slots t = (lz_slots s)(x := None)"
    using lazy_destructor_ok [OF assms] by blast
  with False lazy_move_inv [OF t(2)] show ?thesis by (simp add: lazy_assign_def)
qed (use assms in \<open>simp add: lazy_assign_def\<close>)

lemma history_ok_start:
  assumes "history_ok s" "lz_frames s f = Some fr" "lf_stage fr = Lz_initial"
  shows "history_ok (s\<lparr>lz_frames := (lz_frames s)(f \<mapsto> fr\<lparr>lf_caller := c, lf_stage := Lz_running\<rparr>), lz_started := lz_started s @ [f]\<rparr>)"
  using assms unfolding history_ok_def by (auto split: if_splits)

lemma lazy_await_safe:
  assumes "lz_inv s" "lz_awaiting s c = None"
  shows "lz_safe (lazy_await resolving msg x c s)"
proof (cases "lz_slots s x")
  case None
  then show ?thesis by (simp add: lazy_await_def lazy_throw_if_empty_def)
next
  case (Some f)
  then have h: "handles (lz_slots s) (lz_awaiting s) (Held x) = Some f" by simp
  obtain fr where fr: "lz_frames s f = Some fr" "frame_ok fr (lz_ended s f)" "held_ok (Held x) fr"
    by (rule lz_inv_frame [OF assms(1) h])
  have hist: "history_ok s" by (rule lz_invD(2) [OF assms(1)])
  let ?t = "s\<lparr>lz_slots := (lz_slots s)(x := None), lz_awaiting := (lz_awaiting s)(c \<mapsto> (f, resolving))\<rparr>"
  have n: "handles (lz_slots s) (lz_awaiting s) (Awaited c) = None" using assms(2) by simp
  show ?thesis
  proof (cases "lf_stage fr")
    case Lz_initial
    let ?fr = "fr\<lparr>lf_caller := Some c, lf_stage := Lz_running\<rparr>"
    let ?u = "?t\<lparr>lz_frames := (lz_frames s)(f \<mapsto> ?fr), lz_started := lz_started s @ [f]\<rparr>"
    have e: "lazy_await resolving msg x c s = Inr ?u"
      using Some fr Lz_initial by (simp add: lazy_await_def lazy_throw_if_empty_def)
    let ?b = "s\<lparr>lz_frames := (lz_frames s)(f \<mapsto> ?fr), lz_started := lz_started s @ [f]\<rparr>"
    have "?u = ?b\<lparr>lz_slots := (lz_slots s)(x := None)\<rparr>\<lparr>lz_awaiting := (lz_awaiting s)(c \<mapsto> (f, resolving))\<rparr>" by simp
    then have "history_ok ?u" using history_ok_start [OF hist fr(1) Lz_initial, of "Some c"] by (simp only: history_ok_cong)
    then have "lz_inv ?u"
      by (intro lz_inv_pass [OF assms(1) h n, where fr = ?fr])
        (use fr Lz_initial in \<open>simp_all add: handles_upd frame_ok_def\<close>)
    with e show ?thesis by simp
  next
    case Lz_final
    have e: "lazy_await resolving msg x c s = Inr ?t"
      using Some fr Lz_final by (simp add: lazy_await_def lazy_throw_if_empty_def)
    have "(lz_frames s)(f \<mapsto> fr) = lz_frames s" using fr(1) by auto
    then have "lz_inv ?t"
      by (intro lz_inv_pass [OF assms(1) h n, where fr = fr])
        (use fr Lz_final hist in \<open>simp_all add: handles_upd history_ok_cong\<close>)
    with e show ?thesis by simp
  qed (use fr(3) in simp)
qed

lemma lazy_run_safe:
  assumes "lz_inv s" "lz_awaiting s c = None" "lz_slots s self = None"
  shows "lz_safe (lazy_run x self c s)"
proof (cases "lz_slots s x")
  case None
  then show ?thesis by (simp add: lazy_run_def lazy_throw_if_empty_def)
next
  case (Some f)
  have "lz_awaiting (lazy_move self x s) c = None" using assms(2) by (simp add: lazy_move_def)
  from lazy_await_safe [OF lazy_move_inv [OF assms(1,3)] this] Some show ?thesis
    by (simp add: lazy_run_def lazy_throw_if_empty_def lazy_co_await_def)
qed

text \<open>A coroutine that runs is owned by the awaitable of its caller.\<close>

lemma running_awaited:
  assumes "lz_inv s" "lz_frames s f = Some fr" "lf_stage fr = Lz_running"
  shows "\<exists>c. handles (lz_slots s) (lz_awaiting s) (Awaited c) = Some f \<and> lf_caller fr = Some c"
proof -
  note inv = lz_invD [OF assms(1)]
  obtain w where w: "handles (lz_slots s) (lz_awaiting s) w = Some f" using inv(1) assms(2) unfolding own_ok_iff by blast
  with inv(4) [OF w assms(2)] assms(3) show ?thesis by (cases w) auto
qed

lemma history_ok_finish:
  assumes "history_ok s" "lz_frames s f = Some fr" "lf_stage fr = Lz_running"
  shows "history_ok (s\<lparr>lz_frames := (lz_frames s)(f \<mapsto> fr\<lparr>lf_producer := p, lf_stage := Lz_final\<rparr>), lz_ended := (lz_ended s)(f \<mapsto> r)\<rparr>)"
  using assms unfolding history_ok_def by (auto split: if_splits)

lemma lazy_finish_safe:
  assumes "lz_inv s" "lz_frames s f = Some fr" "lf_stage fr = Lz_running"
  shows "lz_safe (lazy_finish f r s)"
proof -
  note inv = lz_invD [OF assms(1)]
  obtain c where c: "handles (lz_slots s) (lz_awaiting s) (Awaited c) = Some f" "lf_caller fr = Some c"
    using running_awaited [OF assms] by blast
  have i: "lf_producer fr = producer_init" using inv(3) [OF assms(2)] assms(3) by (simp add: frame_ok_def)
  let ?p = "case r of Inr v \<Rightarrow> \<lparr>pr_storage = Object v, pr_status = RS_value\<rparr> | Inl e \<Rightarrow> \<lparr>pr_storage = Exception e, pr_status = RS_exception\<rparr>"
  have p: "producer_get ?p = Inr r" "producer_destructor ?p = Inr ()"
    by (cases r; simp add: producer_get_def producer_get_ref_def producer_destructor_def)+
  let ?fr = "fr\<lparr>lf_producer := ?p, lf_stage := Lz_final\<rparr>"
  let ?t = "s\<lparr>lz_frames := (lz_frames s)(f \<mapsto> ?fr), lz_ended := (lz_ended s)(f \<mapsto> r)\<rparr>"
  have e: "lazy_finish f r s = Inr ?t"
    using assms(2) c(2) i by (cases r) (simp_all add: lazy_finish_def producer_build_result_def producer_build_exception_def producer_init_def)
  have "lz_inv ?t"
  proof (rule lz_invI)
    show "own_ok (handles (lz_slots ?t) (lz_awaiting ?t)) (dom (lz_frames ?t))"
      using inv(1) assms(2) by (simp add: insert_absorb domI)
    show "history_ok ?t" by (rule history_ok_finish [OF inv(2) assms(2,3)])
    show "frame_ok gr (lz_ended ?t g)" if "lz_frames ?t g = Some gr" for g gr
      using that inv(3) [of g gr] p by (cases "g = f") (auto simp: frame_ok_def)
    show "held_ok w gr" if "handles (lz_slots ?t) (lz_awaiting ?t) w = Some g" "lz_frames ?t g = Some gr" for w g gr
    proof (cases "g = f")
      case True
      with that(1) own_ok_unique [OF inv(1) c(1)] have "w = Awaited c" by simp
      with True that(2) show ?thesis by auto
    qed (use that inv(4) [of w g gr] in simp)
  qed
  with e show ?thesis by simp
qed

lemma history_ok_deliver:
  assumes "history_ok s" "lz_frames s f = Some fr" "lz_ended s f = Some r"
  shows "history_ok (s\<lparr>lz_frames := (lz_frames s)(f := None), lz_destroyed := lz_destroyed s @ [f], lz_delivered := lz_delivered s @ [(f, r)]\<rparr>)"
proof -
  have "f \<notin> set (lz_destroyed s)" using assms(1,2) unfolding history_ok_def by blast
  then have "f \<notin> fst ` set (lz_delivered s)" using assms(1) unfolding history_ok_def by fastforce
  with history_ok_destroy [OF assms(1,2)] assms(1,3) show ?thesis unfolding history_ok_def by auto
qed

lemma lazy_await_resume_safe:
  assumes "lz_inv s" "lz_awaiting s c = Some (f, resolving)" "frame_at Lz_final f s" "resolving \<Longrightarrow> lz_slots s x = None"
  shows "lz_safe (lazy_await_resume c x s)"
proof -
  have h: "handles (lz_slots s) (lz_awaiting s) (Awaited c) = Some f" using assms(2) by simp
  obtain fr where fr: "lz_frames s f = Some fr" "frame_ok fr (lz_ended s f)" "held_ok (Awaited c) fr"
    by (rule lz_inv_frame [OF assms(1) h])
  have st: "lf_stage fr = Lz_final" using assms(3) fr(1) by (simp add: frame_at_def)
  have hist: "history_ok s" by (rule lz_invD(2) [OF assms(1)])
  show ?thesis
  proof (cases resolving)
    case True
    then have n: "handles (lz_slots s) (lz_awaiting s) (Held x) = None" using assms(4) by simp
    have "(lz_frames s)(f \<mapsto> fr) = lz_frames s" using fr(1) by auto
    then have "lz_inv (s\<lparr>lz_awaiting := (lz_awaiting s)(c := None), lz_slots := (lz_slots s)(x \<mapsto> f)\<rparr>)"
      by (intro lz_inv_pass [OF assms(1) h n, where fr = fr]) (use fr st hist in \<open>simp_all add: handles_upd history_ok_cong fun_upd_twist [of "Held x" "Awaited c"]\<close>)
    with True assms(2) show ?thesis by (simp add: lazy_await_resume_def)
  next
    case False
    obtain r where r: "lz_ended s f = Some r" "producer_get (lf_producer fr) = Inr r" using fr(2) st by (auto simp: frame_ok_def)
    let ?d = "s\<lparr>lz_frames := (lz_frames s)(f := None), lz_destroyed := lz_destroyed s @ [f], lz_delivered := lz_delivered s @ [(f, r)]\<rparr>"
    have "history_ok (?d\<lparr>lz_awaiting := (lz_awaiting s)(c := None)\<rparr>)"
      using history_ok_deliver [OF hist fr(1) r(1)] by (simp only: history_ok_cong)
    then have "lz_inv (?d\<lparr>lz_awaiting := (lz_awaiting s)(c := None)\<rparr>)"
      by (intro lz_inv_drop [OF assms(1) h]) (simp_all add: handles_upd)
    moreover have "lazy_await_resume c x s = Inr (?d\<lparr>lz_awaiting := (lz_awaiting s)(c := None)\<rparr>)"
      using False assms(2) fr(1) r(2) lz_destroy_ok [OF fr(1,2)] st by (simp add: lazy_await_resume_def)
    ultimately show ?thesis by simp
  qed
qed

lemma lz_exec_safe:
  assumes "lz_inv s" "lz_exec ev s = Some r"
  shows "lz_safe r"
proof (cases ev)
  case (Lz_create f x)
  with assms lz_inv_create [OF assms(1)] show ?thesis by (auto simp: lazy_bool_def split: if_splits)
next
  case (Lz_move x y)
  with assms lazy_move_inv [OF assms(1)] show ?thesis by (auto simp: lazy_bool_def split: if_splits)
next
  case (Lz_assign x y)
  with assms(2) lazy_assign_inv [OF assms(1), of x y] show ?thesis by auto
next
  case (Lz_drop x)
  with assms(2) lazy_destructor_ok [OF assms(1), of x] show ?thesis by auto
next
  case (Lz_await x c)
  with assms(2) lazy_await_safe [OF assms(1)] show ?thesis by (cases "lz_awaiting s c") (auto simp: lazy_co_await_def)
next
  case (Lz_resolve x c)
  with assms(2) lazy_await_safe [OF assms(1)] show ?thesis by (cases "lz_awaiting s c") (auto simp: lazy_resolve_def)
next
  case (Lz_run x self c)
  with assms(2) lazy_run_safe [OF assms(1)] show ?thesis by (cases "lz_awaiting s c") (auto simp: lazy_bool_def split: if_splits)
next
  case (Lz_finish f out)
  with assms(2) lazy_finish_safe [OF assms(1), of f] show ?thesis by (auto simp: frame_at_def split: if_splits option.splits)
next
  case (Lz_resume c x)
  with assms(2) lazy_await_resume_safe [OF assms(1), of c] show ?thesis by (auto simp: lazy_bool_def split: if_splits option.splits)
qed

lemma lz_reachable_inv: "lz_reachable s \<Longrightarrow> lz_inv s"
proof (induction rule: lz_reachable.induct)
  case (step s ev t)
  with lz_exec_safe [of s ev "Inr t"] show ?case by simp
qed (rule lz_inv_init)

section \<open>The life of a lazy coroutine\<close>

lemma lazy_delivers:
  assumes "lz_inv s" "lz_awaiting s c = Some (f, False)" "lz_ended s f = Some r"
  shows "\<exists>t. lz_exec (Lz_resume c x) s = Some (Inr t) \<and> lz_delivered t = lz_delivered s @ [(f, r)] \<and> lz_frames t f = None"
proof -
  have h: "handles (lz_slots s) (lz_awaiting s) (Awaited c) = Some f" using assms(2) by simp
  obtain fr where fr: "lz_frames s f = Some fr" "frame_ok fr (lz_ended s f)" "held_ok (Awaited c) fr"
    by (rule lz_inv_frame [OF assms(1) h])
  have st: "lf_stage fr = Lz_final" "producer_get (lf_producer fr) = Inr r"
    using fr(2) assms(3) by (auto simp: frame_ok_def split: lz_stage.splits)
  with assms(2) fr(1) lz_destroy_ok [OF fr(1,2)] show ?thesis
    by (simp add: frame_at_def lazy_await_resume_def)
qed

text \<open>C38: lazy coroutines are started once, destroyed once and never leaked.  In every reachable state of any program over lazy results -
  creation, moves, assignments, destruction, \<^verbatim>\<open>co_await\<close>, \<^verbatim>\<open>resolve\<close> and \<^verbatim>\<open>run\<close> in any order - no operation fails except by
  reporting an empty result; every frame is started at most once and destroyed at most once; what a caller gets is what the body of its
  callee ended with, at most once for each frame; a caller whose callee has ended can go on and gets that outcome; and when no object and no awaitable
  holds a handle any more, every frame that was created has been destroyed.\<close>

theorem lazy_result_lifecycle:
  assumes "lz_reachable s"
  shows "(lz_exec ev s = Some (Inl e) \<longrightarrow> (\<exists>msg. e = Empty_result msg)) \<and>
    distinct (lz_started s) \<and> distinct (lz_destroyed s) \<and> distinct (map fst (lz_delivered s)) \<and>
    (\<forall>f r. (f, r) \<in> set (lz_delivered s) \<longrightarrow> lz_ended s f = Some r) \<and>
    (lz_awaiting s c = Some (f, False) \<and> lz_ended s f = Some r \<longrightarrow>
      (\<exists>t. lz_exec (Lz_resume c x) s = Some (Inr t) \<and> lz_delivered t = lz_delivered s @ [(f, r)] \<and> lz_frames t f = None)) \<and>
    (lz_slots s = (\<lambda>_. None) \<and> lz_awaiting s = (\<lambda>_. None) \<longrightarrow> set (lz_created s) = set (lz_destroyed s))"
proof (intro conjI impI)
  have inv: "lz_inv s" by (rule lz_reachable_inv [OF assms])
  have hist: "history_ok s" by (rule lz_invD(2) [OF inv])
  show "\<exists>msg. e = Empty_result msg" if "lz_exec ev s = Some (Inl e)" using lz_exec_safe [OF inv that] by (simp add: lz_safe_def)
  show "distinct (lz_started s)" "distinct (lz_destroyed s)" "distinct (map fst (lz_delivered s))"
    "\<forall>f r. (f, r) \<in> set (lz_delivered s) \<longrightarrow> lz_ended s f = Some r"
    using hist unfolding history_ok_def by blast+
  show "\<exists>t. lz_exec (Lz_resume c x) s = Some (Inr t) \<and> lz_delivered t = lz_delivered s @ [(f, r)] \<and> lz_frames t f = None"
    if "lz_awaiting s c = Some (f, False) \<and> lz_ended s f = Some r"
    using lazy_delivers [OF inv] that by blast
  show "set (lz_created s) = set (lz_destroyed s)" if "lz_slots s = (\<lambda>_. None) \<and> lz_awaiting s = (\<lambda>_. None)"
  proof -
    have "handles (lz_slots s) (lz_awaiting s) w = None" for w using that by (cases w) simp_all
    then have "dom (lz_frames s) = {}" using lz_invD(1) [OF inv] by (auto simp: own_ok_def ran_def)
    with hist show ?thesis unfolding history_ok_def by simp
  qed
qed

text \<open>Runs.\<close>

fun lz_run_events :: "'a lz_event list \<Rightarrow> 'a lz_sys \<Rightarrow> 'a lz_sys option" where
  "lz_run_events [] s = Some s"
| "lz_run_events (ev # evs) s = (case lz_exec ev s of Some (Inr t) \<Rightarrow> lz_run_events evs t | _ \<Rightarrow> None)"

lemma lz_run_reachable: "lz_reachable s \<Longrightarrow> lz_run_events evs s = Some t \<Longrightarrow> lz_reachable t"
  by (induction evs arbitrary: s) (auto intro: lz_reachable.step split: option.splits sum.splits)

text \<open>A result is moved, resolved by one coroutine and awaited by another one.\<close>

definition lz_demo :: "nat lz_event list" where
  "lz_demo = [Lz_create 1 10, Lz_create 2 11, Lz_move 12 10, Lz_assign 11 12, Lz_resolve 11 20, Lz_finish 1 (Inr 7), Lz_resume 20 13,
     Lz_await 13 21]"

theorem lazy_result_lifecycle_witness:
  "\<exists>s t. lz_run_events lz_demo lz_init = Some s \<and> lz_started s = [1] \<and> lz_destroyed s = [2] \<and>
     lz_exec (Lz_resume 21 0) s = Some (Inr t) \<and> lz_delivered t = [(1, Inr 7)] \<and> lz_frames t 1 = None"
proof -
  have "\<exists>s. lz_run_events lz_demo lz_init = Some s \<and> lz_started s = [1] \<and> lz_destroyed s = [2] \<and> lz_delivered s = [] \<and>
      lz_awaiting s 21 = Some (1, False) \<and> lz_ended s 1 = Some (Inr 7)"
    by (simp add: lz_demo_def lz_init_def lazy_bool_def lz_create_def lazy_move_def lazy_assign_def lazy_destructor_def
        lz_destroy_def producer_destructor_def producer_init_def lazy_resolve_def lazy_await_def lazy_throw_if_empty_def
        frame_at_def lazy_finish_def producer_build_result_def lazy_await_resume_def lazy_co_await_def)
  then obtain s where s: "lz_run_events lz_demo lz_init = Some s" "lz_started s = [1]" "lz_destroyed s = [2]" "lz_delivered s = []"
      "lz_awaiting s 21 = Some (1, False)" "lz_ended s 1 = Some (Inr 7)" by blast
  have "lz_reachable s" using lz_run_reachable [OF lz_reachable.start s(1)] .
  from lazy_result_lifecycle [OF this, where c = 21 and f = 1 and r = "Inr 7" and x = 0] s show ?thesis by auto
qed

end
