(* ===== verification/Net_Tcp.thy ===== *)
theory Net_Tcp
  imports Http_Client
begin

text \<open>
  The pool of I/O contexts (\<^verbatim>\<open>runtime/io_context_pool.hpp\<close>), the TCP server (\<^verbatim>\<open>net/server.hpp\<close>) with its accept loop, which the HTTP
  server shares (\<^verbatim>\<open>net/http/http_server.hpp\<close>), and the TCP client (\<^verbatim>\<open>net/client.hpp\<close>).  A context is its index in the pool; what the sockets
  return is a parameter, as for the HTTP client.
\<close>

section \<open>The pool of contexts\<close>

text \<open>Whether each context has been stopped, the number of work guards, and the next context to hand out.\<close>

record io_pool =
  ip_stopped :: "bool list"
  ip_work :: nat
  ip_next :: nat

definition io_pool_new :: "nat \<Rightarrow> io_pool" where
  "io_pool_new pool_size =
     (let n = (if pool_size = 0 then 1 else pool_size) in \<lparr>ip_stopped = replicate n False, ip_work = n, ip_next = 0\<rparr>)"

text \<open>\<^verbatim>\<open>run\<close> starts one thread for each context; the result is the contexts they run.\<close>

definition io_pool_run :: "io_pool \<Rightarrow> nat list" where
  "io_pool_run p = [0..<length (ip_stopped p)]"

definition io_pool_stop :: "io_pool \<Rightarrow> io_pool" where
  "io_pool_stop p = p\<lparr>ip_work := 0, ip_stopped := map (\<lambda>_. True) (ip_stopped p)\<rparr>"

definition current_io_context :: "io_pool \<Rightarrow> nat" where
  "current_io_context p = (if ip_next p = 0 then length (ip_stopped p) - 1 else ip_next p - 1)"

definition get_io_context :: "io_pool \<Rightarrow> (nat \<times> io_pool) outcome" where
  "get_io_context p =
     (if ip_next p < length (ip_stopped p) then
        (let nx = ip_next p + 1 in Inr (ip_next p, p\<lparr>ip_next := if nx = length (ip_stopped p) then 0 else nx\<rparr>))
      else Inl (Undefined_behaviour ''io_contexts_ index''))"

definition get_client_io_context :: "io_pool \<Rightarrow> nat outcome" where
  "get_client_io_context p =
     (if ip_stopped p = [] then Inl (Undefined_behaviour ''back of an empty vector'') else Inr (length (ip_stopped p) - 1))"

definition io_pool_ok :: "io_pool \<Rightarrow> bool" where
  "io_pool_ok p \<longleftrightarrow> ip_next p < length (ip_stopped p)"

lemma io_pool_new_ok: "io_pool_ok (io_pool_new n)"
  by (simp add: io_pool_ok_def io_pool_new_def Let_def)

lemma get_io_context_ok:
  assumes "io_pool_ok p"
  shows "\<exists>q. get_io_context p = Inr (ip_next p, q) \<and> io_pool_ok q \<and> ip_stopped q = ip_stopped p \<and>
    ip_next q = (ip_next p + 1) mod length (ip_stopped p) \<and> current_io_context q = ip_next p"
proof -
  have n: "ip_next p < length (ip_stopped p)" using assms by (simp add: io_pool_ok_def)
  then have "0 < length (ip_stopped p)" by linarith
  with n show ?thesis by (auto simp: get_io_context_def io_pool_ok_def current_io_context_def Let_def)
qed

text \<open>The reads and writes of \<^verbatim>\<open>get_io_context\<close> are not synchronised: a second caller between the increment and the comparison of the first one uses
  an index behind the end.\<close>

lemma io_pool_race:
  "get_io_context ((io_pool_new 1)\<lparr>ip_next := ip_next (io_pool_new 1) + 1\<rparr>) = Inl (Undefined_behaviour ''io_contexts_ index'')"
  by (simp add: get_io_context_def io_pool_new_def)

section \<open>The accept loop\<close>

text \<open>What \<^verbatim>\<open>async_accept\<close> returns: a connection, or an error; \<^verbatim>\<open>operation_aborted\<close> when the acceptor has been closed.\<close>

datatype accepted = Accepted addr | Accept_failed nat

text \<open>The loop of \<^verbatim>\<open>start\<close> over the results so far: the sessions that were started, each with the context of its socket, whether the loop goes
  on, and the pool.  A context is taken before every attempt.\<close>

fun accept_loop :: "accepted list \<Rightarrow> (addr \<times> nat) list \<Rightarrow> io_pool \<Rightarrow> ((addr \<times> nat) list \<times> bool \<times> io_pool) outcome" where
  "accept_loop [] sessions p = Inr (sessions, True, p)"
| "accept_loop (a # as) sessions p =
     bind_outcome (get_io_context p) (\<lambda>(i, q).
       case a of
         Accepted sock \<Rightarrow> accept_loop as (sessions @ [(sock, i)]) q
       | Accept_failed ec \<Rightarrow> if ec = operation_aborted then Inr (sessions, False, q) else accept_loop as sessions q)"

definition server_start :: "accepted list \<Rightarrow> io_pool \<Rightarrow> ((addr \<times> nat) list \<times> bool \<times> io_pool) outcome" where
  "server_start as p = bind_outcome (get_io_context p) (\<lambda>(i, q). accept_loop as [] q)"

text \<open>The attempts up to the closing of the acceptor, with their numbers.\<close>

fun connections :: "nat \<Rightarrow> accepted list \<Rightarrow> (addr \<times> nat) list" where
  "connections k [] = []"
| "connections k (Accepted sock # as) = (sock, k) # connections (Suc k) as"
| "connections k (Accept_failed ec # as) = (if ec = operation_aborted then [] else connections (Suc k) as)"

lemma connections_ge: "(sock, j) \<in> set (connections k as) \<Longrightarrow> k \<le> j"
  by (induction k as rule: connections.induct) (auto split: if_splits)

lemma accept_loop_ok:
  assumes "io_pool_ok p" "ip_next p = k mod length (ip_stopped p)"
  shows "\<exists>q. accept_loop as sessions p =
      Inr (sessions @ map (\<lambda>(sock, j). (sock, j mod length (ip_stopped p))) (connections k as),
           Accept_failed operation_aborted \<notin> set as, q) \<and> io_pool_ok q"
  using assms
proof (induction as arbitrary: sessions p k)
  case (Cons a as)
  let ?n = "length (ip_stopped p)"
  obtain q where q: "get_io_context p = Inr (ip_next p, q)" "io_pool_ok q" "ip_stopped q = ip_stopped p"
      "ip_next q = (ip_next p + 1) mod ?n"
    using get_io_context_ok [OF Cons.prems(1)] by blast
  have "ip_next q = Suc k mod length (ip_stopped q)" using q(3,4) Cons.prems(2) by (simp add: mod_simps)
  note IH = Cons.IH [OF q(2) this]
  show ?case
  proof (cases a)
    case (Accepted sock)
    with q IH [of "sessions @ [(sock, ip_next p)]"] Cons.prems(2) show ?thesis by simp
  next
    case (Accept_failed ec)
    with q IH [of sessions] show ?thesis by simp
  qed
qed simp

lemma server_start_round_robin:
  assumes "0 < n"
  shows "\<exists>q. server_start as (io_pool_new n) =
      Inr (map (\<lambda>(sock, j). (sock, j mod n)) (connections 1 as), Accept_failed operation_aborted \<notin> set as, q)"
proof -
  let ?p = "io_pool_new n"
  have p: "length (ip_stopped ?p) = n" "ip_next ?p = 0" using assms by (simp_all add: io_pool_new_def Let_def)
  obtain q where q: "get_io_context ?p = Inr (ip_next ?p, q)" "io_pool_ok q" "ip_stopped q = ip_stopped ?p" "ip_next q = (ip_next ?p + 1) mod n"
    using get_io_context_ok [OF io_pool_new_ok, of n] p(1) by auto
  then have l: "length (ip_stopped q) = n" "ip_next q = 1 mod length (ip_stopped q)" using p by simp_all
  from accept_loop_ok [OF q(2) l(2), of as "[]"] q(1) l(1) show ?thesis by (auto simp: server_start_def)
qed

section \<open>A session of the TCP server\<close>

text \<open>\<^verbatim>\<open>on_message\<close> gets the bytes that were read and may change them in place; it returns the number of bytes to send back, or throws (\<open>None\<close>).\<close>

type_synonym on_message = "string \<Rightarrow> string \<times> nat option"

definition session_reply :: "on_message option \<Rightarrow> string \<Rightarrow> string" where
  "session_reply cb xs =
     (case cb of
        None \<Rightarrow> take (length xs) xs
      | Some f \<Rightarrow> let (data, r) = f xs in take (case r of Some n \<Rightarrow> min n (length xs) | None \<Rightarrow> length xs) data)"

datatype session_end = Session_waiting | Session_closed | Session_failed exn

function session :: "on_message option \<Rightarrow> string list \<Rightarrow> client_read list \<Rightarrow> string list \<times> session_end" where
  "session cb sent evs =
     (case evs of
        [] \<Rightarrow> (sent, Session_waiting)
      | Eof # _ \<Rightarrow> (sent, Session_closed)
      | Failed ec # _ \<Rightarrow> (sent, Session_failed (System_error ec []))
      | Data xs # evs1 \<Rightarrow> let (got, evs2) = read_some 4096 xs evs1 in session cb (sent @ [session_reply cb got]) evs2)"
  by auto
termination by (relation "measure (\<lambda>(cb, sent, evs). pending evs)") (auto simp: read_some_def pending_def split: if_splits)

declare session.simps [simp del]

section \<open>The TCP client\<close>

function call_loop :: "string \<Rightarrow> client_read list \<Rightarrow> string outcome" where
  "call_loop response evs =
     (case evs of
        [] \<Rightarrow> Inl (rethrow_error operation_aborted)
      | Eof # _ \<Rightarrow> Inr response
      | Failed ec # _ \<Rightarrow> Inl (rethrow_error ec)
      | Data xs # evs1 \<Rightarrow> let (got, evs2) = read_some 4096 xs evs1 in call_loop (response @ got) evs2)"
  by auto
termination by (relation "measure (\<lambda>(response, evs). pending evs)") (auto simp: read_some_def pending_def split: if_splits)

declare call_loop.simps [simp del]

text \<open>\<^verbatim>\<open>call\<close>: the error of the connection attempt, the error of the write, and what the reads return.\<close>

definition tcp_call :: "nat option \<Rightarrow> nat option \<Rightarrow> client_read list \<Rightarrow> string outcome" where
  "tcp_call connect_error write_error evs =
     (case connect_error of
        Some ec \<Rightarrow> Inl (rethrow_error ec)
      | None \<Rightarrow> (case write_error of Some ec \<Rightarrow> Inl (rethrow_error ec) | None \<Rightarrow> call_loop [] evs))"

section \<open>What client and server do together\<close>

lemma take_drop_append: "take n xs @ drop n xs @ ys = xs @ ys"
  by (simp flip: append_assoc)

lemma call_loop_data: "call_loop response (map Data xss @ evs) = call_loop (response @ concat xss) evs"
proof (induction "pending (map Data xss)" arbitrary: response xss rule: less_induct)
  case less
  show ?case
  proof (cases xss)
    case (Cons xs xss')
    show ?thesis
    proof (cases "length xs \<le> 4096")
      case True
      with less [of xss' "response @ xs"] Cons show ?thesis
        by (subst call_loop.simps) (simp add: read_some_def pending_def)
    next
      case False
      have "call_loop (response @ take 4096 xs) (map Data (drop 4096 xs # xss') @ evs) =
          call_loop ((response @ take 4096 xs) @ concat (drop 4096 xs # xss')) evs"
        by (rule less) (use False Cons in \<open>simp add: pending_def\<close>)
      with False Cons show ?thesis by (subst call_loop.simps) (simp add: read_some_def take_drop_append)
    qed
  qed simp
qed

lemma session_echo:
  "\<exists>out. concat out = concat xss \<and> (\<forall>evs. session None sent (map Data xss @ evs) = session None (sent @ out) evs)"
proof (induction "pending (map Data xss)" arbitrary: sent xss rule: less_induct)
  case less
  show ?case
  proof (cases xss)
    case Nil
    show ?thesis by (intro exI [of _ "[]"]) (simp add: Nil)
  next
    case (Cons xs xss')
    let ?yss = "if length xs \<le> 4096 then xss' else drop 4096 xs # xss'"
    have "pending (map Data ?yss) < pending (map Data xss)" using Cons by (auto simp: pending_def)
    from less [OF this, of "sent @ [take 4096 xs]"] obtain out where
      o: "concat out = concat ?yss"
        "\<And>evs. session None (sent @ [take 4096 xs]) (map Data ?yss @ evs) = session None ((sent @ [take 4096 xs]) @ out) evs"
      by blast
    have "session None sent (map Data xss @ evs) = session None (sent @ [take 4096 xs]) (map Data ?yss @ evs)" for evs
      using Cons by (subst session.simps) (simp add: read_some_def session_reply_def)
    with o Cons show ?thesis by (intro exI [of _ "take 4096 xs # out"]) (simp add: take_drop_append)
  qed
qed

text \<open>C39: a call of the TCP client on the TCP server times out.  Without a callback a session sends back exactly the bytes it gets, however they
  are cut, and waits for more; it closes only when the client has closed.  The client in turn reads until the server closes.  So a
  call of the client on such a session ends with the error \<^verbatim>\<open>timed_out\<close> although the whole answer has arrived; had the server closed the connection, the
  call would have returned the message.\<close>

theorem tcp_echo_call_times_out:
  assumes "concat xss = message" "concat yss = message"
  shows "(\<exists>out. session None [] (map Data xss) = (out, Session_waiting) \<and> concat out = message \<and>
      session None [] (map Data xss @ [Eof]) = (out, Session_closed)) \<and>
    tcp_call None None (map Data yss) = Inl (System_error timed_out []) \<and>
    tcp_call None None (map Data yss @ [Eof]) = Inr message"
proof (intro conjI)
  obtain out where out: "concat out = concat xss" "\<And>evs. session None [] (map Data xss @ evs) = session None ([] @ out) evs"
    using session_echo [of xss "[]"] by blast
  show "\<exists>out. session None [] (map Data xss) = (out, Session_waiting) \<and> concat out = message \<and>
      session None [] (map Data xss @ [Eof]) = (out, Session_closed)"
    using out(1) out(2) [of "[]"] out(2) [of "[Eof]"] assms(1) by (intro exI [of _ out]) (simp add: session.simps)
  show "tcp_call None None (map Data yss) = Inl (System_error timed_out [])"
    using call_loop_data [of "[]" yss "[]"] by (simp add: tcp_call_def call_loop.simps rethrow_error_def)
  show "tcp_call None None (map Data yss @ [Eof]) = Inr message"
    using call_loop_data [of "[]" yss "[Eof]"] assms(2) by (simp add: tcp_call_def call_loop.simps)
qed

theorem tcp_echo_call_times_out_witness:
  "session None [] (map Data [''he'', ''llo'']) = ([''he'', ''llo''], Session_waiting) \<and>
   tcp_call None None (map Data [''hell'', ''o'']) = Inl (System_error timed_out [])"
proof -
  have "session None [] (map Data [''he'', ''llo'']) = ([''he'', ''llo''], Session_waiting)"
    by (simp add: session.simps read_some_def session_reply_def)
  moreover have "tcp_call None None (map Data [''hell'', ''o'']) = Inl (System_error timed_out [])"
    using tcp_echo_call_times_out [of "[''he'', ''llo'']" "''hello''" "[''hell'', ''o'']"] by simp
  ultimately show ?thesis ..
qed

text \<open>A callback never makes a session send more than it has read.\<close>

lemma session_reply_bound: "(\<And>s. length (fst (f s)) = length s) \<Longrightarrow> length (session_reply (Some f) xs) \<le> length xs"
  by (auto simp: session_reply_def min_le_iff_disj split: prod.splits option.splits)

end
