(* ===== verification/Runtime.thy ===== *)
theory Runtime
  imports Executor Timer_Queue Net_Tcp
begin

text \<open>
  The runtime (\<^verbatim>\<open>source/runtime/runtime.cpp\<close>, \<^verbatim>\<open>runtime/runtime.h\<close>) and the threads of the library (\<^verbatim>\<open>threads/thread.h\<close>,
  \<^verbatim>\<open>source/threads/thread.cpp\<close>).  The runtime is composed of the models of its parts: the timer queue, the executors in the
  order of their registration, and the pool of I/O contexts.  Its destructor is interleaved with everything the parts go on doing.
\<close>

section \<open>Threads\<close>

text \<open>\<^verbatim>\<open>generate_thread_id\<close>: the value of the counter before the increment, in 64 bits.\<close>

definition generate_thread_id :: "64 word \<Rightarrow> 64 word \<times> 64 word" where
  "generate_thread_id seed = (seed, seed + 1)"

fun thread_ids :: "nat \<Rightarrow> 64 word \<Rightarrow> 64 word list" where
  "thread_ids 0 seed = []"
| "thread_ids (Suc n) seed = (let (i, seed') = generate_thread_id seed in i # thread_ids n seed')"

lemma thread_ids_eq: "thread_ids n seed = map (\<lambda>k. seed + of_nat k) [0..<n]"
proof (induction n arbitrary: seed)
  case (Suc n)
  have "[0..<Suc n] = 0 # map Suc [0..<n]" by (simp add: map_Suc_upt upt_conv_Cons del: upt_Suc)
  then show ?case using Suc by (simp add: generate_thread_id_def ac_simps)
qed simp

text \<open>The identities of fewer than \<open>2 ^ 64\<close> threads are different.\<close>

lemma thread_ids_distinct: "n \<le> 2 ^ 64 \<Longrightarrow> distinct (thread_ids n seed)"
  unfolding thread_ids_eq by (auto simp: distinct_map inj_on_def of_nat_eq_iff word_of_nat_eq_iff take_bit_nat_eq_self)

text \<open>The body of a thread: the callbacks around the callable.  An exception of the callable ends the program.\<close>

definition thread_main :: "('e \<Rightarrow> 'e) option \<Rightarrow> ('e \<Rightarrow> 'e) option \<Rightarrow> 'e callable \<Rightarrow> 'e \<Rightarrow> 'e outcome" where
  "thread_main started terminated callable e =
     (let e1 = (case started of Some f \<Rightarrow> f e | None \<Rightarrow> e) in
      case callable e1 of
        (Some x, e2) \<Rightarrow> Inl (Terminated x)
      | (None, e2) \<Rightarrow> Inr (case terminated of Some f \<Rightarrow> f e2 | None \<Rightarrow> e2))"

definition k_default_number_of_cores :: nat where
  "k_default_number_of_cores = 8"

definition hardware_concurrency :: "32 word \<Rightarrow> nat" where
  "hardware_concurrency hc = (if hc \<noteq> 0 then unat hc else k_default_number_of_cores)"

section \<open>Options\<close>

definition k_cpu_threadpool_worker_count_factor :: nat where
  "k_cpu_threadpool_worker_count_factor = 1"

definition k_background_threadpool_worker_count_factor :: nat where
  "k_background_threadpool_worker_count_factor = 4"

definition k_net_io_pool_threads :: nat where
  "k_net_io_pool_threads = 4"

definition default_max_cpu_workers :: "32 word \<Rightarrow> nat" where
  "default_max_cpu_workers hc = hardware_concurrency hc * k_cpu_threadpool_worker_count_factor mod 2 ^ 64"

definition default_max_background_workers :: "32 word \<Rightarrow> nat" where
  "default_max_background_workers hc = hardware_concurrency hc * k_background_threadpool_worker_count_factor mod 2 ^ 64"

record runtime_options =
  ro_max_cpu_threads :: nat
  ro_max_background_threads :: nat
  ro_net_io_pool_threads :: nat

definition runtime_options_new :: "32 word \<Rightarrow> runtime_options" where
  "runtime_options_new hc = \<lparr>ro_max_cpu_threads = default_max_cpu_workers hc,
     ro_max_background_threads = default_max_background_workers hc, ro_net_io_pool_threads = k_net_io_pool_threads\<rparr>"

text \<open>The default options ask for at least one worker in each pool, and their product does not wrap around.\<close>

lemma default_options_positive:
  "0 < ro_max_cpu_threads (runtime_options_new hc)" "ro_max_background_threads (runtime_options_new hc) = 4 * ro_max_cpu_threads (runtime_options_new hc)"
proof -
  have u: "unat hc < 2 ^ 32" using unsigned_less [of hc, where ?'a = nat] by simp
  have "0 < unat hc \<longleftrightarrow> hc \<noteq> 0" by (rule unat_gt_0)
  with u show "0 < ro_max_cpu_threads (runtime_options_new hc)"
    "ro_max_background_threads (runtime_options_new hc) = 4 * ro_max_cpu_threads (runtime_options_new hc)"
    by (auto simp: runtime_options_new_def default_max_cpu_workers_def default_max_background_workers_def hardware_concurrency_def
        k_default_number_of_cores_def k_cpu_threadpool_worker_count_factor_def k_background_threadpool_worker_count_factor_def)
qed

section \<open>Executors of any kind\<close>

datatype any_executor =
    Any_inline "unit inline_executor" | Any_manual manual_executor | Any_worker wt_sys | Any_thread tx_sys | Any_pool thread_pool

text \<open>Whether an executor refuses tasks, and its name.\<close>

fun any_abort :: "any_executor \<Rightarrow> bool" where
  "any_abort (Any_inline s) = ie_abort s"
| "any_abort (Any_manual s) = me_abort s"
| "any_abort (Any_worker s) = wt_abort s"
| "any_abort (Any_thread s) = tx_abort s"
| "any_abort (Any_pool p) = list_all tw_abort (tp_workers p)"

fun any_name :: "any_executor \<Rightarrow> string" where
  "any_name (Any_inline s) = k_inline_executor_name"
| "any_name (Any_manual s) = k_manual_executor_name"
| "any_name (Any_worker s) = k_worker_thread_executor_name"
| "any_name (Any_thread s) = ''concurrencpp::thread_executor''"
| "any_name (Any_pool p) = tp_name p"

text \<open>Enqueuing a task from a thread outside of the executor.\<close>

fun any_enqueue :: "nat \<Rightarrow> nat \<Rightarrow> any_executor \<Rightarrow> any_executor outcome" where
  "any_enqueue h t (Any_inline s) =
     (case inline_enqueue (\<lambda>e. (None, e)) s of (Some x, s') \<Rightarrow> Inl x | (None, s') \<Rightarrow> Inr (Any_inline s'))"
| "any_enqueue h t (Any_manual s) = bind_outcome (manual_enqueue t s) (\<lambda>s'. Inr (Any_manual s'))"
| "any_enqueue h t (Any_worker s) = bind_outcome (wt_enqueue False [t] s) (\<lambda>s'. Inr (Any_worker s'))"
| "any_enqueue h t (Any_thread s) = bind_outcome (tx_enqueue t s) (\<lambda>s'. Inr (Any_thread s'))"
| "any_enqueue h t (Any_pool p) = bind_outcome (pool_enqueue (\<lambda>_. p) 0 (outside_thread h) t) (\<lambda>ps. Inr (Any_pool (ps 0)))"

text \<open>The invariants of the executors.\<close>

fun any_ok :: "any_executor \<Rightarrow> bool" where
  "any_ok (Any_inline s) \<longleftrightarrow> True"
| "any_ok (Any_manual s) \<longleftrightarrow> manual_inv s"
| "any_ok (Any_worker s) \<longleftrightarrow> wt_inv s"
| "any_ok (Any_thread s) \<longleftrightarrow> (\<exists>m. tx_inv s m)"
| "any_ok (Any_pool p) \<longleftrightarrow>
     tp_workers p \<noteq> [] \<and> idle_inv (tp_idle_set p) \<and> length (m_idle_flags (tp_idle_set p)) = length (tp_workers p) \<and>
     (tp_abort p \<longrightarrow> list_all tw_abort (tp_workers p))"

lemma any_enqueue_refused:
  assumes "any_ok e" "any_abort e"
  shows "any_enqueue h t e = Inl (Runtime_shutdown (any_name e @ k_executor_shutdown_err_msg))"
proof (cases e)
  case (Any_pool p)
  obtain k idle where f: "find_idle_worker h None (tp_idle_set p) = (k, idle)" by fastforce
  have ok: "tp_workers p \<noteq> []" "idle_inv (tp_idle_set p)" "length (m_idle_flags (tp_idle_set p)) = length (tp_workers p)"
    and ab: "\<forall>w \<in> set (tp_workers p). tw_abort w"
    using assms Any_pool by (simp_all add: list_all_iff)
  have k: "i < length (tp_workers p)" if "k = Some i" for i
    using find_idle_worker_correct [OF ok(2) f] ok(3) that by simp
  have "tp_cursor p mod length (tp_workers p) < length (tp_workers p)" using ok(1) by simp
  with f k ab Any_pool show ?thesis
    by (auto simp: pool_enqueue_def outside_thread_def Let_def round_robin_def worker_update_def enqueue_foreign_def
        throw_runtime_shutdown_exception_def split: option.splits)
qed (use assms in \<open>simp_all add: inline_enqueue_def manual_enqueue_def wt_enqueue_def wt_enqueue_foreign_def tx_enqueue_def
      throw_runtime_shutdown_exception_def\<close>)

text \<open>What tells how far the shutdown of an executor has come.  Between the steps of a shutdown an executor may do anything that leaves this part
  and its invariant alone.\<close>

datatype control =
    Ctl_inline bool | Ctl_manual bool | Ctl_worker bool halt_pc | Ctl_thread bool closing | Ctl_pool string bool "bool list"

fun any_control :: "any_executor \<Rightarrow> control" where
  "any_control (Any_inline s) = Ctl_inline (ie_abort s)"
| "any_control (Any_manual s) = Ctl_manual (me_abort s)"
| "any_control (Any_worker s) = Ctl_worker (wt_abort s) (wt_halt s)"
| "any_control (Any_thread s) = Ctl_thread (tx_abort s) (tx_closing s)"
| "any_control (Any_pool p) = Ctl_pool (tp_name p) (tp_abort p) (map tw_abort (tp_workers p))"

definition evolves :: "any_executor \<Rightarrow> any_executor \<Rightarrow> bool" where
  "evolves e e' \<longleftrightarrow> any_control e' = any_control e \<and> any_ok e'"

fun control_abort :: "control \<Rightarrow> bool" where
  "control_abort (Ctl_inline b) = b" | "control_abort (Ctl_manual b) = b" | "control_abort (Ctl_worker b h) = b"
| "control_abort (Ctl_thread b c) = b" | "control_abort (Ctl_pool name b flags) = list_all id flags"

lemma any_abort_control: "any_abort e = control_abort (any_control e)"
  by (cases e) (simp_all add: list_all_iff)

lemma evolves_abort: "evolves e e' \<Longrightarrow> any_abort e' = any_abort e"
  by (simp add: evolves_def any_abort_control)

text \<open>The steps of the executors' models are such changes.\<close>

lemma worker_evolves: "wt_inv s \<Longrightarrow> ev \<noteq> Halt \<Longrightarrow> wt_exec ev s = Some t \<Longrightarrow> evolves (Any_worker s) (Any_worker t)"
  using wt_exec_inv [of s ev t]
  by (cases ev) (auto simp: evolves_def wt_enqueue_foreign_def wt_enqueue_local_def wt_turn_def wt_take_def Let_def
      split: if_splits thread_pc.splits list.splits)

lemma thread_evolves: "tx_inv s m \<Longrightarrow> ev \<noteq> Tx_shutdown \<Longrightarrow> tx_exec ev s = Some (Inr t) \<Longrightarrow> evolves (Any_thread s) (Any_thread t)"
  using tx_exec_safe [of s m ev "Inr t"]
  by (cases ev) (auto simp: evolves_def tx_safe_def tx_enqueue_def tx_enqueue_impl_def retire_worker_def join_retired_def
      split: if_splits thread_state.splits list.splits option.splits)

lemma manual_evolves:
  "manual_inv s \<Longrightarrow> manual_enqueue_span ts s = Inr t \<Longrightarrow> evolves (Any_manual s) (Any_manual t)"
  "manual_inv s \<Longrightarrow> manual_enqueue x s = Inr t \<Longrightarrow> evolves (Any_manual s) (Any_manual t)"
  by (auto simp: evolves_def manual_inv_def manual_enqueue_def manual_enqueue_span_def throw_runtime_shutdown_exception_def split: if_splits)

lemma enqueue_foreign_abort: "enqueue_foreign name ts w = Inr v \<Longrightarrow> tw_abort v = tw_abort w"
  by (auto simp: enqueue_foreign_def ensure_worker_active_def throw_runtime_shutdown_exception_def Let_def split: if_splits)

lemma worker_update_evolves:
  assumes "any_ok (Any_pool p)" "i < length (tp_workers p)" "worker_update q i (enqueue_foreign name ts) = Inr r"
    and "tp_workers q = tp_workers p" "tp_name q = tp_name p" "tp_abort q = tp_abort p" "idle_inv (tp_idle_set q)"
    and "length (m_idle_flags (tp_idle_set q)) = length (tp_workers p)"
  shows "evolves (Any_pool p) (Any_pool r)"
proof -
  obtain w where w: "enqueue_foreign name ts (tp_workers p ! i) = Inr w" "r = q\<lparr>tp_workers := (tp_workers p)[i := w]\<rparr>"
    using assms(3,4) by (auto simp: worker_update_def bind_outcome_Inr_iff)
  have "map tw_abort ((tp_workers p)[i := w]) = map tw_abort (tp_workers p)"
    using enqueue_foreign_abort [OF w(1)] assms(2) by (simp add: map_update list_update_same_conv)
  then have "any_control (Any_pool r) = any_control (Any_pool p)" using w(2) assms(5,6) by simp
  moreover from this have "list_all tw_abort (tp_workers r) = list_all tw_abort (tp_workers p)"
    using any_abort_control [of "Any_pool r"] any_abort_control [of "Any_pool p"] by simp
  then have "any_ok (Any_pool r)" using assms w(2) by simp
  ultimately show ?thesis by (simp add: evolves_def)
qed

lemma pool_evolves:
  assumes "any_ok (Any_pool p)" "any_enqueue h t (Any_pool p) = Inr e"
  shows "evolves (Any_pool p) e"
proof -
  obtain k idle where f: "find_idle_worker h None (tp_idle_set p) = (k, idle)" by fastforce
  have ok: "idle_inv idle" "length (m_idle_flags idle) = length (tp_workers p)"
    using find_idle_worker_correct [OF _ f] assms(1) by (auto split: option.splits)
  let ?c = "tp_cursor p mod length (tp_workers p)"
  have c: "?c < length (tp_workers p)" using assms(1) by simp
  have k: "i < length (tp_workers p)" if "k = Some i" for i
    using find_idle_worker_correct [OF _ f] assms(1) that by simp
  obtain q i r where "worker_update q i (enqueue_foreign (tp_name p) [t]) = Inr r" "e = Any_pool r" "i < length (tp_workers p)"
      "tp_workers q = tp_workers p" "tp_name q = tp_name p" "tp_abort q = tp_abort p" "tp_idle_set q = idle"
    using assms(2) f c k
    by (cases k) (auto simp: pool_enqueue_def outside_thread_def Let_def round_robin_def bind_outcome_Inr_iff)
  with worker_update_evolves [OF assms(1)] ok show ?thesis by auto
qed

text \<open>One step of \<^verbatim>\<open>shutdown\<close> of an executor; \<open>joined\<close> is what the threads of a pool do before they are joined.\<close>

fun any_halt :: "(pool_worker \<Rightarrow> pool_worker) \<Rightarrow> any_executor \<Rightarrow> any_executor outcome option" where
  "any_halt joined (Any_inline s) = Some (Inr (Any_inline (inline_shutdown s)))"
| "any_halt joined (Any_manual s) = Some (Inr (Any_manual (manual_shutdown s)))"
| "any_halt joined (Any_worker s) = map_option (\<lambda>t. Inr (Any_worker t)) (wt_halt_step s)"
| "any_halt joined (Any_thread s) = map_option (\<lambda>r. bind_outcome r (\<lambda>t. Inr (Any_thread t))) (tx_shutdown_step s)"
| "any_halt joined (Any_pool p) = Some (bind_outcome (pool_shutdown joined p) (\<lambda>q. Inr (Any_pool q)))"

text \<open>\<^verbatim>\<open>shutdown\<close> has returned.\<close>

fun any_halted :: "any_executor \<Rightarrow> bool" where
  "any_halted (Any_inline s) = ie_abort s"
| "any_halted (Any_manual s) = me_abort s"
| "any_halted (Any_worker s) = (wt_halt s = H_end)"
| "any_halted (Any_thread s) = (tx_closing s = C_closed)"
| "any_halted (Any_pool p) = tp_abort p"

lemma any_halted_abort: "any_ok e \<Longrightarrow> any_halted e \<Longrightarrow> any_abort e"
  by (cases e) (auto simp: wt_inv_def tx_inv_def Let_def)

lemma shutdown_workers_abort:
  "joins joined \<Longrightarrow> shutdown_workers joined ws = Inr vs \<Longrightarrow> length vs = length ws \<and> list_all tw_abort vs"
proof (induction ws arbitrary: vs)
  case (Cons w ws)
  then show ?case
    by (auto simp: bind_outcome_Inr_iff worker_shutdown_def worker_shutdown_begin_def worker_shutdown_end_def joins_def split: if_splits)
qed simp

lemma any_halt_ok:
  assumes "any_ok e" "joins joined" "any_halt joined e = Some (Inr e')"
  shows "any_ok e' \<and> (any_abort e \<longrightarrow> any_abort e')"
proof (cases e)
  case (Any_manual s)
  with assms show ?thesis by (auto simp: manual_inv_def manual_shutdown_def)
next
  case (Any_worker s)
  with assms obtain t where t: "wt_halt_step s = Some t" "e' = Any_worker t" by auto
  then have "wt_abort s \<Longrightarrow> wt_abort t" by (auto simp: wt_halt_step_def split: halt_pc.splits if_splits)
  with t wt_halt_inv [OF _ t(1)] assms(1) Any_worker show ?thesis by simp
next
  case (Any_thread s)
  with assms obtain t where t: "tx_shutdown_step s = Some (Inr t)" "e' = Any_thread t" by (auto simp: bind_outcome_Inr_iff)
  then have "tx_abort s \<Longrightarrow> tx_abort t" by (auto simp: tx_shutdown_step_def split: closing.splits if_splits list.splits)
  with t tx_inv_shutdown [OF _ t(1)] assms(1) Any_thread show ?thesis by (auto simp: tx_safe_def)
next
  case (Any_pool p)
  show ?thesis
  proof (cases "tp_abort p")
    case False
    with assms(3) Any_pool obtain ws where "shutdown_workers joined (tp_workers p) = Inr ws" "e' = Any_pool (p\<lparr>tp_abort := True, tp_workers := ws\<rparr>)"
      by (auto simp: pool_shutdown_def bind_outcome_Inr_iff)
    with shutdown_workers_abort [OF assms(2)] assms(1) Any_pool show ?thesis by fastforce
  qed (use assms Any_pool in \<open>auto simp: pool_shutdown_def\<close>)
qed (use assms in \<open>auto simp: inline_shutdown_def\<close>)

section \<open>The runtime\<close>

text \<open>Where the destructor is: not called, in the shutdown of the timer queue, in the loop over the executors with those that are left, before
  the stop of the I/O pool, before the join of its thread, at the end.\<close>

datatype teardown = TD_alive | TD_timers | TD_executors "addr list" | TD_io | TD_join | TD_done

record runtime =
  rt_timers :: tq_sys
  rt_store :: "addr \<Rightarrow> any_executor option"
  rt_registered :: "addr list"
  rt_io :: io_pool
  rt_runner :: bool                 \<comment> \<open>\<^verbatim>\<open>m_net_io_pool_runner\<close> is joinable\<close>
  rt_phase :: teardown

text \<open>\<^verbatim>\<open>executor_collection::register_executor\<close>; the store gets the new executor.\<close>

definition register_executor :: "addr \<Rightarrow> any_executor \<Rightarrow> runtime \<Rightarrow> runtime outcome" where
  "register_executor a e rt =
     bind_outcome (assert_that (a \<notin> set (rt_registered rt)) ''std::find(...) == m_executors.end()'')
       (\<lambda>_. Inr (rt\<lparr>rt_registered := rt_registered rt @ [a], rt_store := (rt_store rt)(a \<mapsto> e)\<rparr>))"

definition a_inline :: addr where "a_inline = 0"
definition a_pool :: addr where "a_pool = 1"
definition a_background :: addr where "a_background = 2"
definition a_thread :: addr where "a_thread = 3"

definition runtime_new :: "runtime_options \<Rightarrow> timer_mem \<Rightarrow> runtime outcome" where
  "runtime_new options mem =
     (let rt = \<lparr>rt_timers = tq_init mem, rt_store = (\<lambda>_. None), rt_registered = [], rt_io = io_pool_new (ro_net_io_pool_threads options),
                rt_runner = True, rt_phase = TD_alive\<rparr> in
      bind_outcome (register_executor a_inline (Any_inline \<lparr>ie_abort = False, ie_env = ()\<rparr>) rt) (\<lambda>rt.
      bind_outcome (register_executor a_pool (Any_pool (thread_pool_new k_thread_pool_executor_name (ro_max_cpu_threads options))) rt) (\<lambda>rt.
      bind_outcome (register_executor a_background (Any_pool (thread_pool_new k_background_executor_name (ro_max_background_threads options))) rt)
        (register_executor a_thread (Any_thread tx_init)))))"

definition make_worker_thread_executor :: "addr \<Rightarrow> runtime \<Rightarrow> runtime outcome" where
  "make_worker_thread_executor a = register_executor a (Any_worker wt_init)"

definition make_manual_executor :: "addr \<Rightarrow> runtime \<Rightarrow> runtime outcome" where
  "make_manual_executor a = register_executor a (Any_manual manual_executor_new)"

text \<open>What posting to an executor of the runtime throws.\<close>

definition rt_refuses :: "runtime \<Rightarrow> addr \<Rightarrow> exn option" where
  "rt_refuses rt a =
     (case rt_store rt a of
        Some e \<Rightarrow> if any_abort e then Some (Runtime_shutdown (any_name e @ k_executor_shutdown_err_msg)) else None
      | None \<Rightarrow> None)"

text \<open>The destructor, from one blocking call to the next.\<close>

definition destructor_step :: "(pool_worker \<Rightarrow> pool_worker) \<Rightarrow> runtime \<Rightarrow> runtime outcome option" where
  "destructor_step joined rt =
     (case rt_phase rt of
        TD_alive \<Rightarrow> Some (Inr (rt\<lparr>rt_phase := TD_timers\<rparr>))
      | TD_timers \<Rightarrow>
          (if tq_stop (rt_timers rt) = Q_stopped then Some (Inr (rt\<lparr>rt_phase := TD_executors (rt_registered rt)\<rparr>))
           else map_option (\<lambda>s. Inr (rt\<lparr>rt_timers := s\<rparr>)) (tq_shutdown_step (rt_timers rt)))
      | TD_executors [] \<Rightarrow> Some (Inr (rt\<lparr>rt_registered := [], rt_phase := TD_io\<rparr>))
      | TD_executors (a # as) \<Rightarrow>
          (case rt_store rt a of
             None \<Rightarrow> Some (Inl (Assertion_failed ''static_cast<bool>(executor)''))
           | Some e \<Rightarrow>
               if any_halted e then Some (Inr (rt\<lparr>rt_phase := TD_executors as\<rparr>))
               else map_option (\<lambda>r. bind_outcome r (\<lambda>e'. Inr (rt\<lparr>rt_store := (rt_store rt)(a \<mapsto> e')\<rparr>))) (any_halt joined e))
      | TD_io \<Rightarrow> Some (Inr (rt\<lparr>rt_io := io_pool_stop (rt_io rt), rt_phase := TD_join\<rparr>))
      | TD_join \<Rightarrow> Some (Inr (rt\<lparr>rt_runner := False, rt_phase := TD_done\<rparr>))
      | TD_done \<Rightarrow> None)"

text \<open>The events: a call that makes an executor while the runtime is alive, a step of the timer queue, a change of an executor, a step of
  the destructor.  The timer queue posts to the executors of the runtime, and it is shut down by the destructor only.\<close>

datatype rt_event =
    RT_worker addr | RT_manual addr | RT_timers tq_event | RT_evolve addr any_executor | RT_destroy "pool_worker \<Rightarrow> pool_worker"

fun timers_event :: "runtime \<Rightarrow> tq_event \<Rightarrow> bool" where
  "timers_event rt (E_process fuel refuses clock env n) \<longleftrightarrow> timer_env env \<and> refuses = rt_refuses rt"
| "timers_event rt E_shutdown \<longleftrightarrow> False"
| "timers_event rt _ \<longleftrightarrow> True"

fun rt_enabled :: "rt_event \<Rightarrow> runtime \<Rightarrow> bool" where
  "rt_enabled (RT_worker a) rt \<longleftrightarrow> rt_phase rt = TD_alive \<and> rt_store rt a = None"
| "rt_enabled (RT_manual a) rt \<longleftrightarrow> rt_phase rt = TD_alive \<and> rt_store rt a = None"
| "rt_enabled (RT_timers ev) rt \<longleftrightarrow> timers_event rt ev"
| "rt_enabled (RT_evolve a e) rt \<longleftrightarrow> (\<exists>d. rt_store rt a = Some d \<and> evolves d e)"
| "rt_enabled (RT_destroy joined) rt \<longleftrightarrow> joins joined"

fun rt_exec :: "rt_event \<Rightarrow> runtime \<Rightarrow> runtime outcome option" where
  "rt_exec (RT_worker a) rt = Some (make_worker_thread_executor a rt)"
| "rt_exec (RT_manual a) rt = Some (make_manual_executor a rt)"
| "rt_exec (RT_timers ev) rt = map_option (\<lambda>r. bind_outcome r (\<lambda>s. Inr (rt\<lparr>rt_timers := s\<rparr>))) (tq_exec ev (rt_timers rt))"
| "rt_exec (RT_evolve a e) rt = Some (Inr (rt\<lparr>rt_store := (rt_store rt)(a \<mapsto> e)\<rparr>))"
| "rt_exec (RT_destroy joined) rt = destructor_step joined rt"

inductive rt_reachable :: "runtime_options \<Rightarrow> runtime \<Rightarrow> bool" for options where
  rt_start: "runtime_new options mem = Inr rt \<Longrightarrow> rt_reachable options rt"
| rt_step: "rt_reachable options rt \<Longrightarrow> rt_enabled ev rt \<Longrightarrow> rt_exec ev rt = Some (Inr rt') \<Longrightarrow> rt_reachable options rt'"

section \<open>The invariant\<close>

text \<open>The executors whose shutdown is still to come.\<close>

fun still_open :: "teardown \<Rightarrow> addr \<Rightarrow> bool" where
  "still_open TD_alive a \<longleftrightarrow> True" | "still_open TD_timers a \<longleftrightarrow> True" | "still_open (TD_executors as) a \<longleftrightarrow> a \<in> set as"
| "still_open TD_io a \<longleftrightarrow> False" | "still_open TD_join a \<longleftrightarrow> False" | "still_open TD_done a \<longleftrightarrow> False"

definition early :: "teardown \<Rightarrow> bool" where
  "early ph \<longleftrightarrow> ph = TD_alive \<or> ph = TD_timers"

definition late :: "teardown \<Rightarrow> bool" where
  "late ph \<longleftrightarrow> ph = TD_join \<or> ph = TD_done"

definition executors_inv :: "runtime \<Rightarrow> bool" where
  "executors_inv rt \<longleftrightarrow>
     (\<forall>a e. rt_store rt a = Some e \<longrightarrow> any_ok e \<and> (early (rt_phase rt) \<longrightarrow> \<not> any_abort e) \<and> (\<not> still_open (rt_phase rt) a \<longrightarrow> any_abort e))"

definition registry_inv :: "runtime \<Rightarrow> bool" where
  "registry_inv rt \<longleftrightarrow>
     (early (rt_phase rt) \<longrightarrow> set (rt_registered rt) = dom (rt_store rt)) \<and>
     (\<forall>as. rt_phase rt = TD_executors as \<longrightarrow> set as \<subseteq> dom (rt_store rt)) \<and>
     (\<not> early (rt_phase rt) \<longrightarrow> tq_stop (rt_timers rt) = Q_stopped) \<and>
     (rt_phase rt \<in> {TD_io, TD_join, TD_done} \<longrightarrow> rt_registered rt = []) \<and>
     (late (rt_phase rt) \<longrightarrow> list_all id (ip_stopped (rt_io rt)) \<and> ip_work (rt_io rt) = 0) \<and>
     (rt_phase rt = TD_done \<longrightarrow> \<not> rt_runner rt)"

definition rt_inv :: "runtime \<Rightarrow> bool" where
  "rt_inv rt \<longleftrightarrow> tq_reachable (rt_timers rt) \<and> executors_inv rt \<and> registry_inv rt"

lemma tx_init_ok: "any_ok (Any_thread tx_init)" "\<not> any_abort (Any_thread tx_init)"
  using tx_inv_init by (auto simp: tx_init_def)

lemma fold_set_idle:
  "idle_inv s \<Longrightarrow> set is \<subseteq> {..<length (m_idle_flags s)} \<Longrightarrow>
   idle_inv (fold set_idle is s) \<and> length (m_idle_flags (fold set_idle is s)) = length (m_idle_flags s)"
proof (induction "is" arbitrary: s)
  case (Cons i "is")
  have "length (m_idle_flags (set_idle i s)) = length (m_idle_flags s)" by (simp add: set_idle_def Let_def)
  with Cons.IH [of "set_idle i s"] Cons.prems set_idle_inv [of s i] show ?case by simp
qed simp

lemma new_pool_ok:
  assumes "0 < n"
  shows "any_ok (Any_pool (thread_pool_new name n))" "\<not> any_abort (Any_pool (thread_pool_new name n))"
proof -
  have "set [0..<n] \<subseteq> {..<length (m_idle_flags (idle_worker_set_init n))}" by (auto simp: idle_worker_set_init_def)
  from fold_set_idle [OF idle_inv_init this] assms show "any_ok (Any_pool (thread_pool_new name n))"
    by (simp add: thread_pool_new_def idle_worker_set_init_def)
  show "\<not> any_abort (Any_pool (thread_pool_new name n))"
    using assms by (simp add: thread_pool_new_def list_all_iff pool_worker_init_def)
qed

lemmas address_defs = a_inline_def a_pool_def a_background_def a_thread_def

lemma rt_inv_init:
  assumes "0 < ro_max_cpu_threads options" "0 < ro_max_background_threads options" "runtime_new options mem = Inr rt"
  shows "rt_inv rt"
proof -
  have rt: "rt_timers rt = tq_init mem" "rt_phase rt = TD_alive" "rt_registered rt = [0, 1, 2, 3]"
      "rt_store rt = [0 \<mapsto> Any_inline \<lparr>ie_abort = False, ie_env = ()\<rparr>,
         1 \<mapsto> Any_pool (thread_pool_new k_thread_pool_executor_name (ro_max_cpu_threads options)),
         2 \<mapsto> Any_pool (thread_pool_new k_background_executor_name (ro_max_background_threads options)), 3 \<mapsto> Any_thread tx_init]"
    using assms(3) by (auto simp: runtime_new_def register_executor_def address_defs)
  have "any_ok e \<and> \<not> any_abort e" if "rt_store rt a = Some e" for a e
    using that new_pool_ok [OF assms(1)] new_pool_ok [OF assms(2)] tx_init_ok
    unfolding rt(4) by (auto simp del: any_ok.simps(4,5) any_abort.simps(4,5) split: if_splits)
  then have "executors_inv rt" by (simp add: executors_inv_def rt(2))
  moreover have "registry_inv rt" by (auto simp: registry_inv_def rt early_def late_def)
  ultimately show ?thesis by (simp add: rt_inv_def rt(1) tq_start)
qed

text \<open>Only the shutdown of the timer queue moves its stop state.\<close>

lemma tq_exec_stop:
  assumes "ev \<noteq> E_shutdown" "tq_exec ev s = Some (Inr t)"
  shows "tq_stop t = tq_stop s"
proof (cases ev)
  case (E_make now due frequency ex oneshot callable p)
  with assms(2) show ?thesis
    by (auto simp: make_timer_impl_def add_timer_def ensure_worker_thread_def add_internal_timer_def bind_outcome_Inr_iff Let_def
        split: if_splits sum.splits)
next
  case (E_wait b n)
  with assms(2) show ?thesis
    by (auto simp: work_wait_def bind_outcome_Inr_iff Let_def split: tq_pc.splits if_splits)
next
  case (E_process fuel refuses clock env n)
  with assms(2) obtain r :: "(timer_ptr list \<times> int \<times> timer_mem \<times> timer_queue_internal) outcome" where "(case r of Inl e \<Rightarrow> Inl (Terminated e)
      | Inr (ps, nx, mem', i') \<Rightarrow> Inr (s\<lparr>tq_mem := mem', tq_posted := tq_posted s @ ps, tq_pc := (tq_pc s)(n := W_lock i')\<rparr>)) = Inr t"
    by (auto simp: work_process_def split: tq_pc.splits)
  then show ?thesis by (cases r) auto
qed (use assms in \<open>auto simp: remove_internal_timer_def split: if_splits\<close>)

text \<open>A stopped timer queue has no thread in its loop.\<close>

lemma stopped_no_loop: "tq_reachable s \<Longrightarrow> tq_stop s = Q_stopped \<Longrightarrow> \<not> in_loop (tq_pc s n) \<and> tq_abort s"
  using tq_reachable_inv [of s] by (auto simp: tq_inv_def threads_inv_def stop_inv_def)

lemma rt_inv_make:
  assumes "rt_inv rt" "rt_phase rt = TD_alive" "rt_store rt a = None" "any_ok e" "\<not> any_abort e"
  shows "\<exists>rt'. register_executor a e rt = Inr rt' \<and> rt_inv rt'"
proof -
  have "set (rt_registered rt) = dom (rt_store rt)" using assms(1,2) by (simp add: rt_inv_def registry_inv_def early_def)
  then have a: "a \<notin> set (rt_registered rt)" using assms(3) by auto
  let ?t = "rt\<lparr>rt_registered := rt_registered rt @ [a], rt_store := (rt_store rt)(a \<mapsto> e)\<rparr>"
  have "executors_inv ?t" using assms by (simp add: rt_inv_def executors_inv_def)
  moreover have "registry_inv ?t" using assms(1,2) by (auto simp: rt_inv_def registry_inv_def early_def)
  ultimately have "rt_inv ?t" using assms(1) by (simp add: rt_inv_def)
  with a show ?thesis by (simp add: register_executor_def)
qed

lemma rt_inv_timers:
  assumes "rt_inv rt" "timers_event rt ev" "tq_exec ev (rt_timers rt) = Some (Inr s)"
  shows "rt_inv (rt\<lparr>rt_timers := s\<rparr>)"
proof -
  have ev: "tq_event_ok ev" "ev \<noteq> E_shutdown" using assms(2) by (cases ev; simp)+
  have "tq_reachable s" using assms(1,3) ev(1) by (auto simp: rt_inv_def intro: tq_step)
  moreover have "tq_stop s = tq_stop (rt_timers rt)" by (rule tq_exec_stop [OF ev(2) assms(3)])
  ultimately show ?thesis using assms(1) by (simp add: rt_inv_def executors_inv_def registry_inv_def)
qed

lemma rt_inv_store:
  assumes "rt_inv rt" "rt_store rt a = Some d" "any_ok e" "any_abort d \<longrightarrow> any_abort e" "early (rt_phase rt) \<longrightarrow> \<not> any_abort e"
  shows "rt_inv (rt\<lparr>rt_store := (rt_store rt)(a \<mapsto> e)\<rparr>)"
proof -
  have "executors_inv (rt\<lparr>rt_store := (rt_store rt)(a \<mapsto> e)\<rparr>)" using assms by (auto simp: rt_inv_def executors_inv_def)
  moreover have "dom ((rt_store rt)(a \<mapsto> e)) = dom (rt_store rt)" using assms(2) by auto
  then have "registry_inv (rt\<lparr>rt_store := (rt_store rt)(a \<mapsto> e)\<rparr>)" using assms(1) by (simp add: rt_inv_def registry_inv_def)
  ultimately show ?thesis using assms(1) by (simp add: rt_inv_def)
qed

lemma rt_inv_evolve:
  assumes "rt_inv rt" "rt_store rt a = Some d" "evolves d e"
  shows "rt_inv (rt\<lparr>rt_store := (rt_store rt)(a \<mapsto> e)\<rparr>)"
  by (rule rt_inv_store [OF assms(1,2)])
    (use assms evolves_abort [OF assms(3)] in \<open>auto simp: evolves_def rt_inv_def executors_inv_def\<close>)

lemma executors_phase_inv:
  assumes "rt_inv rt" "joins joined" "destructor_step joined rt = Some (Inr rt')" and TD_executors: "rt_phase rt = TD_executors bs"
  shows "rt_inv rt'"
proof (cases bs)
  case Nil
  with assms(1,3) TD_executors show ?thesis
    by (auto simp: destructor_step_def rt_inv_def executors_inv_def registry_inv_def early_def late_def)
next
  case (Cons a as)
  have "set bs \<subseteq> dom (rt_store rt)" using assms(1) TD_executors by (auto simp: rt_inv_def registry_inv_def)
  then obtain e where e: "rt_store rt a = Some e" using Cons by auto
  then have ok: "any_ok e" using assms(1) by (simp add: rt_inv_def executors_inv_def)
  show ?thesis
  proof (cases "any_halted e")
    case True
    with assms(3) TD_executors Cons e have t: "rt' = rt\<lparr>rt_phase := TD_executors as\<rparr>" by (simp add: destructor_step_def)
    have "any_abort g" if "rt_store rt b = Some g" "b \<notin> set as" for b g
    proof (cases "b = a")
      case True
      with that(1) e any_halted_abort [OF ok \<open>any_halted e\<close>] show ?thesis by simp
    qed (use assms(1) TD_executors Cons that in \<open>auto simp: rt_inv_def executors_inv_def\<close>)
    then have "executors_inv rt'"
      using assms(1) unfolding t by (simp add: rt_inv_def executors_inv_def early_def)
    with assms(1) TD_executors Cons show ?thesis unfolding t
      by (auto simp: rt_inv_def registry_inv_def early_def late_def)
  next
    case False
    with assms(3) TD_executors Cons e obtain e' where
      "any_halt joined e = Some (Inr e')" "rt' = rt\<lparr>rt_store := (rt_store rt)(a \<mapsto> e')\<rparr>"
      by (auto simp: destructor_step_def bind_outcome_Inr_iff)
    with any_halt_ok [OF ok assms(2)] rt_inv_store [OF assms(1) e, of e'] TD_executors show ?thesis by (simp add: early_def)
  qed
qed

lemma destructor_inv:
  assumes "rt_inv rt" "joins joined" "destructor_step joined rt = Some (Inr rt')"
  shows "rt_inv rt'"
proof (cases "rt_phase rt")
  case TD_alive
  with assms(1,3) show ?thesis
    by (auto simp: destructor_step_def rt_inv_def executors_inv_def registry_inv_def early_def late_def)
next
  case TD_timers
  show ?thesis
  proof (cases "tq_stop (rt_timers rt) = Q_stopped")
    case True
    with assms(3) TD_timers have t: "rt' = rt\<lparr>rt_phase := TD_executors (rt_registered rt)\<rparr>" by (simp add: destructor_step_def)
    have "set (rt_registered rt) = dom (rt_store rt)" using assms(1) TD_timers by (simp add: rt_inv_def registry_inv_def early_def)
    with assms(1) True show ?thesis unfolding t by (auto simp: rt_inv_def executors_inv_def registry_inv_def early_def late_def)
  next
    case False
    with assms(3) TD_timers obtain s where s: "tq_exec E_shutdown (rt_timers rt) = Some (Inr s)" "rt' = rt\<lparr>rt_timers := s\<rparr>"
      by (auto simp: destructor_step_def)
    have "tq_reachable s" using assms(1) s(1) tq_step [of "rt_timers rt" E_shutdown s] by (simp add: rt_inv_def)
    with assms(1) TD_timers s(2) show ?thesis
      by (simp add: rt_inv_def executors_inv_def registry_inv_def early_def late_def)
  qed
next
  case (TD_executors bs)
  with executors_phase_inv [OF assms] show ?thesis by blast
next
  case TD_io
  with assms(1,3) show ?thesis
    by (auto simp: destructor_step_def rt_inv_def executors_inv_def registry_inv_def early_def late_def io_pool_stop_def list_all_iff)
next
  case TD_join
  with assms(1,3) show ?thesis
    by (auto simp: destructor_step_def rt_inv_def executors_inv_def registry_inv_def early_def late_def)
next
  case TD_done
  with assms(3) show ?thesis by (simp add: destructor_step_def)
qed

lemma rt_exec_inv:
  assumes "rt_inv rt" "rt_enabled ev rt" "rt_exec ev rt = Some (Inr rt')"
  shows "rt_inv rt'"
proof (cases ev)
  case (RT_worker a)
  have "any_ok (Any_worker wt_init)" "\<not> any_abort (Any_worker wt_init)" by (simp_all add: wt_inv_def wt_init_def)
  with assms(2) RT_worker have "\<exists>r. register_executor a (Any_worker wt_init) rt = Inr r \<and> rt_inv r"
    by (intro rt_inv_make [OF assms(1)]) (simp_all del: any_ok.simps any_abort.simps)
  with assms(3) RT_worker show ?thesis by (auto simp: make_worker_thread_executor_def)
next
  case (RT_manual a)
  have "any_ok (Any_manual manual_executor_new)" "\<not> any_abort (Any_manual manual_executor_new)"
    by (simp_all add: manual_inv_def manual_executor_new_def)
  with assms(2) RT_manual have "\<exists>r. register_executor a (Any_manual manual_executor_new) rt = Inr r \<and> rt_inv r"
    by (intro rt_inv_make [OF assms(1)]) (simp_all del: any_ok.simps any_abort.simps)
  with assms(3) RT_manual show ?thesis by (auto simp: make_manual_executor_def)
next
  case (RT_timers e)
  with assms rt_inv_timers [OF assms(1), of e] show ?thesis by (auto simp: bind_outcome_Inr_iff)
next
  case (RT_evolve a e)
  with assms rt_inv_evolve [OF assms(1)] show ?thesis by auto
next
  case (RT_destroy joined)
  with assms destructor_inv [OF assms(1)] show ?thesis by simp
qed

lemma rt_reachable_inv:
  assumes "rt_reachable options rt" "0 < ro_max_cpu_threads options" "0 < ro_max_background_threads options"
  shows "rt_inv rt"
  using assms(1)
proof (induction rule: rt_reachable.induct)
  case (rt_start mem rt)
  then show ?case using rt_inv_init [OF assms(2,3)] by blast
next
  case (rt_step rt ev rt')
  then show ?case using rt_exec_inv by blast
qed

section \<open>The order of the teardown\<close>

text \<open>C40: the runtime stops its parts in an order that is safe.  Under every interleaving of the destructor with the timers, the
  executors and their threads: as long as the thread of the timer queue is in its loop no executor of the runtime refuses a task, so no timer
  is ever posted to an executor that has been shut down (which would terminate the program); and when the destructor has returned, every executor
  of the runtime, also those made later, refuses tasks with \<^verbatim>\<open>errors::runtime_shutdown\<close>, the timer queue refuses timers, the I/O
  contexts are stopped and their thread is joined.\<close>

theorem runtime_teardown_order:
  assumes "rt_reachable options rt" "0 < ro_max_cpu_threads options" "0 < ro_max_background_threads options"
  shows "(in_loop (tq_pc (rt_timers rt) n) \<longrightarrow> rt_refuses rt = (\<lambda>_. None)) \<and>
    (rt_phase rt = TD_done \<longrightarrow>
      rt_registered rt = [] \<and>
      (\<forall>a e. rt_store rt a = Some e \<longrightarrow> any_enqueue h t e = Inl (Runtime_shutdown (any_name e @ k_executor_shutdown_err_msg))) \<and>
      add_timer p (rt_timers rt) = Inl (Runtime_shutdown k_timer_queue_shutdown_err_msg) \<and>
      list_all id (ip_stopped (rt_io rt)) \<and> \<not> rt_runner rt)"
proof -
  have inv: "tq_reachable (rt_timers rt)" "executors_inv rt" "registry_inv rt"
    using rt_reachable_inv [OF assms] by (simp_all add: rt_inv_def)
  have stop: "tq_stop (rt_timers rt) = Q_stopped" if "\<not> early (rt_phase rt)" using inv(3) that by (simp add: registry_inv_def)
  have "rt_refuses rt = (\<lambda>_. None)" if "in_loop (tq_pc (rt_timers rt) n)"
  proof
    fix a
    have "early (rt_phase rt)" using stop stopped_no_loop [OF inv(1)] that by blast
    with inv(2) show "rt_refuses rt a = None" by (simp add: rt_refuses_def executors_inv_def split: option.split)
  qed
  moreover have "any_enqueue h t e = Inl (Runtime_shutdown (any_name e @ k_executor_shutdown_err_msg))"
    if "rt_phase rt = TD_done" "rt_store rt a = Some e" for a e
    using inv(2) that by (intro any_enqueue_refused) (auto simp: executors_inv_def)
  moreover have "add_timer p (rt_timers rt) = Inl (Runtime_shutdown k_timer_queue_shutdown_err_msg)" if "rt_phase rt = TD_done"
    using stopped_no_loop [OF inv(1) stop] that by (simp add: early_def add_timer_def)
  ultimately show ?thesis using inv(3) by (simp add: registry_inv_def late_def)
qed

text \<open>A runtime with one worker in each pool and a manual executor is destroyed.\<close>

fun destructor_run :: "nat \<Rightarrow> runtime \<Rightarrow> runtime option" where
  "destructor_run 0 rt = Some rt"
| "destructor_run (Suc n) rt = (case destructor_step id rt of Some (Inr rt') \<Rightarrow> destructor_run n rt' | _ \<Rightarrow> None)"

lemma destructor_run_reachable: "rt_reachable options rt \<Longrightarrow> destructor_run n rt = Some rt' \<Longrightarrow> rt_reachable options rt'"
proof (induction n arbitrary: rt)
  case (Suc n)
  then obtain rt1 where r: "destructor_step id rt = Some (Inr rt1)" "destructor_run n rt1 = Some rt'"
    by (auto split: option.splits sum.splits)
  then have "rt_reachable options rt1"
    using rt_reachable.rt_step [OF Suc.prems(1), of "RT_destroy id" rt1] by (simp add: joins_def)
  with Suc.IH r(2) show ?case by blast
qed simp

definition demo_options :: runtime_options where
  "demo_options = \<lparr>ro_max_cpu_threads = 1, ro_max_background_threads = 1, ro_net_io_pool_threads = 2\<rparr>"

lemma demo_teardown:
  "case bind_outcome (runtime_new demo_options demo_mem) (make_manual_executor 4) of
     Inl e \<Rightarrow> False
   | Inr rt \<Rightarrow> (case destructor_run 19 rt of None \<Rightarrow> False | Some rt' \<Rightarrow> rt_phase rt' = TD_done \<and> rt_store rt' 4 \<noteq> None)"
  by code_simp

theorem runtime_teardown_order_witness:
  "\<exists>rt e. rt_reachable demo_options rt \<and> rt_phase rt = TD_done \<and> rt_store rt 4 = Some e \<and>
     any_enqueue 0 7 e = Inl (Runtime_shutdown (any_name e @ k_executor_shutdown_err_msg)) \<and>
     add_timer 1 (rt_timers rt) = Inl (Runtime_shutdown k_timer_queue_shutdown_err_msg)"
proof -
  obtain rt0 rt1 rt where r: "runtime_new demo_options demo_mem = Inr rt0" "make_manual_executor 4 rt0 = Inr rt1"
      "destructor_run 19 rt1 = Some rt" "rt_phase rt = TD_done" "rt_store rt 4 \<noteq> None"
    using demo_teardown by (auto simp: bind_outcome_def split: sum.splits option.splits)
  then obtain e where e: "rt_store rt 4 = Some e" by blast
  have "rt_phase rt0 = TD_alive" "rt_store rt0 4 = None"
    using r(1) by (auto simp: runtime_new_def register_executor_def address_defs)
  then have "rt_reachable demo_options rt1"
    using rt_reachable.rt_step [OF rt_reachable.rt_start [OF r(1)], of "RT_manual 4" rt1] r(2) by simp
  then have rt: "rt_reachable demo_options rt" by (rule destructor_run_reachable [OF _ r(3)])
  have "0 < ro_max_cpu_threads demo_options" "0 < ro_max_background_threads demo_options" by (simp_all add: demo_options_def)
  from runtime_teardown_order [OF rt this, of 0 0 7 1] r(4) e rt show ?thesis by blast
qed

end
